(* ===== verification/Prelude.thy ===== *)
theory Prelude
  imports Main "HOL-Library.Word" "HOL-Library.AList" "HOL-Library.Monad_Syntax"
begin

text \<open>
  Shared vocabulary of the MEVWatch development.

  \<^item> The machine types of the Rust sources: addresses, hashes and the unsigned integers whose
    overflow matters are words; block heights are \<open>nat\<close> because the code only compares them,
    takes minima and subtracts with \<open>saturating_sub\<close>, all of which agree on \<open>u64\<close> and \<open>nat\<close>.
  \<^item> \<open>HashMap\<close> and \<open>BTreeMap\<close>: association lists with one entry per key, respectively
    association lists kept in strictly ascending key order (\<open>bm_update\<close>), with the operations
    of the Rust API the sources call.
  \<^item> The lemma collections \<open>hmap_simps\<close>, \<open>bmap_simps\<close> and \<open>sat_simps\<close> that the component
    theories hand to the simplifier.
\<close>

section \<open>Machine types\<close>

type_synonym b256 = "256 word"
type_synonym u256 = "256 word"
type_synonym address = "160 word"
type_synonym uuid = "128 word"
type_synonym u64 = "64 word"
type_synonym u32 = "32 word"
type_synonym u16 = "16 word"
type_synonym u8 = "8 word"

named_theorems sat_simps
named_theorems hmap_simps
named_theorems bmap_simps

section \<open>Saturating arithmetic\<close>

definition sat_sub :: "'a::len word \<Rightarrow> 'a word \<Rightarrow> 'a word" where
  "sat_sub a b = (if a < b then 0 else a - b)"

definition sat_add :: "'a::len word \<Rightarrow> 'a word \<Rightarrow> 'a word" where
  "sat_add a b = (if unat a + unat b < 2 ^ LENGTH('a) then a + b else - 1)"

lemma unat_sat_sub [sat_simps]: "unat (sat_sub a b) = unat a - unat b"
  by (auto simp: sat_sub_def word_less_nat_alt unat_sub_if')

lemma unat_neg_1: "unat (- 1 :: 'a::len word) = 2 ^ LENGTH('a) - 1"
  by (simp add: unsigned_minus_1_eq_mask mask_eq_exp_minus_1)

lemma unat_sat_add [sat_simps]:
  "unat (sat_add (a::'a::len word) b) = min (unat a + unat b) (2 ^ LENGTH('a) - 1)"
  by (auto simp: sat_add_def unat_word_ariths unat_neg_1)

lemma sat_sub_eq_0_iff [sat_simps]: "sat_sub a b = 0 \<longleftrightarrow> a \<le> b"
  by (auto simp: sat_sub_def)

lemma sat_add_ge1: "a \<le> sat_add a b"
proof -
  have "unat a < 2 ^ LENGTH('a)" by (rule unsigned_less)
  then have "unat a \<le> 2 ^ LENGTH('a) - 1" by linarith
  then show ?thesis
    by (simp add: word_le_nat_alt unat_sat_add)
qed

section \<open>Durations\<close>

text \<open>A \<open>Duration\<close> is its nanoseconds; the largest is \<open>Duration::MAX\<close>.\<close>

definition duration_max :: nat where
  "duration_max = (2 ^ 64 - 1) * 10 ^ 9 + 999999999"

section \<open>Hash maps as association lists\<close>

abbreviation hm_get :: "('k \<times> 'v) list \<Rightarrow> 'k \<Rightarrow> 'v option" where
  "hm_get \<equiv> map_of"

abbreviation hm_contains :: "('k \<times> 'v) list \<Rightarrow> 'k \<Rightarrow> bool" where
  "hm_contains m k \<equiv> map_of m k \<noteq> None"

abbreviation hm_insert :: "'k \<Rightarrow> 'v \<Rightarrow> ('k \<times> 'v) list \<Rightarrow> ('k \<times> 'v) list" where
  "hm_insert \<equiv> AList.update"

abbreviation hm_remove :: "'k \<Rightarrow> ('k \<times> 'v) list \<Rightarrow> ('k \<times> 'v) list" where
  "hm_remove \<equiv> AList.delete"

definition hm_retain :: "('v \<Rightarrow> bool) \<Rightarrow> ('k \<times> 'v) list \<Rightarrow> ('k \<times> 'v) list" where
  "hm_retain P m = filter (\<lambda>e. P (snd e)) m"

abbreviation hm_keys :: "('k \<times> 'v) list \<Rightarrow> 'k list" where
  "hm_keys m \<equiv> map fst m"

definition hm_distinct :: "('k \<times> 'v) list \<Rightarrow> bool" where
  "hm_distinct m \<longleftrightarrow> distinct (map fst m)"

lemma hm_distinct_Nil [hmap_simps, simp]: "hm_distinct []"
  by (simp add: hm_distinct_def)

lemma hm_distinct_insert [hmap_simps]: "hm_distinct m \<Longrightarrow> hm_distinct (hm_insert k v m)"
  by (simp add: hm_distinct_def distinct_update)

lemma hm_distinct_remove [hmap_simps]: "hm_distinct m \<Longrightarrow> hm_distinct (hm_remove k m)"
  by (simp add: hm_distinct_def AList.distinct_delete)

lemma hm_distinct_retain [hmap_simps]: "hm_distinct m \<Longrightarrow> hm_distinct (hm_retain P m)"
  by (simp add: hm_distinct_def hm_retain_def distinct_map_filter)

lemma hm_get_insert [hmap_simps]:
  "hm_get (hm_insert k v m) k' = (if k' = k then Some v else hm_get m k')"
  by (simp add: update_conv)

lemma hm_get_remove [hmap_simps]:
  "hm_get (hm_remove k m) k' = (if k' = k then None else hm_get m k')"
  by (simp add: delete_conv)

lemma hm_get_retain [hmap_simps]:
  "hm_distinct m \<Longrightarrow> hm_get (hm_retain P m) k =
     (case hm_get m k of None \<Rightarrow> None | Some v \<Rightarrow> if P v then Some v else None)"
proof (induction m)
  case (Cons e m)
  have "map_of m (fst e) = None" if "hm_distinct (e # m)"
    using that by (simp add: hm_distinct_def map_of_eq_None_iff)
  with Cons show ?case
    by (cases e) (auto simp: hm_distinct_def hm_retain_def split: option.splits)
qed (simp add: hm_retain_def)

lemma hm_get_retain_Some:
  "hm_distinct m \<Longrightarrow> hm_get (hm_retain P m) k = Some v \<longleftrightarrow> hm_get m k = Some v \<and> P v"
  by (auto simp: hm_get_retain split: option.splits)

lemma hm_in_iff: "hm_distinct m \<Longrightarrow> (k, v) \<in> set m \<longleftrightarrow> hm_get m k = Some v"
  by (simp add: hm_distinct_def)

lemma length_hm_insert:
  "length (hm_insert k v m) = (if hm_contains m k then length m else Suc (length m))"
  by (induction m) (auto split: if_splits)

lemma set_hm_insert_subset: "set (hm_insert k v m) \<subseteq> insert (k, v) (set m)"
  by (induction m) auto

lemma length_hm_remove_le: "length (hm_remove k m) \<le> length m"
  by (simp add: length_delete_le)

lemma length_hm_remove:
  "hm_distinct m \<Longrightarrow> hm_contains m k \<Longrightarrow> Suc (length (hm_remove k m)) = length m"
proof (induction m)
  case (Cons e m)
  show ?case
  proof (cases "fst e = k")
    case True
    with Cons.prems have "map_of m k = None"
      by (auto simp: hm_distinct_def map_of_eq_None_iff)
    then have "k \<notin> fst ` set m"
      by (simp add: map_of_eq_None_iff)
    then show ?thesis
      using True by (cases e) (simp add: delete_idem)
  next
    case False
    with Cons show ?thesis
      by (cases e) (auto simp: hm_distinct_def)
  qed
qed simp

lemma hm_contains_iff: "hm_contains m k \<longleftrightarrow> k \<in> set (hm_keys m)"
  by (simp add: map_of_eq_None_iff)

lemma keys_hm_remove: "set (hm_keys (hm_remove k m)) = set (hm_keys m) - {k}"
  by (induction m) auto

lemma hm_get_key: "hm_get m k = Some v \<Longrightarrow> k \<in> set (hm_keys m)"
  by (force dest: map_of_SomeD)

lemma keys_hm_insert: "set (hm_keys (hm_insert k v m)) = insert k (set (hm_keys m))"
  by (simp add: dom_update)

section \<open>B-tree maps as ascending association lists\<close>

text \<open>
  \<open>bm_update k f m\<close> is the entry API (\<open>entry(k).or_default()\<close> and an update in place): the value
  under \<open>k\<close> becomes \<open>f\<close> of what was there. Iteration over the list is iteration in key order.
\<close>

fun bm_update :: "'k::linorder \<Rightarrow> ('v option \<Rightarrow> 'v) \<Rightarrow> ('k \<times> 'v) list \<Rightarrow> ('k \<times> 'v) list" where
  "bm_update k f [] = [(k, f None)]"
| "bm_update k f ((k', v) # m) =
     (if k < k' then (k, f None) # (k', v) # m
      else if k = k' then (k, f (Some v)) # m
      else (k', v) # bm_update k f m)"

definition bm_sorted :: "('k::linorder \<times> 'v) list \<Rightarrow> bool" where
  "bm_sorted m \<longleftrightarrow> sorted_wrt (<) (map fst m)"

lemma bm_sorted_Nil [bmap_simps, simp]: "bm_sorted []"
  by (simp add: bm_sorted_def)

lemma bm_keys_update: "fst ` set (bm_update k f m) = insert k (fst ` set m)"
  by (induction k f m rule: bm_update.induct) auto

lemma bm_sorted_update [bmap_simps]: "bm_sorted m \<Longrightarrow> bm_sorted (bm_update k f m)"
proof (induction k f m rule: bm_update.induct)
  case (2 k f k' v m)
  from 2 show ?case
    using bm_keys_update[of k f m] by (auto simp: bm_sorted_def)
qed (simp add: bm_sorted_def)

lemma bm_sorted_distinct: "bm_sorted m \<Longrightarrow> hm_distinct m"
  by (simp add: bm_sorted_def hm_distinct_def strict_sorted_iff)

lemma bm_get_update [bmap_simps]:
  "bm_sorted m \<Longrightarrow> hm_get (bm_update k f m) k' =
     (if k' = k then Some (f (hm_get m k)) else hm_get m k')"
proof (induction k f m rule: bm_update.induct)
  case (2 k f k1 v m)
  have "map_of m k = None" if "k < k1"
  proof -
    have "k \<notin> fst ` set m"
      using 2 that by (fastforce simp: bm_sorted_def)
    then show ?thesis by (simp add: map_of_eq_None_iff)
  qed
  with 2 show ?case by (auto simp: bm_sorted_def)
qed simp

text \<open>Grouping: folding an entry update over a list computes, per key, the fold over its own elements.\<close>

lemma bm_fold_group:
  "bm_sorted m \<Longrightarrow> bm_sorted (fold (\<lambda>t. bm_update (key t) (g t)) ts m) \<and>
   hm_get (fold (\<lambda>t. bm_update (key t) (g t)) ts m) k =
     fold (\<lambda>t v. Some (g t v)) (filter (\<lambda>t. key t = k) ts) (hm_get m k)"
proof (induction ts arbitrary: m)
  case (Cons t ts)
  note IH = Cons.IH[OF bm_sorted_update[OF Cons.prems, of "key t" "g t"]]
  with bm_get_update[OF Cons.prems, of "key t" "g t" k] show ?case by auto
qed simp

lemma fold_Some: "fold (\<lambda>t v. Some (f t v)) ts (Some x) = Some (fold (\<lambda>t x. f t (Some x)) ts x)"
  by (induction ts arbitrary: x) auto

section \<open>Lists\<close>

lemma sorted_wrt_irrefl_distinct:
  "sorted_wrt R xs \<Longrightarrow> (\<And>x. \<not> R x x) \<Longrightarrow> distinct xs"
  by (induction xs) auto

lemma takeWhile_eq_prefix:
  "(\<And>x. x \<in> set xs \<Longrightarrow> P x) \<Longrightarrow> \<not> P y \<Longrightarrow> takeWhile P (xs @ y # ys) = xs"
  by (induction xs) auto

lemma find_Some_split:
  "find P xs = Some y \<Longrightarrow> \<exists>us ws. xs = us @ y # ws \<and> P y \<and> (\<forall>x\<in>set us. \<not> P x)"
proof (induction xs)
  case (Cons x xs)
  show ?case
  proof (cases "P x")
    case True
    with Cons.prems have "x # xs = [] @ y # xs" "P y" by auto
    then show ?thesis by (metis empty_iff empty_set)
  next
    case False
    with Cons obtain us ws where "xs = us @ y # ws" "P y" "\<forall>x\<in>set us. \<not> P x" by auto
    with False have "x # xs = (x # us) @ y # ws \<and> P y \<and> (\<forall>x\<in>set (x # us). \<not> P x)" by simp
    then show ?thesis by blast
  qed
qed simp

lemma takeWhile_const_True [simp]: "takeWhile (\<lambda>_. True) xs = xs"
  by (induction xs) auto

section \<open>Strings\<close>

text \<open>\<open>str::trim\<close> on the ASCII characters.\<close>

definition is_space :: "char \<Rightarrow> bool" where
  "is_space c \<longleftrightarrow> (let k = of_char c :: nat in 9 \<le> k \<and> k \<le> 13 \<or> k = 32)"

definition str_trim :: "string \<Rightarrow> string" where
  "str_trim s = rev (dropWhile is_space (rev (dropWhile is_space s)))"

section \<open>Results\<close>

text \<open>The \<open>?\<close> operator in a chain of checks, and a \<open>for\<close> loop that stops at the first error.\<close>

fun and_then :: "'e + unit \<Rightarrow> 'e + 'a \<Rightarrow> 'e + 'a" where
  "and_then (Inl e) r = Inl e"
| "and_then (Inr u) r = r"

fun check_each :: "('a \<Rightarrow> 'e + unit) \<Rightarrow> 'a list \<Rightarrow> 'e + unit" where
  "check_each f [] = Inr ()"
| "check_each f (x # xs) = and_then (f x) (check_each f xs)"

lemma and_then_ok [simp]: "and_then r s = Inr v \<longleftrightarrow> r = Inr () \<and> s = Inr v"
  by (cases r) auto

lemma and_then_error: "and_then r s = Inl e \<longleftrightarrow> r = Inl e \<or> r = Inr () \<and> s = Inl e"
  by (cases r) auto

lemma check_each_ok [simp]: "check_each f xs = Inr () \<longleftrightarrow> list_all (\<lambda>x. f x = Inr ()) xs"
  by (induction xs) auto

lemma check_each_cong: "(\<And>x. x \<in> set xs \<Longrightarrow> f x = g x) \<Longrightarrow> check_each f xs = check_each g xs"
  by (induction xs) auto

fun res_bind :: "'e + 'a \<Rightarrow> ('a \<Rightarrow> 'e + 'b) \<Rightarrow> 'e + 'b" where
  "res_bind (Inl e) f = Inl e"
| "res_bind (Inr v) f = f v"

lemma res_bind_ok: "res_bind r f = Inr w \<longleftrightarrow> (\<exists>v. r = Inr v \<and> f v = Inr w)"
  by (cases r) auto

end
