(* ===== verification/Chain_Types.thy ===== *)
theory Chain_Types
  imports Prelude
begin

text \<open>
  The chain-side value types every component exchanges: \<open>BlockRef\<close> of the event schema
  (\<open>crates/events/src/primitives.rs\<close>) and the header \<open>ChainHead\<close> a source adapter streams
  (\<open>crates/ingestion/src/source/mod.rs\<close>).
\<close>

record block_ref =
  br_number :: nat
  br_hash :: b256

record chain_head =
  number :: nat
  hash :: b256
  parent_hash :: b256
  timestamp :: u64
  tx_count :: u32

definition head_block_ref :: "chain_head \<Rightarrow> block_ref" where
  "head_block_ref h = \<lparr>br_number = number h, br_hash = hash h\<rparr>"

lemma head_block_ref_sel [simp]:
  "br_number (head_block_ref h) = number h" "br_hash (head_block_ref h) = hash h"
  by (simp_all add: head_block_ref_def)

end
