(* ===== verification/Block_Tree.thy ===== *)
theory Block_Tree
  imports Chain_Types
begin

text \<open>
  The reorg-aware block tree of the ingestion service (\<open>crates/ingestion/src/tree.rs\<close>).

  The tree's \<open>HashMap\<close> of nodes is an association list with distinct keys. The two parent walks
  (\<open>canonical_iter\<close> and the loop of \<open>reorg_to\<close>) follow parent hashes until one is absent; nothing
  in the code bounds them, so they are partial functions whose value \<open>None\<close> means that the walk
  panicked (\<open>self.nodes[&h]\<close> on a missing key) or never returned. \<open>debug_assert!\<close> is compiled
  out of release builds and is not part of the model; the theorems say when the asserted facts
  hold.
\<close>

section \<open>Data\<close>

record node =
  nd_head :: chain_head
  nd_seq :: nat

record canonical_update =
  reverted :: "chain_head list"
  canonicalized :: "chain_head list"

datatype add_outcome =
    Canonical canonical_update
  | Fork
  | Duplicate
  | MissingParent b256

datatype tree_error = ReorgBeyondFinality block_ref block_ref

type_synonym nodes = "(b256 \<times> node) list"

record block_tree =
  finalization_depth :: nat
  bt_nodes :: nodes
  canonical_tip :: "b256 option"
  finalized :: "block_ref option"
  next_seq :: nat

section \<open>Operations\<close>

definition is_reorg :: "canonical_update \<Rightarrow> bool" where
  "is_reorg u \<longleftrightarrow> reverted u \<noteq> []"

definition new_tree :: "nat \<Rightarrow> block_tree" where
  "new_tree depth = \<lparr>finalization_depth = depth, bt_nodes = [], canonical_tip = None,
     finalized = None, next_seq = 0\<rparr>"

definition canonical_tip_head :: "block_tree \<Rightarrow> chain_head option option" where
  "canonical_tip_head t = (case canonical_tip t of
      None \<Rightarrow> Some None
    | Some h \<Rightarrow> (case hm_get (bt_nodes t) h of None \<Rightarrow> None | Some n \<Rightarrow> Some (Some (nd_head n))))"

definition tree_contains :: "block_tree \<Rightarrow> b256 \<Rightarrow> bool" where
  "tree_contains t h = hm_contains (bt_nodes t) h"

definition tree_len :: "block_tree \<Rightarrow> nat" where
  "tree_len t = length (bt_nodes t)"

text \<open>The walk of \<open>canonical_iter\<close> from one node towards the root, tip first.\<close>

partial_function (option) walk :: "nodes \<Rightarrow> b256 \<Rightarrow> chain_head list option" where
  "walk ns h =
     Option.bind (hm_get ns h) (\<lambda>n.
       if hm_contains ns (parent_hash (nd_head n))
       then Option.bind (walk ns (parent_hash (nd_head n))) (\<lambda>rest. Some (nd_head n # rest))
       else Some [nd_head n])"

definition canonical_iter :: "block_tree \<Rightarrow> chain_head list option" where
  "canonical_iter t = (case canonical_tip t of None \<Rightarrow> Some [] | Some h \<Rightarrow> walk (bt_nodes t) h)"

text \<open>
  The loop of \<open>reorg_to\<close>: collect the new branch from its tip down until a block of the old
  canonical chain (the common ancestor) or a root is reached.
\<close>

partial_function (option) branch_walk ::
    "nodes \<Rightarrow> b256 list \<Rightarrow> b256 \<Rightarrow> chain_head list \<Rightarrow> (chain_head list \<times> b256 option) option" where
  "branch_walk ns old_chain cursor acc =
     (if cursor \<in> set old_chain then Some (acc, Some cursor)
      else Option.bind (hm_get ns cursor) (\<lambda>n.
        if hm_contains ns (parent_hash (nd_head n))
        then branch_walk ns old_chain (parent_hash (nd_head n)) (acc @ [nd_head n])
        else Some (acc @ [nd_head n], None)))"

definition reorg_to :: "block_tree \<Rightarrow> b256 \<Rightarrow> canonical_update option" where
  "reorg_to t new_tip =
     Option.bind (canonical_iter t) (\<lambda>old.
       Option.bind (branch_walk (bt_nodes t) (map hash old) new_tip []) (\<lambda>(branch, common_ancestor).
         Some \<lparr>reverted = takeWhile (\<lambda>h. Some (hash h) \<noteq> common_ancestor) old,
               canonicalized = rev branch\<rparr>))"

definition prune_below :: "nat \<Rightarrow> block_tree \<Rightarrow> block_tree" where
  "prune_below floor t = t\<lparr>bt_nodes := hm_retain (\<lambda>n. floor \<le> number (nd_head n)) (bt_nodes t)\<rparr>"

definition prune_to_depth :: "block_tree \<Rightarrow> block_tree option" where
  "prune_to_depth t =
     Option.bind (canonical_tip_head t) (\<lambda>tip. case tip of
         None \<Rightarrow> Some t
       | Some h \<Rightarrow> Some (prune_below (number h - finalization_depth t) t))"

text \<open>\<open>(head.number, seq) > (tip.head.number, tip.seq)\<close>, the lexicographic order on pairs.\<close>

definition key_less :: "node \<Rightarrow> node \<Rightarrow> bool" where
  "key_less a b \<longleftrightarrow> number (nd_head a) < number (nd_head b) \<or>
     number (nd_head a) = number (nd_head b) \<and> nd_seq a < nd_seq b"

definition beats_tip :: "block_tree \<Rightarrow> node \<Rightarrow> bool option" where
  "beats_tip t n = (case canonical_tip t of
      None \<Rightarrow> Some True
    | Some h \<Rightarrow> Option.bind (hm_get (bt_nodes t) h) (\<lambda>tip. Some (key_less tip n)))"

definition store_block :: "chain_head \<Rightarrow> block_tree \<Rightarrow> block_tree" where
  "store_block head t = t\<lparr>next_seq := next_seq t + 1,
     bt_nodes := hm_insert (hash head) \<lparr>nd_head = head, nd_seq = next_seq t\<rparr> (bt_nodes t)\<rparr>"

definition add_block ::
    "chain_head \<Rightarrow> block_tree \<Rightarrow> ((tree_error + add_outcome) \<times> block_tree) option" where
  "add_block head t =
     (if hm_contains (bt_nodes t) (hash head) then Some (Inr Duplicate, t)
      else case (case finalized t of
                   Some f \<Rightarrow> if number head \<le> br_number f
                             then Some (ReorgBeyondFinality f (head_block_ref head)) else None
                 | None \<Rightarrow> None) of
        Some e \<Rightarrow> Some (Inl e, t)
      | None \<Rightarrow>
        if bt_nodes t \<noteq> [] \<and> \<not> hm_contains (bt_nodes t) (parent_hash head)
        then Some (Inr (MissingParent (parent_hash head)), t)
        else
          Option.bind (beats_tip (store_block head t) \<lparr>nd_head = head, nd_seq = next_seq t\<rparr>) (\<lambda>b.
            if \<not> b then Some (Inr Fork, store_block head t)
            else Option.bind (reorg_to (store_block head t) (hash head)) (\<lambda>u.
                 Option.bind (prune_to_depth ((store_block head t)\<lparr>canonical_tip := Some (hash head)\<rparr>))
                   (\<lambda>t2. Some (Inr (Canonical u), t2)))))"

definition finalize :: "block_ref \<Rightarrow> block_tree \<Rightarrow> (chain_head list \<times> block_tree) option" where
  "finalize fin t =
     (let prev_floor = map_option br_number (finalized t) in
      Option.bind (canonical_tip_head t) (\<lambda>tip.
        let floor = (case tip of None \<Rightarrow> br_number fin | Some h \<Rightarrow> min (br_number fin) (number h)) in
        Option.bind (canonical_iter t) (\<lambda>chain.
          let newly_final = rev (filter (\<lambda>h. number h \<le> floor \<and>
                (case prev_floor of None \<Rightarrow> True | Some p \<Rightarrow> p < number h)) chain)
          in Some (newly_final, prune_below floor (t\<lparr>finalized := Some fin\<rparr>)))))"


section \<open>Well-formed trees\<close>

text \<open>
  Heads come from the chain; what the tree relies on is that a block's height is its parent's
  plus one. \<open>consistent_heads\<close> says so for the heads at hand (it also rules out a block that
  names itself as its parent, on which the walk would never return).
\<close>

definition consistent_heads :: "chain_head list \<Rightarrow> bool" where
  "consistent_heads hs \<longleftrightarrow>
     (\<forall>a\<in>set hs. \<forall>b\<in>set hs. parent_hash a = hash b \<longrightarrow> number a = Suc (number b))"

definition tree_heads :: "block_tree \<Rightarrow> chain_head list" where
  "tree_heads t = map (\<lambda>e. nd_head (snd e)) (bt_nodes t)"

definition keyed :: "nodes \<Rightarrow> nat \<Rightarrow> bool" where
  "keyed ns s \<longleftrightarrow> (\<forall>h n. hm_get ns h = Some n \<longrightarrow> hash (nd_head n) = h \<and> nd_seq n < s)"

definition linked :: "nodes \<Rightarrow> bool" where
  "linked ns \<longleftrightarrow> (\<forall>h n m. hm_get ns h = Some n \<longrightarrow> hm_get ns (parent_hash (nd_head n)) = Some m \<longrightarrow>
     number (nd_head n) = Suc (number (nd_head m)))"

text \<open>Only blocks of the lowest height held may lack their parent.\<close>

definition rooted :: "nodes \<Rightarrow> bool" where
  "rooted ns \<longleftrightarrow> (\<forall>h n. hm_get ns h = Some n \<longrightarrow> hm_contains ns (parent_hash (nd_head n)) \<or>
     (\<forall>h' m. hm_get ns h' = Some m \<longrightarrow> number (nd_head n) \<le> number (nd_head m)))"

definition tip_ok :: "nodes \<Rightarrow> b256 option \<Rightarrow> bool" where
  "tip_ok ns tip = (case tip of
      None \<Rightarrow> ns = []
    | Some h \<Rightarrow> (\<exists>n. hm_get ns h = Some n \<and>
        (\<forall>h' m. hm_get ns h' = Some m \<longrightarrow> h' \<noteq> h \<longrightarrow> key_less m n)))"

definition tree_inv :: "block_tree \<Rightarrow> bool" where
  "tree_inv t \<longleftrightarrow> hm_distinct (bt_nodes t) \<and> keyed (bt_nodes t) (next_seq t) \<and>
     linked (bt_nodes t) \<and> rooted (bt_nodes t) \<and> tip_ok (bt_nodes t) (canonical_tip t)"

lemma tree_invD [dest]:
  assumes "tree_inv t"
  shows "hm_distinct (bt_nodes t)" "keyed (bt_nodes t) (next_seq t)" "linked (bt_nodes t)"
    "rooted (bt_nodes t)" "tip_ok (bt_nodes t) (canonical_tip t)"
  using assms by (simp_all add: tree_inv_def)

section \<open>Paths\<close>

text \<open>\<open>is_path ns h hs\<close>: the blocks \<open>hs\<close> are the whole walk from \<open>h\<close> to a root.\<close>

fun is_path :: "nodes \<Rightarrow> b256 \<Rightarrow> chain_head list \<Rightarrow> bool" where
  "is_path ns h [] = False"
| "is_path ns h (x # xs) = (map_option nd_head (hm_get ns h) = Some x \<and>
     (if hm_contains ns (parent_hash x) then is_path ns (parent_hash x) xs else xs = []))"

lemma is_path_walk: "is_path ns h hs \<Longrightarrow> walk ns h = Some hs"
proof (induction hs arbitrary: h)
  case (Cons x xs)
  then show ?case
    by (subst walk.simps) (auto split: if_splits)
qed simp

lemma path_exists:
  assumes "linked ns" "hm_get ns h = Some n"
  shows "\<exists>hs. is_path ns h hs"
  using assms(2)
proof (induction "number (nd_head n)" arbitrary: h n rule: less_induct)
  case less
  show ?case
  proof (cases "hm_get ns (parent_hash (nd_head n))")
    case None
    with less.prems have "is_path ns h [nd_head n]" by simp
    then show ?thesis ..
  next
    case (Some m)
    with assms(1) less.prems have "number (nd_head m) < number (nd_head n)"
      by (auto simp: linked_def)
    with less.hyps Some obtain xs where "is_path ns (parent_hash (nd_head n)) xs" by blast
    with Some less.prems have "is_path ns h (nd_head n # xs)" by simp
    then show ?thesis ..
  qed
qed

lemma walk_is_path:
  assumes "linked ns" "hm_get ns h = Some n" "walk ns h = Some hs"
  shows "is_path ns h hs"
  using path_exists[OF assms(1,2)] is_path_walk assms(3) by fastforce

lemma is_path_unique: "is_path ns h xs \<Longrightarrow> is_path ns h ys \<Longrightarrow> xs = ys"
  by (drule is_path_walk, drule is_path_walk) simp

lemma is_path_hd: "keyed ns s \<Longrightarrow> is_path ns h (x # xs) \<Longrightarrow> hash x = h"
  by (auto simp: keyed_def)

lemma is_path_nodes:
  "is_path ns h hs \<Longrightarrow> x \<in> set hs \<Longrightarrow> \<exists>k n. hm_get ns k = Some n \<and> nd_head n = x"
  by (induction hs arbitrary: h) (auto split: if_splits)

lemma is_path_get:
  "keyed ns s \<Longrightarrow> is_path ns h hs \<Longrightarrow> x \<in> set hs \<Longrightarrow> \<exists>n. hm_get ns (hash x) = Some n \<and> nd_head n = x"
  using is_path_nodes unfolding keyed_def by metis

lemma is_path_suffix:
  "keyed ns s \<Longrightarrow> is_path ns h (xs @ y # ys) \<Longrightarrow> is_path ns (hash y) (y # ys)"
proof (induction xs arbitrary: h)
  case Nil
  then show ?case using is_path_hd by fastforce
next
  case (Cons x xs)
  then show ?case by (auto split: if_splits)
qed

lemma is_path_descending:
  "keyed ns s \<Longrightarrow> linked ns \<Longrightarrow> is_path ns h hs \<Longrightarrow> sorted_wrt (\<lambda>a b. number b < number a) hs"
proof (induction hs arbitrary: h)
  case (Cons x xs)
  show ?case
  proof (cases xs)
    case (Cons y ys)
    with Cons.prems have p: "is_path ns (parent_hash x) xs" and
      g: "map_option nd_head (hm_get ns h) = Some x"
      by (auto split: if_splits)
    from p Cons.prems have srt: "sorted_wrt (\<lambda>a b. number b < number a) xs"
      using Cons.IH by blast
    from p Cons have "map_option nd_head (hm_get ns (parent_hash x)) = Some y" by simp
    with g Cons.prems(2) have "number y < number x" by (auto simp: linked_def)
    with srt Cons show ?thesis by auto
  qed simp
qed simp

lemma descending_distinct_hash:
  assumes "keyed ns s" "linked ns" "is_path ns h hs"
  shows "distinct (map hash hs)"
proof -
  have inj: "inj_on hash (set hs)"
  proof
    fix x y assume "x \<in> set hs" "y \<in> set hs" "hash x = hash y"
    with assms show "x = y" using is_path_get by (metis option.inject)
  qed
  have "distinct hs"
    using is_path_descending[OF assms]
    by (rule sorted_wrt_irrefl_distinct) auto
  with inj show ?thesis by (simp add: distinct_map)
qed


section \<open>The reorg walk\<close>

lemma branch_walk_path:
  assumes "keyed ns s" "is_path ns c hs"
  shows "branch_walk ns old c acc = Some (acc @ takeWhile (\<lambda>x. hash x \<notin> set old) hs,
    map_option hash (find (\<lambda>x. hash x \<in> set old) hs))"
  using assms(2)
proof (induction hs arbitrary: c acc)
  case (Cons x xs)
  then have hx: "hash x = c" using is_path_hd[OF assms(1)] by blast
  from Cons.prems obtain n where n: "hm_get ns c = Some n" "nd_head n = x" by auto
  show ?case
  proof (cases "c \<in> set old")
    case True
    with hx show ?thesis by (subst branch_walk.simps) simp
  next
    case False
    show ?thesis
    proof (cases "hm_contains ns (parent_hash x)")
      case True
      with Cons.prems have "is_path ns (parent_hash x) xs" by simp
      from Cons.IH[OF this, of "acc @ [x]"] True False n hx show ?thesis
        by (subst branch_walk.simps) simp
    next
      case root: False
      with Cons.prems have "xs = []" by simp
      with root False n hx show ?thesis by (subst branch_walk.simps) simp
    qed
  qed
qed simp

text \<open>
  Two walks that meet share everything below: the branch and the old chain split into a private
  part each and one common suffix (empty when they never meet).
\<close>

lemma paths_split:
  assumes "keyed ns s" "linked ns" "is_path ns a old" "is_path ns b new"
  shows "\<exists>suffix.
    new = takeWhile (\<lambda>x. hash x \<notin> hash ` set old) new @ suffix \<and>
    old = takeWhile (\<lambda>h. Some (hash h) \<noteq> map_option hash (find (\<lambda>x. hash x \<in> hash ` set old) new)) old
          @ suffix"
proof (cases "find (\<lambda>x. hash x \<in> hash ` set old) new")
  case None
  then have "\<forall>x\<in>set new. hash x \<notin> hash ` set old" by (simp add: find_None_iff)
  then have "takeWhile (\<lambda>x. hash x \<notin> hash ` set old) new = new" by simp
  from this[symmetric] have "new = takeWhile (\<lambda>x. hash x \<notin> hash ` set old) new @ []"
    unfolding append_Nil2 .
  moreover have "old = takeWhile (\<lambda>h. Some (hash h) \<noteq> map_option hash None) old @ []" by simp
  ultimately show ?thesis unfolding None by blast
next
  case (Some y)
  then obtain us ws where new: "new = us @ y # ws" and y: "hash y \<in> hash ` set old" and
    us: "\<forall>x\<in>set us. hash x \<notin> hash ` set old"
    using find_Some_split by fastforce
  have tw: "takeWhile (\<lambda>x. hash x \<notin> hash ` set old) new = us"
    unfolding new by (rule takeWhile_eq_prefix) (use us y in auto)
  from y obtain z where z: "z \<in> set old" "hash z = hash y" by auto
  have ynew: "y \<in> set new" unfolding new by simp
  obtain n m where "hm_get ns (hash z) = Some n" "nd_head n = z"
    "hm_get ns (hash y) = Some m" "nd_head m = y"
    using is_path_get[OF assms(1,3) z(1)] is_path_get[OF assms(1,4) ynew] by blast
  then have zy: "z = y" using z(2) by simp
  from z zy obtain vs ws' where old: "old = vs @ y # ws'" by (meson split_list)
  have "is_path ns (hash y) (y # ws)"
    by (rule is_path_suffix[OF assms(1) assms(4)[unfolded new]])
  moreover have "is_path ns (hash y) (y # ws')"
    by (rule is_path_suffix[OF assms(1) assms(3)[unfolded old]])
  ultimately have ws: "ws' = ws" using is_path_unique by blast
  have dist: "distinct (map hash old)" by (rule descending_distinct_hash[OF assms(1,2,3)])
  have "hash y \<notin> hash ` set vs" using dist[unfolded old] by simp
  then have "hash x \<noteq> hash y" if "x \<in> set vs" for x using imageI[OF that, of hash] by metis
  then have tv: "takeWhile (\<lambda>h. Some (hash h) \<noteq> Some (hash y)) old = vs"
    unfolding old by (intro takeWhile_eq_prefix) simp_all
  show ?thesis
  proof (intro exI[of _ "y # ws"] conjI)
    show "new = takeWhile (\<lambda>x. hash x \<notin> hash ` set old) new @ y # ws"
      unfolding tw by (rule new)
    show "old = takeWhile (\<lambda>h. Some (hash h) \<noteq>
        map_option hash (find (\<lambda>x. hash x \<in> hash ` set old) new)) old @ y # ws"
      unfolding Some option.map tv using old ws by simp
  qed
qed


lemma reorg_to_split:
  assumes "keyed (bt_nodes t) s" "linked (bt_nodes t)"
    and "is_path (bt_nodes t) new_tip new"
    and "case canonical_tip t of None \<Rightarrow> old = [] | Some h \<Rightarrow> is_path (bt_nodes t) h old"
  shows "\<exists>u suffix. reorg_to t new_tip = Some u \<and> old = reverted u @ suffix \<and>
    new = rev (canonicalized u) @ suffix \<and>
    (\<forall>x\<in>set (canonicalized u). hash x \<notin> hash ` set old)"
proof -
  have iter: "canonical_iter t = Some old"
    using assms(4) by (auto simp: canonical_iter_def is_path_walk split: option.splits)
  let ?P = "\<lambda>x. hash x \<in> hash ` set old"
  let ?u = "\<lparr>reverted = takeWhile (\<lambda>h. Some (hash h) \<noteq> map_option hash (find ?P new)) old,
    canonicalized = rev (takeWhile (\<lambda>x. \<not> ?P x) new)\<rparr>"
  have r: "reorg_to t new_tip = Some ?u"
    using branch_walk_path[OF assms(1,3), of "map hash old" "[]"] iter
    by (simp add: reorg_to_def)
  have "\<exists>suffix. new = takeWhile (\<lambda>x. \<not> ?P x) new @ suffix \<and>
    old = takeWhile (\<lambda>h. Some (hash h) \<noteq> map_option hash (find ?P new)) old @ suffix"
  proof (cases "canonical_tip t")
    case None
    with assms(4) have "old = []" by simp
    then show ?thesis by (intro exI[of _ "[]"]) simp
  next
    case (Some h)
    with assms(4) have "is_path (bt_nodes t) h old" by simp
    from paths_split[OF assms(1,2) this assms(3)] show ?thesis by simp
  qed
  then obtain suffix where "new = takeWhile (\<lambda>x. \<not> ?P x) new @ suffix"
    "old = takeWhile (\<lambda>h. Some (hash h) \<noteq> map_option hash (find ?P new)) old @ suffix" by blast
  with r show ?thesis
    by (intro exI[of _ ?u] exI[of _ suffix]) (auto dest: set_takeWhileD)
qed

section \<open>Storing a block\<close>

lemma no_child_of_new:
  assumes inv: "tree_inv t" and cons: "consistent_heads (head # tree_heads t)"
    and new: "hm_get (bt_nodes t) (hash head) = None"
    and link: "bt_nodes t = [] \<or> hm_contains (bt_nodes t) (parent_hash head)"
    and m: "hm_get (bt_nodes t) h = Some m"
  shows "parent_hash (nd_head m) \<noteq> hash head"
proof
  assume child: "parent_hash (nd_head m) = hash head"
  have mem: "nd_head n \<in> set (tree_heads t)" if "hm_get (bt_nodes t) k = Some n" for k n
    using map_of_SomeD[OF that] by (force simp: tree_heads_def)
  from cons child mem[OF m] have 1: "number (nd_head m) = Suc (number head)"
    by (auto simp: consistent_heads_def)
  from m link obtain p where p: "hm_get (bt_nodes t) (parent_hash head) = Some p" by auto
  then have "hash (nd_head p) = parent_hash head" using tree_invD(2)[OF inv] by (simp add: keyed_def)
  with cons mem[OF p] have 2: "number head = Suc (number (nd_head p))"
    by (auto simp: consistent_heads_def)
  from tree_invD(4)[OF inv] m child new p have "number (nd_head m) \<le> number (nd_head p)"
    unfolding rooted_def by metis
  with 1 2 show False by simp
qed

lemma no_self_parent: "consistent_heads (head # hs) \<Longrightarrow> parent_hash head \<noteq> hash head"
  by (force simp: consistent_heads_def)

lemma is_path_insert:
  assumes "is_path ns h hs" "hm_get ns k = None"
    and "\<And>h' m. hm_get ns h' = Some m \<Longrightarrow> parent_hash (nd_head m) \<noteq> k"
  shows "is_path (hm_insert k n ns) h hs"
  using assms(1)
proof (induction hs arbitrary: h)
  case (Cons x xs)
  then obtain m where m: "hm_get ns h = Some m" "nd_head m = x" by auto
  with assms(3) have "parent_hash x \<noteq> k" by blast
  moreover from m assms(2) have "h \<noteq> k" by auto
  ultimately show ?case using Cons m by (auto simp: hm_get_insert split: if_splits)
qed simp


text \<open>\<open>linkable\<close>: the head passes every early return of \<open>add_block\<close> and is stored.\<close>

definition linkable :: "chain_head \<Rightarrow> block_tree \<Rightarrow> bool" where
  "linkable head t \<longleftrightarrow> \<not> hm_contains (bt_nodes t) (hash head) \<and>
     (case finalized t of None \<Rightarrow> True | Some f \<Rightarrow> br_number f < number head) \<and>
     (bt_nodes t = [] \<or> hm_contains (bt_nodes t) (parent_hash head))"

lemma add_block_linkable:
  "linkable head t \<Longrightarrow> add_block head t =
     Option.bind (beats_tip (store_block head t) \<lparr>nd_head = head, nd_seq = next_seq t\<rparr>) (\<lambda>b.
       if \<not> b then Some (Inr Fork, store_block head t)
       else Option.bind (reorg_to (store_block head t) (hash head)) (\<lambda>u.
         Option.bind (prune_to_depth ((store_block head t)\<lparr>canonical_tip := Some (hash head)\<rparr>)) (\<lambda>t2.
           Some (Inr (Canonical u), t2))))"
  by (auto simp: add_block_def linkable_def split: option.splits)

lemma add_block_refused:
  "\<not> linkable head t \<Longrightarrow> \<exists>r. add_block head t = Some (r, t) \<and> r \<noteq> Inr Fork \<and> (\<forall>u. r \<noteq> Inr (Canonical u))"
  by (auto simp: add_block_def linkable_def split: option.splits)

lemma stored_get:
  "hm_get (bt_nodes (store_block head t)) h =
     (if h = hash head then Some \<lparr>nd_head = head, nd_seq = next_seq t\<rparr> else hm_get (bt_nodes t) h)"
  by (simp add: store_block_def hm_get_insert)

lemma consistent_tree_link:
  assumes "tree_inv t" "consistent_heads (head # tree_heads t)"
    "hm_get (bt_nodes t) (parent_hash head) = Some p"
  shows "number head = Suc (number (nd_head p))"
proof -
  have "nd_head p \<in> set (tree_heads t)"
    using map_of_SomeD[OF assms(3)] by (force simp: tree_heads_def)
  moreover have "hash (nd_head p) = parent_hash head"
    using tree_invD(2)[OF assms(1)] assms(3) by (simp add: keyed_def)
  ultimately show ?thesis using assms(2) by (simp add: consistent_heads_def)
qed

lemma stored_inv:
  assumes inv: "tree_inv t" and cons: "consistent_heads (head # tree_heads t)"
    and link: "linkable head t"
  shows "hm_distinct (bt_nodes (store_block head t))" (is ?distinct)
    and "keyed (bt_nodes (store_block head t)) (next_seq (store_block head t))" (is ?keyed)
    and "linked (bt_nodes (store_block head t))" (is ?linked)
    and "rooted (bt_nodes (store_block head t))" (is ?rooted)
proof -
  note parts = tree_invD[OF inv]
  have fresh: "hm_get (bt_nodes t) (hash head) = None" using link by (simp add: linkable_def)
  have par: "bt_nodes t = [] \<or> hm_contains (bt_nodes t) (parent_hash head)"
    using link by (simp add: linkable_def)
  have nochild: "parent_hash (nd_head m) \<noteq> hash head" if "hm_get (bt_nodes t) h = Some m" for h m
    using no_child_of_new[OF inv cons fresh par that] .
  have self: "parent_hash head \<noteq> hash head" by (rule no_self_parent[OF cons])
  show ?distinct using parts(1) by (simp add: store_block_def hm_distinct_insert)
  show ?keyed using parts(2) unfolding keyed_def stored_get
    by (auto simp: store_block_def less_Suc_eq split: if_splits)
  show ?linked
    unfolding linked_def stored_get
    using parts(3) nochild self consistent_tree_link[OF inv cons]
    by (auto simp: linked_def split: if_splits)
  show ?rooted
    unfolding rooted_def
  proof (intro allI impI)
    fix h n assume n: "hm_get (bt_nodes (store_block head t)) h = Some n"
    show "hm_contains (bt_nodes (store_block head t)) (parent_hash (nd_head n)) \<or>
      (\<forall>h' m. hm_get (bt_nodes (store_block head t)) h' = Some m \<longrightarrow> number (nd_head n) \<le> number (nd_head m))"
    proof (cases "h = hash head")
      case True
      with n par show ?thesis by (auto simp: stored_get split: if_splits)
    next
      case False
      with n have n': "hm_get (bt_nodes t) h = Some n" by (simp add: stored_get)
      then obtain p where p: "hm_get (bt_nodes t) (parent_hash head) = Some p" using par by auto
      have "number head = Suc (number (nd_head p))" by (rule consistent_tree_link[OF inv cons p])
      with parts(4) n' p show ?thesis
        unfolding rooted_def stored_get by (metis le_SucI node.select_convs(1) option.inject option.discI)
    qed
  qed
qed

section \<open>Pruning\<close>

lemma prune_below_sel [simp]:
  "canonical_tip (prune_below f t) = canonical_tip t" "next_seq (prune_below f t) = next_seq t"
  "finalized (prune_below f t) = finalized t"
  "finalization_depth (prune_below f t) = finalization_depth t"
  "bt_nodes (prune_below f t) = hm_retain (\<lambda>n. f \<le> number (nd_head n)) (bt_nodes t)"
  by (simp_all add: prune_below_def)

lemma linked_retain:
  assumes "hm_distinct ns" "linked ns"
  shows "linked (hm_retain P ns)"
  using assms by (simp add: linked_def hm_get_retain_Some) blast

lemma rooted_retain:
  assumes "hm_distinct ns" "linked ns" "rooted ns"
  shows "rooted (hm_retain (\<lambda>n. f \<le> number (nd_head n)) ns)"
  unfolding rooted_def
proof (intro allI impI)
  fix h n assume "hm_get (hm_retain (\<lambda>n. f \<le> number (nd_head n)) ns) h = Some n"
  then have n: "hm_get ns h = Some n" "f \<le> number (nd_head n)"
    using assms(1) by (simp_all add: hm_get_retain_Some)
  show "hm_contains (hm_retain (\<lambda>n. f \<le> number (nd_head n)) ns) (parent_hash (nd_head n)) \<or>
    (\<forall>h' m. hm_get (hm_retain (\<lambda>n. f \<le> number (nd_head n)) ns) h' = Some m \<longrightarrow>
      number (nd_head n) \<le> number (nd_head m))"
  proof (cases "hm_get ns (parent_hash (nd_head n))")
    case None
    with n assms(3) have "\<forall>h' m. hm_get ns h' = Some m \<longrightarrow> number (nd_head n) \<le> number (nd_head m)"
      unfolding rooted_def by blast
    then show ?thesis using assms(1) by (simp add: hm_get_retain_Some) blast
  next
    case (Some p)
    with n assms(2) have num: "number (nd_head n) = Suc (number (nd_head p))" by (auto simp: linked_def)
    show ?thesis
    proof (cases "f \<le> number (nd_head p)")
      case True
      with Some show ?thesis using assms(1) by (simp add: hm_get_retain)
    next
      case False
      with num n have "number (nd_head n) = f" by simp
      then show ?thesis using assms(1) by (simp add: hm_get_retain_Some)
    qed
  qed
qed

lemma prune_below_inv:
  assumes inv: "tree_inv t"
    and keep: "\<And>h n. canonical_tip t = Some h \<Longrightarrow> hm_get (bt_nodes t) h = Some n \<Longrightarrow> f \<le> number (nd_head n)"
  shows "tree_inv (prune_below f t)"
proof -
  note parts = tree_invD[OF inv]
  have "tip_ok (bt_nodes (prune_below f t)) (canonical_tip t)"
    using parts(1,5) keep
    by (auto simp: tip_ok_def hm_get_retain_Some hm_retain_def[of _ "[]"] split: option.splits)
  moreover have "keyed (bt_nodes (prune_below f t)) (next_seq t)"
    using parts(1,2) by (simp add: keyed_def hm_get_retain_Some) blast
  ultimately show ?thesis
    using parts by (simp add: tree_inv_def hm_distinct_retain linked_retain rooted_retain)
qed

lemma is_path_retain:
  assumes "hm_distinct ns" "keyed ns s" "linked ns"
  shows "is_path ns h hs \<Longrightarrow> f \<le> number (hd hs) \<Longrightarrow>
    is_path (hm_retain (\<lambda>n. f \<le> number (nd_head n)) ns) h (filter (\<lambda>b. f \<le> number b) hs)"
proof (induction hs arbitrary: h)
  case (Cons x xs)
  let ?ns = "hm_retain (\<lambda>n. f \<le> number (nd_head n)) ns"
  from Cons.prems obtain n where n: "hm_get ns h = Some n" "nd_head n = x" by auto
  with Cons.prems have g: "map_option nd_head (hm_get ?ns h) = Some x"
    using assms(1) by (simp add: hm_get_retain)
  show ?case
  proof (cases xs)
    case Nil
    with Cons.prems have "hm_get ns (parent_hash x) = None" by (auto split: if_splits)
    then have "hm_get ?ns (parent_hash x) = None" using assms(1) by (simp add: hm_get_retain)
    with g Nil Cons.prems show ?thesis by simp
  next
    case (Cons y ys)
    with Cons.prems have p: "is_path ns (parent_hash x) xs" by (auto split: if_splits)
    then obtain m where m: "hm_get ns (parent_hash x) = Some m" "nd_head m = y"
      using Cons by auto
    show ?thesis
    proof (cases "f \<le> number y")
      case True
      with Cons.IH[OF p] Cons have
        "is_path ?ns (parent_hash x) (filter (\<lambda>b. f \<le> number b) xs)" by simp
      moreover have "hm_contains ?ns (parent_hash x)"
        using m True assms(1) by (simp add: hm_get_retain)
      ultimately show ?thesis using g Cons.prems by simp
    next
      case False
      have "sorted_wrt (\<lambda>a b. number b < number a) xs" by (rule is_path_descending[OF assms(2,3) p])
      with Cons False have "filter (\<lambda>b. f \<le> number b) xs = []"
        by (auto simp: filter_empty_conv)
      moreover have "hm_get ?ns (parent_hash x) = None"
        using m False assms(1) by (simp add: hm_get_retain)
      ultimately show ?thesis using g Cons.prems by simp
    qed
  qed
qed simp

section \<open>Adding a block keeps the tree well formed\<close>

lemma tip_cases:
  assumes "tree_inv t"
  obtains (empty) "canonical_tip t = None" "bt_nodes t = []"
    | (tip) h n where "canonical_tip t = Some h" "hm_get (bt_nodes t) h = Some n"
        "\<And>h' m. hm_get (bt_nodes t) h' = Some m \<Longrightarrow> h' \<noteq> h \<Longrightarrow> key_less m n"
  using tree_invD(5)[OF assms] by (auto simp: tip_ok_def split: option.splits)

lemma store_block_sel [simp]:
  "canonical_tip (store_block head t) = canonical_tip t"
  "next_seq (store_block head t) = Suc (next_seq t)"
  "finalized (store_block head t) = finalized t"
  "finalization_depth (store_block head t) = finalization_depth t"
  by (simp_all add: store_block_def)

lemma key_less_trans: "key_less a b \<Longrightarrow> key_less b c \<Longrightarrow> key_less a c"
  by (auto simp: key_less_def)

lemma stored_tip_ok:
  assumes inv: "tree_inv t" and link: "linkable head t"
  defines "n \<equiv> \<lparr>nd_head = head, nd_seq = next_seq t\<rparr>"
  shows "\<exists>b. beats_tip (store_block head t) n = Some b \<and>
    tip_ok (bt_nodes (store_block head t)) (if b then Some (hash head) else canonical_tip t)"
  using inv
proof (cases rule: tip_cases)
  case empty
  then show ?thesis
    by (intro exI[of _ True]) (simp add: beats_tip_def tip_ok_def store_block_def)
next
  case (tip h m)
  have fresh: "hm_get (bt_nodes t) (hash head) = None" using link by (simp add: linkable_def)
  with tip have ne: "h \<noteq> hash head" by auto
  have bt: "beats_tip (store_block head t) n = Some (key_less m n)"
    using tip(1,2) ne by (simp add: beats_tip_def stored_get)
  have seq: "nd_seq m < next_seq t" using tip(2) tree_invD(2)[OF inv] by (simp add: keyed_def)
  show ?thesis
  proof (cases "key_less m n")
    case True
    have "key_less m' n" if "hm_get (bt_nodes t) h' = Some m'" for h' m'
      using tip(2) tip(3)[OF that] True key_less_trans that by (cases "h' = h") auto
    with True bt show ?thesis
      by (intro exI[of _ True]) (auto simp: tip_ok_def stored_get n_def)
  next
    case False
    then have "key_less n m" using seq by (auto simp: key_less_def n_def)
    with False bt tip ne show ?thesis
      by (intro exI[of _ False]) (auto simp: tip_ok_def stored_get n_def)
  qed
qed


text \<open>
  The whole effect of storing a linkable head: either a side branch (\<open>Fork\<close>), or the tip moves to
  the head, the old chain and the new one share a suffix, and the tree is cut at the depth bound.
\<close>

lemma old_chain_stored:
  assumes inv: "tree_inv t" and cons: "consistent_heads (head # tree_heads t)" and link: "linkable head t"
  shows "\<exists>old. canonical_iter t = Some old \<and>
    (case canonical_tip t of None \<Rightarrow> old = [] | Some h \<Rightarrow> is_path (bt_nodes t) h old \<and>
      is_path (bt_nodes (store_block head t)) h old)"
  using inv
proof (cases rule: tip_cases)
  case empty
  then show ?thesis by (simp add: canonical_iter_def)
next
  case (tip h n)
  obtain old where old: "is_path (bt_nodes t) h old"
    using path_exists[OF tree_invD(3)[OF inv] tip(2)] by blast
  have fresh: "hm_get (bt_nodes t) (hash head) = None"
    and par: "bt_nodes t = [] \<or> hm_contains (bt_nodes t) (parent_hash head)"
    using link by (simp_all add: linkable_def)
  have "is_path (bt_nodes (store_block head t)) h old"
    using is_path_insert[OF old fresh no_child_of_new[OF inv cons fresh par]]
    by (simp add: store_block_def)
  with old tip show ?thesis by (simp add: canonical_iter_def is_path_walk)
qed

lemma add_block_stored:
  assumes inv: "tree_inv t" and cons: "consistent_heads (head # tree_heads t)" and link: "linkable head t"
  shows "(add_block head t = Some (Inr Fork, store_block head t) \<and> tree_inv (store_block head t)) \<or>
    (\<exists>u old suffix t'. add_block head t = Some (Inr (Canonical u), t') \<and> tree_inv t' \<and>
       t' = prune_below (number head - finalization_depth t)
              ((store_block head t)\<lparr>canonical_tip := Some (hash head)\<rparr>) \<and>
       canonical_iter t = Some old \<and> old = reverted u @ suffix \<and>
       is_path (bt_nodes (store_block head t)) (hash head) (rev (canonicalized u) @ suffix) \<and>
       (\<forall>x\<in>set (canonicalized u). hash x \<notin> hash ` set old))"
proof -
  let ?n = "\<lparr>nd_head = head, nd_seq = next_seq t\<rparr>" and ?t1 = "store_block head t"
  note st = stored_inv[OF inv cons link]
  obtain b where b: "beats_tip ?t1 ?n = Some b"
    and tip: "tip_ok (bt_nodes ?t1) (if b then Some (hash head) else canonical_tip t)"
    using stored_tip_ok[OF inv link] by blast
  show ?thesis
  proof (cases b)
    case False
    with b tip st add_block_linkable[OF link] show ?thesis by (simp add: tree_inv_def)
  next
    case True
    let ?t2 = "?t1\<lparr>canonical_tip := Some (hash head)\<rparr>"
    have inv2: "tree_inv ?t2" using st tip True by (simp add: tree_inv_def)
    have g: "hm_get (bt_nodes ?t1) (hash head) = Some ?n" by (simp add: stored_get)
    obtain new where new: "is_path (bt_nodes ?t1) (hash head) new"
      using path_exists[OF st(3) g] by blast
    obtain old where old: "canonical_iter t = Some old"
      "case canonical_tip ?t1 of None \<Rightarrow> old = [] | Some h \<Rightarrow> is_path (bt_nodes ?t1) h old"
      using old_chain_stored[OF inv cons link] by (auto split: option.splits)
    obtain u suffix where u: "reorg_to ?t1 (hash head) = Some u" "old = reverted u @ suffix"
      "new = rev (canonicalized u) @ suffix" "\<forall>x\<in>set (canonicalized u). hash x \<notin> hash ` set old"
      using reorg_to_split[OF st(2,3) new old(2)] by blast
    have p: "prune_to_depth ?t2 = Some (prune_below (number head - finalization_depth t) ?t2)"
      using g by (simp add: prune_to_depth_def canonical_tip_head_def)
    have inv3: "tree_inv (prune_below (number head - finalization_depth t) ?t2)"
      by (rule prune_below_inv[OF inv2]) (use g in auto)
    from True b u(1) p add_block_linkable[OF link]
    have "add_block head t =
      Some (Inr (Canonical u), prune_below (number head - finalization_depth t) ?t2)" by simp
    with inv3 old(1) u new show ?thesis by blast
  qed
qed

lemma add_block_preserves:
  assumes "tree_inv t" "consistent_heads (head # tree_heads t)"
  shows "\<exists>r t'. add_block head t = Some (r, t') \<and> tree_inv t'"
proof (cases "linkable head t")
  case True
  from add_block_stored[OF assms True] show ?thesis by blast
next
  case False
  from add_block_refused[OF this] assms(1) show ?thesis by blast
qed

lemma add_block_heads:
  assumes "tree_inv t" "consistent_heads (head # tree_heads t)" "add_block head t = Some (r, t')"
  shows "set (tree_heads t') \<subseteq> insert head (set (tree_heads t))"
proof -
  have st: "set (tree_heads (store_block head t)) \<subseteq> insert head (set (tree_heads t))"
    using set_hm_insert_subset[of "hash head" "\<lparr>nd_head = head, nd_seq = next_seq t\<rparr>" "bt_nodes t"]
    by (auto simp: tree_heads_def store_block_def)
  have "set (tree_heads (prune_below f s)) \<subseteq> set (tree_heads s)" for f s
    by (auto simp: tree_heads_def hm_retain_def)
  then have pr: "set (tree_heads (prune_below f (s\<lparr>canonical_tip := c\<rparr>))) \<subseteq> set (tree_heads s)" for f s c
    by (metis (no_types, lifting) block_tree.select_convs(2) block_tree.surjective
        block_tree.update_convs(3) tree_heads_def)
  show ?thesis
  proof (cases "linkable head t")
    case True
    from add_block_stored[OF assms(1,2) True] assms(3) show ?thesis
      using st pr by fastforce
  next
    case False
    from add_block_refused[OF this] assms(3) show ?thesis by auto
  qed
qed

section \<open>Finality\<close>

lemma canonical_iter_path:
  assumes "tree_inv t"
  shows "\<exists>chain. canonical_iter t = Some chain \<and>
    (case canonical_tip t of None \<Rightarrow> chain = [] | Some h \<Rightarrow> is_path (bt_nodes t) h chain)"
  using assms
proof (cases rule: tip_cases)
  case empty
  then show ?thesis by (simp add: canonical_iter_def)
next
  case (tip h n)
  obtain chain where "is_path (bt_nodes t) h chain"
    using path_exists[OF tree_invD(3)[OF assms] tip(2)] by blast
  with tip show ?thesis by (simp add: canonical_iter_def is_path_walk)
qed

lemma canonical_descending:
  assumes "tree_inv t" "canonical_iter t = Some chain"
  shows "sorted_wrt (\<lambda>a b. number b < number a) chain"
  using canonical_iter_path[OF assms(1)] assms(2) is_path_descending tree_invD(2,3)[OF assms(1)]
  by (fastforce split: option.splits)

definition finality_floor :: "block_ref \<Rightarrow> block_tree \<Rightarrow> nat" where
  "finality_floor fin t = (case canonical_tip t of
      None \<Rightarrow> br_number fin
    | Some h \<Rightarrow> (case hm_get (bt_nodes t) h of
        None \<Rightarrow> br_number fin | Some n \<Rightarrow> min (br_number fin) (number (nd_head n))))"

lemma finalize_total:
  assumes inv: "tree_inv t" and chain: "canonical_iter t = Some chain"
  shows "finalize fin t = Some
    (rev (filter (\<lambda>h. number h \<le> finality_floor fin t \<and>
            (case finalized t of None \<Rightarrow> True | Some f \<Rightarrow> br_number f < number h)) chain),
     prune_below (finality_floor fin t) (t\<lparr>finalized := Some fin\<rparr>))"
  using inv
proof (cases rule: tip_cases)
  case empty
  with chain show ?thesis
    by (simp add: finalize_def Let_def canonical_tip_head_def finality_floor_def canonical_iter_def)
next
  case (tip h n)
  with chain show ?thesis
    by (cases "finalized t")
       (simp_all add: finalize_def Let_def canonical_tip_head_def finality_floor_def)
qed

lemma finalize_preserves:
  assumes inv: "tree_inv t"
  shows "\<exists>bs t'. finalize fin t = Some (bs, t') \<and> tree_inv t' \<and>
    t' = prune_below (finality_floor fin t) (t\<lparr>finalized := Some fin\<rparr>)"
proof -
  obtain chain where c: "canonical_iter t = Some chain" using canonical_iter_path[OF inv] by blast
  have "tree_inv (t\<lparr>finalized := Some fin\<rparr>)" using inv by (simp add: tree_inv_def)
  then have "tree_inv (prune_below (finality_floor fin t) (t\<lparr>finalized := Some fin\<rparr>))"
    by (rule prune_below_inv) (simp add: finality_floor_def)
  with finalize_total[OF inv c] show ?thesis by blast
qed

section \<open>Reachable trees\<close>

text \<open>
  Every tree the driver can build: from the empty tree, by adding heads of a consistent chain feed
  and by advancing finality, in any order and with any repetition.
\<close>

inductive tree_reach :: "chain_head list \<Rightarrow> nat \<Rightarrow> block_tree \<Rightarrow> bool" for feed depth where
  reach_new: "tree_reach feed depth (new_tree depth)"
| reach_add: "tree_reach feed depth t \<Longrightarrow> head \<in> set feed \<Longrightarrow> add_block head t = Some (r, t') \<Longrightarrow>
    tree_reach feed depth t'"
| reach_fin: "tree_reach feed depth t \<Longrightarrow> finalize fin t = Some (bs, t') \<Longrightarrow> tree_reach feed depth t'"

definition depth_ok :: "block_tree \<Rightarrow> bool" where
  "depth_ok t \<longleftrightarrow> (\<forall>h n k m. canonical_tip t = Some h \<longrightarrow> hm_get (bt_nodes t) h = Some n \<longrightarrow>
     hm_get (bt_nodes t) k = Some m \<longrightarrow> number (nd_head n) \<le> number (nd_head m) + finalization_depth t)"

lemma consistent_heads_mono:
  "consistent_heads hs \<Longrightarrow> set hs' \<subseteq> set hs \<Longrightarrow> consistent_heads hs'"
  by (auto simp: consistent_heads_def)

lemma new_tree_inv: "tree_inv (new_tree d)" "depth_ok (new_tree d)" "tree_heads (new_tree d) = []"
  by (simp_all add: tree_inv_def new_tree_def keyed_def linked_def rooted_def tip_ok_def depth_ok_def
      tree_heads_def)

lemma add_block_depth_ok:
  assumes inv: "tree_inv t" and cons: "consistent_heads (head # tree_heads t)" and d: "depth_ok t"
    and add: "add_block head t = Some (r, t')"
  shows "depth_ok t'"
proof (cases "linkable head t")
  case True
  note st = stored_inv[OF inv cons True]
  consider (fork) "t' = store_block head t"
    | (canon) "t' = prune_below (number head - finalization_depth t)
              ((store_block head t)\<lparr>canonical_tip := Some (hash head)\<rparr>)"
    using add_block_stored[OF inv cons True] add by auto
  then show ?thesis
  proof cases
    case fork
    have "number (nd_head n) \<le> number head + finalization_depth t"
      if "canonical_tip t = Some h" "hm_get (bt_nodes t) h = Some n" for h n
    proof -
      from that(2) True obtain p where p: "hm_get (bt_nodes t) (parent_hash head) = Some p"
        by (auto simp: linkable_def)
      from consistent_tree_link[OF inv cons p] d that p show ?thesis
        unfolding depth_ok_def by (metis add_Suc le_SucI)
    qed
    moreover have "canonical_tip t = Some (hash head) \<Longrightarrow> False"
      using True tree_invD(5)[OF inv] by (auto simp: linkable_def tip_ok_def)
    ultimately show ?thesis
      using d unfolding fork depth_ok_def by (auto simp: stored_get split: if_splits)
  next
    case canon
    show ?thesis
      unfolding canon depth_ok_def
      using st(1) by (auto simp: hm_get_retain_Some stored_get)
  qed
next
  case False
  from add_block_refused[OF this] add d show ?thesis by auto
qed

lemma tree_reach_inv:
  assumes "tree_reach feed depth t" "consistent_heads feed"
  shows "tree_inv t \<and> depth_ok t \<and> finalization_depth t = depth \<and> set (tree_heads t) \<subseteq> set feed"
  using assms(1)
proof (induction rule: tree_reach.induct)
  case reach_new
  then show ?case using new_tree_inv by (simp add: new_tree_def)
next
  case (reach_add t head r t')
  then have cons: "consistent_heads (head # tree_heads t)"
    using consistent_heads_mono[OF assms(2)] by simp
  have "finalization_depth t' = finalization_depth t"
    using add_block_stored[of t head] add_block_refused[of head t] reach_add cons by fastforce
  with reach_add add_block_preserves[OF _ cons] add_block_depth_ok[OF _ cons] add_block_heads[OF _ cons]
  show ?case by fastforce
next
  case (reach_fin t fin bs t')
  from finalize_preserves[of t fin] reach_fin
  have t': "t' = prune_below (finality_floor fin t) (t\<lparr>finalized := Some fin\<rparr>)" and inv: "tree_inv t'"
    by auto
  have "depth_ok t'"
    using reach_fin.IH tree_invD(1)[of t] unfolding depth_ok_def t'
    by (auto simp: hm_get_retain_Some)
  with t' inv reach_fin show ?case by (auto simp: tree_heads_def hm_retain_def)
qed

section \<open>Properties\<close>

definition mk_head :: "nat \<Rightarrow> b256 \<Rightarrow> b256 \<Rightarrow> chain_head" where
  "mk_head n h p = \<lparr>number = n, hash = h, parent_hash = p, timestamp = 0, tx_count = 0\<rparr>"

lemmas tree_eval = add_block_def beats_tip_def reorg_to_def canonical_iter_def prune_to_depth_def
  prune_below_def canonical_tip_head_def store_block_def new_tree_def key_less_def mk_head_def
  hm_retain_def walk.simps branch_walk.simps finalize_def Let_def head_block_ref_def

text \<open>
  C1: On any tree the ingestion driver can reach from an empty tree by adding heads of a consistent
  feed and advancing finality, in any order, the tree invariant holds (nodes keyed by hash, heights
  linked, the tip the greatest \<open>(number, seq)\<close>), and neither \<open>add_block\<close> nor \<open>finalize\<close> panics or
  loops on it.
\<close>

theorem tree_reach_safe:
  assumes "consistent_heads feed" "tree_reach feed depth t"
  shows "tree_inv t \<and> (\<forall>head\<in>set feed. \<exists>r t'. add_block head t = Some (r, t')) \<and>
    (\<forall>fin. \<exists>bs t'. finalize fin t = Some (bs, t'))"
proof -
  have t: "tree_inv t" "set (tree_heads t) \<subseteq> set feed"
    using tree_reach_inv[OF assms(2,1)] by auto
  have "\<exists>r t'. add_block head t = Some (r, t')" if "head \<in> set feed" for head
  proof -
    have "consistent_heads (head # tree_heads t)"
      using consistent_heads_mono[OF assms(1)] that t(2) by simp
    with add_block_preserves[OF t(1)] show ?thesis by blast
  qed
  with t(1) finalize_preserves[OF t(1)] show ?thesis by blast
qed

lemma reach_two_heads:
  "add_block (mk_head 7 1 0) (new_tree 4) = Some (Inr (Canonical \<lparr>reverted = [], canonicalized = [mk_head 7 1 0]\<rparr>),
     \<lparr>finalization_depth = 4, bt_nodes = [(1, \<lparr>nd_head = mk_head 7 1 0, nd_seq = 0\<rparr>)],
      canonical_tip = Some 1, finalized = None, next_seq = 1\<rparr>)"
  by (simp add: tree_eval)

theorem tree_reach_safe_witness:
  "\<exists>t. tree_reach [mk_head 7 1 0, mk_head 8 2 1] 4 t \<and> canonical_tip t = Some 1 \<and> tree_inv t \<and>
     (\<exists>r t'. add_block (mk_head 8 2 1) t = Some (r, t'))"
proof -
  let ?feed = "[mk_head 7 1 0, mk_head 8 2 1]"
  let ?t = "\<lparr>finalization_depth = 4, bt_nodes = [(1, \<lparr>nd_head = mk_head 7 1 0, nd_seq = 0\<rparr>)],
      canonical_tip = Some 1, finalized = None, next_seq = 1\<rparr>"
  have c: "consistent_heads ?feed" by (simp add: consistent_heads_def mk_head_def)
  have "tree_reach ?feed 4 ?t"
    by (rule tree_reach.reach_add[OF tree_reach.reach_new _ reach_two_heads]) simp
  with tree_reach_safe[OF c this] show ?thesis by (intro exI[of _ ?t]) simp
qed

lemma canonical_update_spec:
  assumes "tree_inv t" "consistent_heads (head # tree_heads t)"
    and "add_block head t = Some (Inr (Canonical u), t')"
  shows "\<exists>shared. canonical_iter t = Some (reverted u @ shared) \<and>
    canonical_iter t' = Some (filter (\<lambda>b. number head - finalization_depth t \<le> number b)
      (rev (canonicalized u) @ shared)) \<and>
    canonical_tip t' = Some (hash head) \<and>
    hash ` set (canonicalized u) \<inter> hash ` set (reverted u @ shared) = {}"
proof -
  have link: "linkable head t" using add_block_refused assms(3) by fastforce
  let ?f = "number head - finalization_depth t"
  obtain suffix where s: "canonical_iter t = Some (reverted u @ suffix)"
    and p: "is_path (bt_nodes (store_block head t)) (hash head) (rev (canonicalized u) @ suffix)"
    and d: "\<forall>x\<in>set (canonicalized u). hash x \<notin> hash ` set (reverted u @ suffix)"
    and t': "t' = prune_below ?f ((store_block head t)\<lparr>canonical_tip := Some (hash head)\<rparr>)"
    using add_block_stored[OF assms(1,2) link] assms(3) by auto
  note st = stored_inv[OF assms(1,2) link]
  have "hd (rev (canonicalized u) @ suffix) = head"
    using p by (cases "rev (canonicalized u) @ suffix") (auto simp: stored_get)
  then have "is_path (hm_retain (\<lambda>n. ?f \<le> number (nd_head n)) (bt_nodes (store_block head t)))
      (hash head) (filter (\<lambda>b. ?f \<le> number b) (rev (canonicalized u) @ suffix))"
    by (intro is_path_retain[OF st(1,2,3) p]) simp
  then have "canonical_iter t' = Some (filter (\<lambda>b. ?f \<le> number b) (rev (canonicalized u) @ suffix))"
    unfolding t' canonical_iter_def by (simp add: is_path_walk del: filter_append)
  with s d t' show ?thesis by (intro exI[of _ suffix]) auto
qed

text \<open>
  C15: When \<open>add_block\<close> moves the tip, the update it returns is exactly the difference between the old
  and the new canonical chain: both end in one shared suffix, the old chain is \<open>reverted\<close> (tip
  first) on top of it, the new chain is \<open>canonicalized\<close> (ancestor first) on top of it and then cut
  at the depth bound, and no canonicalized block was on the old chain.
\<close>

theorem add_block_reorg:
  assumes "tree_inv t" "consistent_heads (head # tree_heads t)"
    and "add_block head t = Some (Inr (Canonical u), t')"
  shows "\<exists>shared. canonical_iter t = Some (reverted u @ shared) \<and>
    canonical_iter t' = Some (filter (\<lambda>b. number head - finalization_depth t \<le> number b)
      (rev (canonicalized u) @ shared)) \<and>
    canonical_tip t' = Some (hash head) \<and>
    hash ` set (canonicalized u) \<inter> hash ` set (reverted u @ shared) = {}"
  using assms by (rule canonical_update_spec)

text \<open>
  A head whose parent is the current tip is a plain extension: nothing is reverted and the head
  alone is canonicalized.
\<close>

theorem add_block_extension:
  assumes "tree_inv t" "consistent_heads (head # tree_heads t)" "linkable head t"
    and "canonical_tip t = Some (parent_hash head)"
  shows "\<exists>t'. add_block head t = Some (Inr (Canonical \<lparr>reverted = [], canonicalized = [head]\<rparr>), t')"
proof -
  obtain p where p: "hm_get (bt_nodes t) (parent_hash head) = Some p"
    using tree_invD(5)[OF assms(1)] assms(4) by (auto simp: tip_ok_def)
  have ne: "parent_hash head \<noteq> hash head" by (rule no_self_parent[OF assms(2)])
  have "beats_tip (store_block head t) \<lparr>nd_head = head, nd_seq = next_seq t\<rparr> = Some True"
    using consistent_tree_link[OF assms(1,2) p] p assms(4) ne
    by (simp add: beats_tip_def stored_get key_less_def)
  then have "add_block head t \<noteq> Some (Inr Fork, store_block head t)"
    by (auto simp: add_block_linkable[OF assms(3)] bind_eq_Some_conv)
  then obtain u suffix t' where u: "add_block head t = Some (Inr (Canonical u), t')"
    "canonical_iter t = Some (reverted u @ suffix)"
    "is_path (bt_nodes (store_block head t)) (hash head) (rev (canonicalized u) @ suffix)"
    "\<forall>x\<in>set (canonicalized u). hash x \<notin> hash ` set (reverted u @ suffix)"
    using add_block_stored[OF assms(1,2,3)] by auto
  obtain old where old: "canonical_iter t = Some old"
    "is_path (bt_nodes (store_block head t)) (parent_hash head) old"
    using old_chain_stored[OF assms(1,2,3)] assms(4) by auto
  have "is_path (bt_nodes (store_block head t)) (hash head) (head # old)"
    using old(2) p ne by (simp add: stored_get)
  then have eq: "head # reverted u @ suffix = rev (canonicalized u) @ suffix"
    using u(2,3) old(1) is_path_unique by fastforce
  then obtain c where c: "rev (canonicalized u) = head # c" "reverted u = c"
    by (cases "rev (canonicalized u)") (auto dest: arg_cong[of _ _ length])
  have "c = []"
  proof (rule ccontr)
    assume "c \<noteq> []"
    then obtain x where "x \<in> set c" by (cases c) auto
    then have "x \<in> set (canonicalized u)" "x \<in> set (reverted u)"
      using c by (metis list.set_intros(2) set_rev)+
    with u(4) show False by auto
  qed
  with c have "u = \<lparr>reverted = [], canonicalized = [head]\<rparr>" by (cases u) simp
  with u(1) show ?thesis by blast
qed

text \<open>A small feed with a side branch, used by the witnesses below.\<close>

abbreviation ex_G :: chain_head where "ex_G \<equiv> mk_head 0 10 9"
abbreviation ex_A1 :: chain_head where "ex_A1 \<equiv> mk_head 1 11 10"
abbreviation ex_A2 :: chain_head where "ex_A2 \<equiv> mk_head 2 12 11"
abbreviation ex_B1 :: chain_head where "ex_B1 \<equiv> mk_head 1 21 10"
abbreviation ex_B2 :: chain_head where "ex_B2 \<equiv> mk_head 2 22 21"

definition ex_feed :: "chain_head list" where
  "ex_feed = [ex_G, ex_A1, ex_A2, ex_B1, ex_B2]"

definition ex_tree :: "chain_head list \<Rightarrow> b256 option \<Rightarrow> block_tree" where
  "ex_tree hs tip = \<lparr>finalization_depth = 64,
     bt_nodes = map (\<lambda>(i, h). (hash h, \<lparr>nd_head = h, nd_seq = i\<rparr>)) (List.enumerate 0 hs),
     canonical_tip = tip, finalized = None, next_seq = length hs\<rparr>"

lemma ex_feed_consistent: "consistent_heads ex_feed"
  by (simp add: ex_feed_def consistent_heads_def mk_head_def)

lemma ex_steps:
  "add_block ex_G (new_tree 64) =
     Some (Inr (Canonical \<lparr>reverted = [], canonicalized = [ex_G]\<rparr>), ex_tree [ex_G] (Some 10))"
  "add_block ex_A1 (ex_tree [ex_G] (Some 10)) =
     Some (Inr (Canonical \<lparr>reverted = [], canonicalized = [ex_A1]\<rparr>), ex_tree [ex_G, ex_A1] (Some 11))"
  "add_block ex_A2 (ex_tree [ex_G, ex_A1] (Some 11)) =
     Some (Inr (Canonical \<lparr>reverted = [], canonicalized = [ex_A2]\<rparr>), ex_tree [ex_G, ex_A1, ex_A2] (Some 12))"
  "add_block ex_B1 (ex_tree [ex_G, ex_A1, ex_A2] (Some 12)) = Some (Inr Fork, ex_tree [ex_G, ex_A1, ex_A2, ex_B1] (Some 12))"
  by (simp_all add: tree_eval ex_tree_def)

lemma ex_reach:
  "tree_reach ex_feed 64 (ex_tree [ex_G] (Some 10))"
  "tree_reach ex_feed 64 (ex_tree [ex_G, ex_A1] (Some 11))"
  "tree_reach ex_feed 64 (ex_tree [ex_G, ex_A1, ex_A2] (Some 12))"
  "tree_reach ex_feed 64 (ex_tree [ex_G, ex_A1, ex_A2, ex_B1] (Some 12))"
proof -
  show 1: "tree_reach ex_feed 64 (ex_tree [ex_G] (Some 10))"
    by (rule tree_reach.reach_add[OF tree_reach.reach_new _ ex_steps(1)]) (simp add: ex_feed_def)
  show 2: "tree_reach ex_feed 64 (ex_tree [ex_G, ex_A1] (Some 11))"
    by (rule tree_reach.reach_add[OF 1 _ ex_steps(2)]) (simp add: ex_feed_def)
  show 3: "tree_reach ex_feed 64 (ex_tree [ex_G, ex_A1, ex_A2] (Some 12))"
    by (rule tree_reach.reach_add[OF 2 _ ex_steps(3)]) (simp add: ex_feed_def)
  show "tree_reach ex_feed 64 (ex_tree [ex_G, ex_A1, ex_A2, ex_B1] (Some 12))"
    by (rule tree_reach.reach_add[OF 3 _ ex_steps(4)]) (simp add: ex_feed_def)
qed

lemma ex_reach_facts:
  assumes "tree_reach ex_feed 64 t"
  shows "tree_inv t" "h \<in> set ex_feed \<Longrightarrow> consistent_heads (h # tree_heads t)"
proof -
  note r = tree_reach_inv[OF assms ex_feed_consistent]
  then show "tree_inv t" by blast
  from r show "h \<in> set ex_feed \<Longrightarrow> consistent_heads (h # tree_heads t)"
    using consistent_heads_mono[OF ex_feed_consistent] by simp
qed

abbreviation ex_forked :: block_tree where
  "ex_forked \<equiv> ex_tree [ex_G, ex_A1, ex_A2, ex_B1] (Some 12)"

lemma ex_reorg:
  "\<exists>t'. add_block ex_B2 ex_forked = Some (Inr (Canonical
     \<lparr>reverted = [ex_A2, ex_A1], canonicalized = [ex_B1, ex_B2]\<rparr>), t')"
  by (simp add: tree_eval ex_tree_def)

lemmas ex_forked_facts = ex_reach_facts[OF ex_reach(4)]

theorem add_block_reorg_witness:
  "\<exists>t' shared. add_block ex_B2 ex_forked = Some (Inr (Canonical
     \<lparr>reverted = [ex_A2, ex_A1], canonicalized = [ex_B1, ex_B2]\<rparr>), t') \<and>
   canonical_iter ex_forked = Some ([ex_A2, ex_A1] @ shared) \<and>
   canonical_iter t' = Some (filter (\<lambda>b. number ex_B2 - 64 \<le> number b) ([ex_B2, ex_B1] @ shared))"
proof -
  have c: "consistent_heads (ex_B2 # tree_heads ex_forked)"
    by (rule ex_forked_facts(2)) (simp add: ex_feed_def)
  obtain t' where a: "add_block ex_B2 ex_forked = Some (Inr (Canonical
     \<lparr>reverted = [ex_A2, ex_A1], canonicalized = [ex_B1, ex_B2]\<rparr>), t')" using ex_reorg by blast
  have "finalization_depth ex_forked = 64" by (simp add: ex_tree_def)
  with add_block_reorg[OF ex_forked_facts(1) c a] a show ?thesis by fastforce
qed

theorem add_block_extension_witness:
  "canonical_tip (ex_tree [ex_G, ex_A1] (Some 11)) = Some (parent_hash ex_A2) \<and>
   (\<exists>t'. add_block ex_A2 (ex_tree [ex_G, ex_A1] (Some 11)) =
      Some (Inr (Canonical \<lparr>reverted = [], canonicalized = [ex_A2]\<rparr>), t'))"
proof -
  let ?t = "ex_tree [ex_G, ex_A1] (Some 11)"
  note f = ex_reach_facts[OF ex_reach(2)]
  have c: "consistent_heads (ex_A2 # tree_heads ?t)" by (rule f(2)) (simp add: ex_feed_def)
  have l: "linkable ex_A2 ?t" and p: "canonical_tip ?t = Some (parent_hash ex_A2)"
    by (simp_all add: linkable_def ex_tree_def mk_head_def)
  from add_block_extension[OF f(1) c l p] p show ?thesis by blast
qed

lemma fork_spec:
  assumes "tree_inv t" "consistent_heads (head # tree_heads t)"
    and "add_block head t = Some (Inr Fork, t')"
  shows "canonical_iter t' = canonical_iter t \<and> tree_contains t' (hash head) \<and>
    (\<exists>h n. canonical_tip t = Some h \<and> hm_get (bt_nodes t) h = Some n \<and> number head \<le> number (nd_head n))"
proof -
  have link: "linkable head t" using add_block_refused assms(3) by fastforce
  then have t': "t' = store_block head t" and inv': "tree_inv t'"
    using add_block_stored[OF assms(1,2)] assms(3) by auto
  have c: "canonical_iter t' = canonical_iter t"
    using old_chain_stored[OF assms(1,2) link] unfolding t'
    by (auto simp: canonical_iter_def is_path_walk split: option.splits)
  have g: "hm_get (bt_nodes t') (hash head) = Some \<lparr>nd_head = head, nd_seq = next_seq t\<rparr>"
    by (simp add: t' stored_get)
  have "\<exists>h n. canonical_tip t = Some h \<and> hm_get (bt_nodes t) h = Some n \<and> number head \<le> number (nd_head n)"
    using assms(1)
  proof (cases rule: tip_cases)
    case empty
    then show ?thesis using assms(3) by (simp add: add_block_linkable[OF link] beats_tip_def bind_eq_Some_conv)
  next
    case (tip h n)
    with link have ne: "h \<noteq> hash head" by (auto simp: linkable_def)
    have "\<forall>h' m. hm_get (bt_nodes t') h' = Some m \<longrightarrow> h' \<noteq> h \<longrightarrow> key_less m n"
      using tree_invD(5)[OF inv'] tip(1,2) ne by (simp add: tip_ok_def t' stored_get)
    with g ne have "key_less \<lparr>nd_head = head, nd_seq = next_seq t\<rparr> n" by blast
    with tip show ?thesis by (auto simp: key_less_def)
  qed
  with c g show ?thesis by (simp add: tree_contains_def)
qed

text \<open>
  A head that does not win the fork choice leaves the canonical chain as it was; it is held, and
  it is at most as high as the tip.
\<close>

theorem add_block_fork:
  assumes "tree_inv t" "consistent_heads (head # tree_heads t)"
    and "add_block head t = Some (Inr Fork, t')"
  shows "canonical_iter t' = canonical_iter t \<and> tree_contains t' (hash head) \<and>
    (\<exists>h n. canonical_tip t = Some h \<and> hm_get (bt_nodes t) h = Some n \<and> number head \<le> number (nd_head n))"
  using assms by (rule fork_spec)

theorem add_block_fork_witness:
  "\<exists>t'. add_block ex_B1 (ex_tree [ex_G, ex_A1, ex_A2] (Some 12)) = Some (Inr Fork, t') \<and>
     canonical_iter t' = canonical_iter (ex_tree [ex_G, ex_A1, ex_A2] (Some 12))"
proof -
  note f = ex_reach_facts[OF ex_reach(3)]
  have c: "consistent_heads (ex_B1 # tree_heads (ex_tree [ex_G, ex_A1, ex_A2] (Some 12)))"
    by (rule f(2)) (simp add: ex_feed_def)
  from add_block_fork[OF f(1) c ex_steps(4)] ex_steps(4) show ?thesis by blast
qed

lemma finalize_spec:
  assumes "tree_inv t" "canonical_iter t = Some chain" "finalize fin t = Some (bs, t')"
  shows "set bs = {b \<in> set chain. number b \<le> finality_floor fin t \<and>
      (case finalized t of None \<Rightarrow> True | Some f \<Rightarrow> br_number f < number b)} \<and>
    sorted_wrt (\<lambda>a b. number a < number b) bs \<and>
    canonical_tip t' = canonical_tip t \<and>
    (\<forall>b\<in>set (tree_heads t'). finality_floor fin t \<le> number b) \<and>
    canonical_iter t' = Some (filter (\<lambda>b. finality_floor fin t \<le> number b) chain)"
proof -
  let ?f = "finality_floor fin t"
  note tot = finalize_total[OF assms(1,2), of fin] and parts = tree_invD[OF assms(1)]
  have t': "t' = prune_below ?f (t\<lparr>finalized := Some fin\<rparr>)" using tot assms(3) by simp
  have "sorted_wrt (\<lambda>a b. number b < number a) (filter P chain)" for P
    using canonical_descending[OF assms(1,2)] by (rule sorted_wrt_filter)
  then have "sorted_wrt (\<lambda>a b. number a < number b) bs"
    using tot assms(3) by (auto simp: sorted_wrt_rev)
  moreover have "canonical_iter t' = Some (filter (\<lambda>b. ?f \<le> number b) chain)"
    using assms(1)
  proof (cases rule: tip_cases)
    case empty
    with assms(2) t' show ?thesis by (simp add: canonical_iter_def)
  next
    case (tip h n)
    have p: "is_path (bt_nodes t) h chain"
      using canonical_iter_path[OF assms(1)] assms(2) tip(1) by auto
    then have "hd chain = nd_head n" using tip(2) by (cases chain) auto
    then have "?f \<le> number (hd chain)" using tip by (simp add: finality_floor_def)
    from is_path_retain[OF parts(1-3) p this] tip(1) t' show ?thesis
      by (simp add: canonical_iter_def is_path_walk)
  qed
  ultimately show ?thesis
    using tot assms(3) t' by (auto simp: tree_heads_def hm_retain_def)
qed

text \<open>
  \<open>finalize\<close> reports exactly the blocks of the canonical chain above the previous floor and at or
  below the new one (clamped to the tip), in ascending order; it keeps the tip, drops every block
  below the new floor and leaves the canonical chain cut at that floor.
\<close>

theorem finalize_reports:
  assumes "tree_inv t" "canonical_iter t = Some chain" "finalize fin t = Some (bs, t')"
  shows "set bs = {b \<in> set chain. number b \<le> finality_floor fin t \<and>
      (case finalized t of None \<Rightarrow> True | Some f \<Rightarrow> br_number f < number b)} \<and>
    sorted_wrt (\<lambda>a b. number a < number b) bs \<and>
    canonical_tip t' = canonical_tip t \<and>
    (\<forall>b\<in>set (tree_heads t'). finality_floor fin t \<le> number b) \<and>
    canonical_iter t' = Some (filter (\<lambda>b. finality_floor fin t \<le> number b) chain)"
  using assms by (rule finalize_spec)

theorem finalize_reports_witness:
  "\<exists>bs t'. finalize (head_block_ref ex_A1) ex_forked = Some (bs, t') \<and>
     set bs = {ex_G, ex_A1} \<and> sorted_wrt (\<lambda>a b. number a < number b) bs"
proof -
  have c: "canonical_iter ex_forked = Some [ex_A2, ex_A1, ex_G]"
    by (simp add: tree_eval ex_tree_def)
  have f: "finality_floor (head_block_ref ex_A1) ex_forked = 1"
    by (simp add: finality_floor_def ex_tree_def mk_head_def)
  obtain bs t' where a: "finalize (head_block_ref ex_A1) ex_forked = Some (bs, t')"
    using finalize_preserves[OF ex_forked_facts(1)] by blast
  note w = finalize_reports[OF ex_forked_facts(1) c a, unfolded f]
  have "{b \<in> set [ex_A2, ex_A1, ex_G]. number b \<le> 1 \<and>
      (case finalized ex_forked of None \<Rightarrow> True | Some f \<Rightarrow> br_number f < number b)} = {ex_G, ex_A1}"
    by (auto simp: mk_head_def ex_tree_def)
  with w have "set bs = {ex_G, ex_A1}" by (elim conjE) (rule trans)
  moreover from w have "sorted_wrt (\<lambda>a b. number a < number b) bs" by blast
  ultimately show ?thesis using a by blast
qed


text \<open>
  Two successive \<open>finalize\<close> calls never report the same block, whatever the heights they name.
\<close>

theorem finalize_never_repeats:
  assumes "tree_inv t" "finalize f1 t = Some (bs1, t1)" "finalize f2 t1 = Some (bs2, t2)"
  shows "set bs1 \<inter> set bs2 = {}"
proof -
  obtain c1 where c1: "canonical_iter t = Some c1" using canonical_iter_path[OF assms(1)] by blast
  have t1: "tree_inv t1" "finalized t1 = Some f1"
    using finalize_preserves[OF assms(1), of f1] assms(2) by auto
  obtain c2 where c2: "canonical_iter t1 = Some c2" using canonical_iter_path[OF t1(1)] by blast
  have floor: "finality_floor f1 t \<le> br_number f1" by (simp add: finality_floor_def split: option.splits)
  have "number b \<le> br_number f1" if "b \<in> set bs1" for b
    using finalize_reports[OF assms(1) c1 assms(2)] floor that by auto
  moreover have "br_number f1 < number b" if "b \<in> set bs2" for b
    using finalize_reports[OF t1(1) c2 assms(3)] t1(2) that by auto
  ultimately show ?thesis by force
qed

theorem finalize_never_repeats_witness:
  "\<exists>bs1 t1 bs2 t2. finalize (head_block_ref ex_A1) ex_forked = Some (bs1, t1) \<and>
     finalize (head_block_ref ex_A2) t1 = Some (bs2, t2) \<and> set bs1 \<inter> set bs2 = {}"
proof -
  obtain bs1 t1 where 1: "finalize (head_block_ref ex_A1) ex_forked = Some (bs1, t1)" "tree_inv t1"
    using finalize_preserves[OF ex_forked_facts(1)] by blast
  obtain bs2 t2 where 2: "finalize (head_block_ref ex_A2) t1 = Some (bs2, t2)"
    using finalize_preserves[OF 1(2)] by blast
  from finalize_never_repeats[OF ex_forked_facts(1) 1(1) 2] 1 2 show ?thesis by blast
qed

definition sole_root :: "block_tree \<Rightarrow> chain_head \<Rightarrow> bool" where
  "sole_root t r \<longleftrightarrow> r \<in> set (tree_heads t) \<and> (\<forall>b\<in>set (tree_heads t). b = r \<or> number r < number b)"

lemma is_path_last:
  "is_path ns h hs \<Longrightarrow> \<exists>k n. hm_get ns k = Some n \<and> nd_head n = last hs \<and> \<not> hm_contains ns (parent_hash (last hs))"
proof (induction hs arbitrary: h)
  case (Cons x xs)
  show ?case
  proof (cases "xs = []")
    case True
    from Cons.prems obtain n where "hm_get ns h = Some n" "nd_head n = x" by auto
    with True Cons.prems show ?thesis by (auto split: if_splits)
  next
    case False
    with Cons.prems have "is_path ns (parent_hash x) xs" by (auto split: if_splits)
    with Cons.IH False show ?thesis by simp
  qed
qed simp

lemma path_ends_at_sole_root:
  assumes inv: "tree_inv t" and cons: "consistent_heads (head # tree_heads t)" and link: "linkable head t"
    and sole: "sole_root t r" and p: "is_path (bt_nodes (store_block head t)) h hs"
  shows "last hs = r"
proof -
  have mem: "b \<in> set (tree_heads t) \<longleftrightarrow> (\<exists>k m. hm_get (bt_nodes t) k = Some m \<and> nd_head m = b)" for b
    using hm_in_iff[OF tree_invD(1)[OF inv]] by (force simp: tree_heads_def)
  obtain k n where k: "hm_get (bt_nodes (store_block head t)) k = Some n" "nd_head n = last hs"
    "\<not> hm_contains (bt_nodes (store_block head t)) (parent_hash (last hs))"
    using is_path_last[OF p] by blast
  obtain kr nr where r: "hm_get (bt_nodes t) kr = Some nr" "nd_head nr = r"
    using sole mem by (auto simp: sole_root_def)
  have ne: "bt_nodes t \<noteq> []" using r by auto
  with link obtain pn where pn: "hm_get (bt_nodes t) (parent_hash head) = Some pn"
    by (auto simp: linkable_def)
  have kt: "k \<noteq> hash head"
    using k pn by (auto simp: stored_get split: if_splits)
  then have kn: "hm_get (bt_nodes t) k = Some n" using k(1) by (simp add: stored_get)
  have "kr \<noteq> hash head" using r link by (auto simp: linkable_def)
  then have "hm_get (bt_nodes (store_block head t)) kr = Some nr" using r by (simp add: stored_get)
  with stored_inv(4)[OF inv cons link] k have "number (last hs) \<le> number r"
    unfolding rooted_def using r(2) by metis
  moreover have "last hs = r \<or> number r < number (last hs)"
    using sole kn k(2) mem by (auto simp: sole_root_def)
  ultimately show ?thesis by auto
qed

text \<open>
  While the tree holds exactly one block of the lowest height, a reorg rejoins the canonical chain
  at that block or above it: every block it reverts is strictly higher. In particular a finalized
  block that is the only one held at its height is never reverted.
\<close>

theorem reorg_above_sole_root:
  assumes "tree_inv t" "consistent_heads (head # tree_heads t)" "sole_root t r"
    and "add_block head t = Some (Inr (Canonical u), t')"
  shows "\<forall>b\<in>set (reverted u). number r < number b"
proof
  fix b assume b: "b \<in> set (reverted u)"
  have link: "linkable head t" using add_block_refused assms(4) by fastforce
  obtain old where old: "canonical_iter t = Some old" and
    cs: "case canonical_tip t of None \<Rightarrow> old = [] | Some h \<Rightarrow> is_path (bt_nodes t) h old \<and>
      is_path (bt_nodes (store_block head t)) h old"
    using old_chain_stored[OF assms(1,2) link] by blast
  obtain suffix where s: "old = reverted u @ suffix"
    "is_path (bt_nodes (store_block head t)) (hash head) (rev (canonicalized u) @ suffix)"
    "\<forall>x\<in>set (canonicalized u). hash x \<notin> hash ` set old"
    using add_block_stored[OF assms(1,2) link] assms(4) old by auto
  have ne: "old \<noteq> []" "rev (canonicalized u) @ suffix \<noteq> []"
    using b s(1,2) by auto
  then have "last old = r" "last (rev (canonicalized u) @ suffix) = r"
    using path_ends_at_sole_root[OF assms(1,2) link assms(3)] cs s(2)
    by (auto split: option.splits)
  then have "suffix \<noteq> []"
    using s(3) ne by (metis append_Nil2 imageI last_in_set set_rev)
  moreover have "sorted_wrt (\<lambda>a b. number b < number a) old"
    by (rule canonical_descending[OF assms(1) old])
  ultimately show "number r < number b"
    using b s(1) \<open>last old = r\<close> by (metis last_appendR last_in_set sorted_wrt_append)
qed

theorem reorg_above_sole_root_witness:
  "sole_root ex_forked ex_G \<and> (\<exists>t' u. add_block ex_B2 ex_forked = Some (Inr (Canonical u), t') \<and>
     reverted u = [ex_A2, ex_A1] \<and> (\<forall>b\<in>set (reverted u). number ex_G < number b))"
proof -
  have c: "consistent_heads (ex_B2 # tree_heads ex_forked)"
    by (rule ex_forked_facts(2)) (simp add: ex_feed_def)
  obtain t' where a: "add_block ex_B2 ex_forked = Some (Inr (Canonical
     \<lparr>reverted = [ex_A2, ex_A1], canonicalized = [ex_B1, ex_B2]\<rparr>), t')" using ex_reorg by blast
  have s: "sole_root ex_forked ex_G" by (simp add: sole_root_def tree_heads_def ex_tree_def mk_head_def)
  from reorg_above_sole_root[OF ex_forked_facts(1) c s a] s a show ?thesis by fastforce
qed

text \<open>
  C5: Finality is not enforced against a side branch that forks below the finalized block but reaches
  its height: pruning keeps every block at the floor's height, and the refusal only looks at the new
  head's own height. On the reachable tree below, \<open>ex_A1\<close> is reported final, and the next head of
  the side branch is accepted as canonical with \<open>ex_A1\<close> among the reverted blocks.
\<close>

theorem finalized_block_reverted:
  "\<exists>t bs t1 u t2. tree_reach ex_feed 64 t \<and> finalize (head_block_ref ex_A1) t = Some (bs, t1) \<and>
     ex_A1 \<in> set bs \<and> finalized t1 = Some (head_block_ref ex_A1) \<and>
     add_block ex_B2 t1 = Some (Inr (Canonical u), t2) \<and> ex_A1 \<in> set (reverted u)"
proof -
  have 1: "finalize (head_block_ref ex_A1) ex_forked = Some ([ex_G, ex_A1],
    \<lparr>finalization_depth = 64,
     bt_nodes = [(11, \<lparr>nd_head = ex_A1, nd_seq = 1\<rparr>), (12, \<lparr>nd_head = ex_A2, nd_seq = 2\<rparr>),
       (21, \<lparr>nd_head = ex_B1, nd_seq = 3\<rparr>)],
     canonical_tip = Some 12, finalized = Some (head_block_ref ex_A1), next_seq = 4\<rparr>)"
    (is "_ = Some (_, ?t1)")
    by (simp add: tree_eval ex_tree_def)
  have 2: "\<exists>t2. add_block ex_B2 ?t1 =
    Some (Inr (Canonical \<lparr>reverted = [ex_A2, ex_A1], canonicalized = [ex_B1, ex_B2]\<rparr>), t2)"
    by (simp add: tree_eval)
  from 2 obtain t2 where "add_block ex_B2 ?t1 =
    Some (Inr (Canonical \<lparr>reverted = [ex_A2, ex_A1], canonicalized = [ex_B1, ex_B2]\<rparr>), t2)" ..
  with 1 ex_reach(4) show ?thesis
    by (intro exI[of _ ex_forked] exI[of _ "[ex_G, ex_A1]"] exI[of _ ?t1]
        exI[of _ "\<lparr>reverted = [ex_A2, ex_A1], canonicalized = [ex_B1, ex_B2]\<rparr>"] exI[of _ t2]) simp
qed

text \<open>
  A \<open>finalized\<close> tag ahead of the tip is stored unclamped: \<open>finalize\<close> keeps the tip, but from then
  on every unseen head up to the reported height is refused as a reorg beyond finality, the tip's own
  child included, so the feed cannot advance.
\<close>

theorem finalize_ahead_refuses_children:
  assumes "tree_inv t" "finalize fin t = Some (bs, t')"
    and "canonical_tip t = Some (parent_hash head)" "number head \<le> br_number fin"
    and "\<not> tree_contains t (hash head)"
  shows "canonical_tip t' = Some (parent_hash head) \<and>
    add_block head t' = Some (Inl (ReorgBeyondFinality fin (head_block_ref head)), t')"
proof -
  have t': "t' = prune_below (finality_floor fin t) (t\<lparr>finalized := Some fin\<rparr>)"
    using finalize_preserves[OF assms(1), of fin] assms(2) by auto
  have "hm_get (bt_nodes t') (hash head) = None"
    using assms(5) tree_invD(1)[OF assms(1)] by (simp add: t' tree_contains_def hm_get_retain)
  with t' assms(3,4) show ?thesis by (simp add: add_block_def)
qed

theorem finalize_ahead_refuses_children_witness:
  "\<exists>bs t'. finalize \<lparr>br_number = 9, br_hash = 99\<rparr> (ex_tree [ex_G, ex_A1] (Some 11)) = Some (bs, t') \<and>
     (\<exists>e. add_block ex_A2 t' = Some (Inl e, t'))"
proof -
  let ?t = "ex_tree [ex_G, ex_A1] (Some 11)" and ?fin = "\<lparr>br_number = 9, br_hash = 99\<rparr>"
  note inv = ex_reach_facts(1)[OF ex_reach(2)]
  obtain bs t' where f: "finalize ?fin ?t = Some (bs, t')" using finalize_preserves[OF inv] by blast
  have "canonical_tip ?t = Some (parent_hash ex_A2)" "number ex_A2 \<le> br_number ?fin"
    "\<not> tree_contains ?t (hash ex_A2)"
    by (simp_all add: ex_tree_def mk_head_def tree_contains_def)
  from finalize_ahead_refuses_children[OF inv f this] f show ?thesis by blast
qed

text \<open>
  C35: The depth backstop bounds the tree: on every reachable tree all blocks held lie within
  \<open>finalization_depth\<close> below the tip, and none is above it.
\<close>

theorem tree_depth_bounded:
  assumes "consistent_heads feed" "tree_reach feed depth t" "canonical_tip_head t = Some (Some tip)"
  shows "\<forall>b\<in>set (tree_heads t). number tip \<le> number b + depth \<and> number b \<le> number tip"
proof
  fix b assume "b \<in> set (tree_heads t)"
  note r = tree_reach_inv[OF assms(2,1)]
  then have inv: "tree_inv t" and d: "depth_ok t" "finalization_depth t = depth" by auto
  obtain k m where k: "hm_get (bt_nodes t) k = Some m" "nd_head m = b"
    using \<open>b \<in> set (tree_heads t)\<close> hm_in_iff[OF tree_invD(1)[OF inv]] by (force simp: tree_heads_def)
  obtain h n where h: "canonical_tip t = Some h" "hm_get (bt_nodes t) h = Some n" "nd_head n = tip"
    using assms(3) by (auto simp: canonical_tip_head_def split: option.splits)
  have "key_less m n" if "k \<noteq> h" using tree_invD(5)[OF inv] h k that by (auto simp: tip_ok_def)
  then have "number b \<le> number tip" using h k by (cases "k = h") (auto simp: key_less_def)
  with d h k show "number tip \<le> number b + depth \<and> number b \<le> number tip"
    unfolding depth_ok_def by blast
qed

theorem tree_depth_bounded_witness:
  "canonical_tip_head ex_forked = Some (Some ex_A2) \<and>
   ex_B1 \<in> set (tree_heads ex_forked) \<and> number ex_A2 \<le> number ex_B1 + 64 \<and> number ex_B1 \<le> number ex_A2"
proof -
  have "canonical_tip_head ex_forked = Some (Some ex_A2)"
    by (simp add: canonical_tip_head_def ex_tree_def mk_head_def)
  moreover have "ex_B1 \<in> set (tree_heads ex_forked)" by (simp add: tree_heads_def ex_tree_def)
  ultimately show ?thesis using tree_depth_bounded[OF ex_feed_consistent ex_reach(4)] by blast
qed

end
