(* ===== verification/Cross_Block_State.thy ===== *)
theory Cross_Block_State
  imports Chain_Types
begin

text \<open>
  The reorg-versioned snapshot stack \<open>CrossBlockState\<close>
  (\<open>crates/detector-api/src/cross_block_state.rs\<close>) and the replay of a \<open>BlockReverted\<close> stream onto
  it (\<open>Rewindable\<close>, \<open>replay\<close> and \<open>apply_reverts\<close> of \<open>crates/detection/src/reorg.rs\<close>).

  A \<open>VecDeque\<close> is a list whose front is the head. The trait \<open>Rewindable\<close> is the locale
  \<open>rewindable\<close>; its client, the replay, is reasoned about once inside the locale, and the snapshot
  stack is its first instance.
\<close>

section \<open>Data\<close>

record 's version =
  ver_block :: block_ref
  ver_state :: 's

record 's cross_block_state =
  window_blocks :: u32
  versions :: "'s version list"

record block_reverted =
  rv_block :: block_ref
  replaced_by :: b256

record reorg_rewind =
  popped :: nat
  ignored :: nat

section \<open>The snapshot stack\<close>

definition cbs_new :: "u32 \<Rightarrow> 's cross_block_state" where
  "cbs_new w = \<lparr>window_blocks = w, versions = []\<rparr>"

definition cbs_len :: "'s cross_block_state \<Rightarrow> nat" where
  "cbs_len st = length (versions st)"

definition cbs_is_empty :: "'s cross_block_state \<Rightarrow> bool" where
  "cbs_is_empty st \<longleftrightarrow> versions st = []"

definition current :: "'s cross_block_state \<Rightarrow> 's option" where
  "current st = (if versions st = [] then None else Some (ver_state (last (versions st))))"

definition tip :: "'s cross_block_state \<Rightarrow> block_ref option" where
  "tip st = (if versions st = [] then None else Some (ver_block (last (versions st))))"

text \<open>The loop of \<open>prune_to_window\<close>: pop the front while more than one version is held.\<close>

fun pop_front_to :: "nat \<Rightarrow> 's version list \<Rightarrow> 's version list" where
  "pop_front_to floor (v # w # vs) =
     (if br_number (ver_block v) \<le> floor then pop_front_to floor (w # vs) else v # w # vs)"
| "pop_front_to floor vs = vs"

definition prune_to_window :: "'s cross_block_state \<Rightarrow> 's cross_block_state" where
  "prune_to_window st = (case tip st of
      None \<Rightarrow> st
    | Some t \<Rightarrow> st\<lparr>versions := pop_front_to (br_number t - unat (window_blocks st)) (versions st)\<rparr>)"

definition cbs_push :: "block_ref \<Rightarrow> 's \<Rightarrow> 's cross_block_state \<Rightarrow> 's cross_block_state" where
  "cbs_push b s st = prune_to_window (st\<lparr>versions := versions st @ [\<lparr>ver_block = b, ver_state = s\<rparr>]\<rparr>)"

definition apply_block :: "block_ref \<Rightarrow> 's \<Rightarrow> 's cross_block_state \<Rightarrow> 's cross_block_state" where
  "apply_block b s st = (case tip st of
      Some t \<Rightarrow> if br_number b \<le> br_number t then st else cbs_push b s st
    | None \<Rightarrow> cbs_push b s st)"

definition revert_tip :: "block_ref \<Rightarrow> 's cross_block_state \<Rightarrow> bool \<times> 's cross_block_state" where
  "revert_tip b st =
     (if tip st = Some b then (True, st\<lparr>versions := butlast (versions st)\<rparr>) else (False, st))"

text \<open>The loop of \<open>rewind_to\<close>: pop the back while the tip is above the ancestor.\<close>

function rewind_to :: "nat \<Rightarrow> 's cross_block_state \<Rightarrow> 's cross_block_state" where
  "rewind_to a st = (case tip st of
      None \<Rightarrow> st
    | Some t \<Rightarrow> if a < br_number t then rewind_to a (st\<lparr>versions := butlast (versions st)\<rparr>) else st)"
  by pat_completeness auto
termination
  by (relation "measure (\<lambda>(a, st). length (versions st))") (auto simp: tip_def split: if_splits)

declare rewind_to.simps [simp del]

section \<open>Replaying reverts\<close>

definition rewind_changed :: "reorg_rewind \<Rightarrow> bool" where
  "rewind_changed r \<longleftrightarrow> 0 < popped r"

text \<open>
  \<open>replay\<close> is generic over the receiver's \<open>revert_tip\<close>, as the Rust function is generic over
  \<open>Rewindable\<close>.
\<close>

fun replay_from :: "(block_ref \<Rightarrow> 'r \<Rightarrow> bool \<times> 'r) \<Rightarrow> reorg_rewind \<Rightarrow> block_reverted list \<Rightarrow> 'r \<Rightarrow> reorg_rewind \<times> 'r" where
  "replay_from rt out [] r = (out, r)"
| "replay_from rt out (e # es) r =
     (let (hit, r') = rt (rv_block e) r
      in replay_from rt (if hit then out\<lparr>popped := popped out + 1\<rparr> else out\<lparr>ignored := ignored out + 1\<rparr>) es r')"

definition replay :: "(block_ref \<Rightarrow> 'r \<Rightarrow> bool \<times> 'r) \<Rightarrow> block_reverted list \<Rightarrow> 'r \<Rightarrow> reorg_rewind \<times> 'r" where
  "replay rt es r = replay_from rt \<lparr>popped = 0, ignored = 0\<rparr> es r"

text \<open>The ordering the \<open>debug_assert!\<close> of \<open>assert_tip_first\<close> checks.\<close>

definition tip_first :: "block_reverted list \<Rightarrow> bool" where
  "tip_first es \<longleftrightarrow> sorted_wrt (\<lambda>a b. br_number b < br_number a) (map rv_block es)"

definition apply_reverts :: "block_reverted list \<Rightarrow> 's cross_block_state \<Rightarrow> reorg_rewind \<times> 's cross_block_state" where
  "apply_reverts es st = replay revert_tip es st"

section \<open>The invariant: ascending versions within the window\<close>

definition blocks_of :: "'s cross_block_state \<Rightarrow> block_ref list" where
  "blocks_of st = map ver_block (versions st)"

definition ascending :: "block_ref list \<Rightarrow> bool" where
  "ascending bs \<longleftrightarrow> sorted_wrt (\<lambda>a b. br_number a < br_number b) bs"

definition cbs_inv :: "'s cross_block_state \<Rightarrow> bool" where
  "cbs_inv st \<longleftrightarrow> ascending (blocks_of st) \<and>
     (\<forall>b\<in>set (blocks_of st). br_number (last (blocks_of st)) < br_number b + max 1 (unat (window_blocks st)))"

lemma tip_blocks: "tip st = (if blocks_of st = [] then None else Some (last (blocks_of st)))"
  by (simp add: tip_def blocks_of_def last_map)

lemma pop_front_to_suffix: "\<exists>us. vs = us @ pop_front_to f vs"
proof (induction f vs rule: pop_front_to.induct)
  case (1 f v w vs)
  show ?case
  proof (cases "br_number (ver_block v) \<le> f")
    case True
    with 1 obtain us where "w # vs = us @ pop_front_to f (w # vs)" by blast
    with True have "v # w # vs = (v # us) @ pop_front_to f (v # w # vs)" by simp
    then show ?thesis by blast
  qed simp
qed auto

lemma pop_front_to_nonempty: "vs \<noteq> [] \<Longrightarrow> pop_front_to f vs \<noteq> [] \<and> last (pop_front_to f vs) = last vs"
  by (induction f vs rule: pop_front_to.induct) auto

lemma pop_front_to_filter:
  assumes "sorted_wrt (\<lambda>a b. br_number a < br_number b) (map ver_block (vs @ [v]))"
  shows "pop_front_to f (vs @ [v]) = filter (\<lambda>x. f < br_number (ver_block x)) vs @ [v]"
  using assms
proof (induction vs)
  case (Cons x xs)
  show ?case
  proof (cases "br_number (ver_block x) \<le> f")
    case True
    with Cons show ?thesis by (cases xs) auto
  next
    case False
    with Cons.prems have "\<forall>y\<in>set xs. f < br_number (ver_block y)" by auto
    then have "filter (\<lambda>x. f < br_number (ver_block x)) xs = xs" by simp
    with False show ?thesis by (cases xs) auto
  qed
qed simp

lemma blocks_push:
  assumes "ascending (blocks_of st)" "\<forall>x\<in>set (blocks_of st). br_number x < br_number b"
  shows "versions (cbs_push b s st) =
    filter (\<lambda>v. br_number b - unat (window_blocks st) < br_number (ver_block v)) (versions st)
      @ [\<lparr>ver_block = b, ver_state = s\<rparr>]"
proof -
  have "sorted_wrt (\<lambda>a b. br_number a < br_number b) (map ver_block (versions st @ [\<lparr>ver_block = b, ver_state = s\<rparr>]))"
    using assms by (auto simp: ascending_def blocks_of_def sorted_wrt_append)
  from pop_front_to_filter[OF this] show ?thesis
    by (simp add: cbs_push_def prune_to_window_def tip_def)
qed

lemma window_push [simp]: "window_blocks (cbs_push b s st) = window_blocks st"
  by (simp add: cbs_push_def prune_to_window_def split: option.splits)

lemma ascending_last: "ascending bs \<Longrightarrow> x \<in> set bs \<Longrightarrow> br_number x \<le> br_number (last bs)"
  by (induction bs) (fastforce simp: ascending_def dest: last_in_set)+

lemma cbs_inv_push:
  assumes "cbs_inv st" "\<forall>x\<in>set (blocks_of st). br_number x < br_number b"
  shows "cbs_inv (cbs_push b s st)"
proof -
  have v: "versions (cbs_push b s st) =
    filter (\<lambda>v. br_number b - unat (window_blocks st) < br_number (ver_block v)) (versions st)
      @ [\<lparr>ver_block = b, ver_state = s\<rparr>]"
    using assms by (intro blocks_push) (auto simp: cbs_inv_def)
  have "ascending (blocks_of (cbs_push b s st))"
    using assms sorted_wrt_filter[of _ "versions st"]
    by (auto simp: v blocks_of_def ascending_def cbs_inv_def sorted_wrt_append sorted_wrt_map)
  moreover have "br_number b < br_number x + max 1 (unat (window_blocks st))"
    if "x \<in> set (blocks_of (cbs_push b s st))" for x
    using that by (auto simp: v blocks_of_def)
  ultimately show ?thesis by (simp add: cbs_inv_def v blocks_of_def)
qed

lemma cbs_inv_apply: "cbs_inv st \<Longrightarrow> cbs_inv (apply_block b s st)"
proof -
  assume inv: "cbs_inv st"
  have "cbs_inv (cbs_push b s st)" if "\<And>t. tip st = Some t \<Longrightarrow> br_number t < br_number b"
  proof (rule cbs_inv_push[OF inv], rule ballI)
    fix x assume "x \<in> set (blocks_of st)"
    then have "br_number x \<le> br_number (last (blocks_of st))" "blocks_of st \<noteq> []"
      using inv ascending_last by (auto simp: cbs_inv_def)
    with that show "br_number x < br_number b" by (force simp: tip_blocks)
  qed
  with inv show ?thesis by (auto simp: apply_block_def split: option.splits)
qed

lemma blocks_butlast: "blocks_of (st\<lparr>versions := butlast (versions st)\<rparr>) = butlast (blocks_of st)"
  by (simp add: blocks_of_def map_butlast)

lemma ascending_butlast: "ascending bs \<Longrightarrow> ascending (butlast bs)"
  unfolding ascending_def by (metis append_butlast_last_id butlast.simps(1) sorted_wrt_append)

lemma cbs_inv_butlast: "cbs_inv st \<Longrightarrow> cbs_inv (st\<lparr>versions := butlast (versions st)\<rparr>)"
proof -
  assume inv: "cbs_inv st"
  let ?bs = "blocks_of st"
  have "br_number (last (butlast ?bs)) < br_number b + max 1 (unat (window_blocks st))"
    if b: "b \<in> set (butlast ?bs)" for b
  proof -
    have "last (butlast ?bs) \<in> set ?bs" using b by (metis in_set_butlastD last_in_set list.set_cases list.distinct(1))
    then have "br_number (last (butlast ?bs)) \<le> br_number (last ?bs)"
      using inv ascending_last by (auto simp: cbs_inv_def)
    moreover have "br_number (last ?bs) < br_number b + max 1 (unat (window_blocks st))"
      using inv in_set_butlastD[OF b] by (simp add: cbs_inv_def)
    ultimately show ?thesis by simp
  qed
  with inv show ?thesis by (simp add: cbs_inv_def blocks_butlast ascending_butlast)
qed

lemma cbs_inv_revert: "cbs_inv st \<Longrightarrow> cbs_inv (snd (revert_tip b st))"
  by (simp add: revert_tip_def cbs_inv_butlast)

lemma cbs_inv_rewind: "cbs_inv st \<Longrightarrow> cbs_inv (rewind_to a st)"
proof (induction a st rule: rewind_to.induct)
  case (1 a st)
  then show ?case
    by (subst rewind_to.simps) (auto simp: cbs_inv_butlast split: option.splits)
qed

lemma cbs_inv_new: "cbs_inv (cbs_new w)"
  by (simp add: cbs_inv_def cbs_new_def blocks_of_def ascending_def)

lemma versions_rewind:
  "versions (rewind_to a st) = rev (dropWhile (\<lambda>v. a < br_number (ver_block v)) (rev (versions st)))"
proof (induction a st rule: rewind_to.induct)
  case (1 a st)
  show ?case
  proof (cases "versions st" rule: rev_cases)
    case Nil
    then show ?thesis by (subst rewind_to.simps) (simp add: tip_def)
  next
    case (snoc vs v)
    with 1 show ?thesis by (subst rewind_to.simps) (simp add: tip_def)
  qed
qed

section \<open>The interface of a rewindable state\<close>

text \<open>
  What the replay relies on: a revert that names the newest version pops exactly it, any other
  revert is a no-op, and a rewind drops the versions above the ancestor. \<open>held\<close> lists the versions
  oldest first, \<open>blk\<close> names the block of a version.
\<close>

locale rewindable =
  fixes rt :: "block_ref \<Rightarrow> 'r \<Rightarrow> bool \<times> 'r"
    and rw :: "nat \<Rightarrow> 'r \<Rightarrow> 'r"
    and held :: "'r \<Rightarrow> 'v list"
    and blk :: "'v \<Rightarrow> block_ref"
  assumes revert_hit: "held r = vs @ [v] \<Longrightarrow> \<exists>r'. rt (blk v) r = (True, r') \<and> held r' = vs"
    and revert_miss: "held r = [] \<or> blk (last (held r)) \<noteq> b \<Longrightarrow> rt b r = (False, r)"
    and rewind_held: "held (rw a r) = rev (dropWhile (\<lambda>v. a < br_number (blk v)) (rev (held r)))"
begin

lemma replay_from_orphans:
  "held r = keep @ rev vs \<Longrightarrow> map rv_block es = map blk vs \<Longrightarrow>
   \<exists>r'. replay_from rt out es r = (out\<lparr>popped := popped out + length es\<rparr>, r') \<and> held r' = keep"
proof (induction es arbitrary: r vs out)
  case (Cons e es)
  then obtain v vs' where vs: "vs = v # vs'" "rv_block e = blk v" "map rv_block es = map blk vs'"
    by (cases vs) auto
  with Cons.prems have "held r = (keep @ rev vs') @ [v]" by simp
  from revert_hit[OF this] obtain r1 where r1: "rt (rv_block e) r = (True, r1)" "held r1 = keep @ rev vs'"
    using vs by auto
  from Cons.IH[OF r1(2) vs(3), of "out\<lparr>popped := popped out + 1\<rparr>"] r1(1) show ?case by simp
qed auto

lemma replay_orphans:
  assumes "held r = keep @ rev vs" "map rv_block es = map blk vs"
  shows "\<exists>r'. replay rt es r = (\<lparr>popped = length es, ignored = 0\<rparr>, r') \<and> held r' = keep"
  using replay_from_orphans[OF assms, of "\<lparr>popped = 0, ignored = 0\<rparr>"] by (simp add: replay_def)

lemma replay_from_stale:
  "\<forall>e\<in>set es. rv_block e \<notin> blk ` set (held r) \<Longrightarrow>
   replay_from rt out es r = (out\<lparr>ignored := ignored out + length es\<rparr>, r)"
proof (induction es arbitrary: out)
  case (Cons e es)
  have "rt (rv_block e) r = (False, r)"
  proof (rule revert_miss)
    show "held r = [] \<or> blk (last (held r)) \<noteq> rv_block e"
      using Cons.prems by (metis imageI last_in_set list.set_intros(1))
  qed
  with Cons show ?case by simp
qed simp

lemma replay_stale:
  assumes "\<forall>e\<in>set es. rv_block e \<notin> blk ` set (held r)"
  shows "replay rt es r = (\<lparr>popped = 0, ignored = length es\<rparr>, r)"
  using replay_from_stale[OF assms] by (simp add: replay_def)

lemma replay_from_prefix:
  "replay_from rt out es r = (out', r') \<Longrightarrow>
   popped out' + ignored out' = popped out + ignored out + length es \<and>
   (\<exists>vs. held r = held r' @ vs \<and> popped out' = popped out + length vs \<and> blk ` set vs \<subseteq> rv_block ` set es)"
proof (induction es arbitrary: r out)
  case (Cons e es)
  show ?case
  proof (cases "held r \<noteq> [] \<and> blk (last (held r)) = rv_block e")
    case True
    then obtain vs v where h: "held r = vs @ [v]" "blk v = rv_block e"
      by (metis append_butlast_last_id)
    from revert_hit[OF h(1)] obtain r1 where r1: "rt (rv_block e) r = (True, r1)" "held r1 = vs"
      using h by auto
    with Cons.prems have "replay_from rt (out\<lparr>popped := popped out + 1\<rparr>) es r1 = (out', r')" by simp
    from Cons.IH[OF this] obtain us where "vs = held r' @ us" "popped out' = popped out + 1 + length us"
      "blk ` set us \<subseteq> rv_block ` set es"
      "popped out' + ignored out' = popped out + 1 + ignored out + length es"
      using r1 by auto
    with h show ?thesis by (auto intro!: exI[of _ "us @ [v]"])
  next
    case False
    then have "rt (rv_block e) r = (False, r)" by (intro revert_miss) auto
    with Cons.prems have "replay_from rt (out\<lparr>ignored := ignored out + 1\<rparr>) es r = (out', r')" by simp
    from Cons.IH[OF this] show ?thesis by auto
  qed
qed simp

lemma replay_prefix:
  assumes "replay rt es r = (out, r')"
  shows "popped out + ignored out = length es \<and>
    (\<exists>vs. held r = held r' @ vs \<and> popped out = length vs \<and> blk ` set vs \<subseteq> rv_block ` set es)"
  using replay_from_prefix[of "\<lparr>popped = 0, ignored = 0\<rparr>" es r out r'] assms by (simp add: replay_def)

lemma replay_is_rewind:
  assumes "held r = keep @ rev vs" "map rv_block es = map blk vs"
    and "\<forall>v\<in>set vs. a < br_number (blk v)" "\<forall>v\<in>set keep. br_number (blk v) \<le> a"
  shows "held (snd (replay rt es r)) = held (rw a r)"
proof -
  obtain r' where r': "replay rt es r = (\<lparr>popped = length es, ignored = 0\<rparr>, r')" "held r' = keep"
    using replay_orphans[OF assms(1,2)] by blast
  have "dropWhile (\<lambda>v. a < br_number (blk v)) (rev (held r)) = rev keep"
  proof -
    have "dropWhile (\<lambda>v. a < br_number (blk v)) (vs @ rev keep) = dropWhile (\<lambda>v. a < br_number (blk v)) (rev keep)"
      using assms(3) by (simp add: dropWhile_append2)
    also have "\<dots> = rev keep"
      using assms(4) by (cases "rev keep") (auto simp: rev_eq_Cons_iff)
    finally show ?thesis by (simp add: assms(1))
  qed
  with r' show ?thesis by (simp add: rewind_held)
qed

end

interpretation stack: rewindable revert_tip rewind_to versions ver_block
proof unfold_locales
  fix r :: "'a cross_block_state" and vs v
  assume "versions r = vs @ [v]"
  then show "\<exists>r'. revert_tip (ver_block v) r = (True, r') \<and> versions r' = vs"
    by (simp add: revert_tip_def tip_def)
next
  fix r :: "'a cross_block_state" and b
  assume "versions r = [] \<or> ver_block (last (versions r)) \<noteq> b"
  then show "revert_tip b r = (False, r)" by (auto simp: revert_tip_def tip_def)
next
  fix a and r :: "'a cross_block_state"
  show "versions (rewind_to a r) = rev (dropWhile (\<lambda>v. a < br_number (ver_block v)) (rev (versions r)))"
    by (rule versions_rewind)
qed

section \<open>Histories of the snapshot stack\<close>

definition apply_all :: "(block_ref \<times> 's) list \<Rightarrow> 's cross_block_state \<Rightarrow> 's cross_block_state" where
  "apply_all bs st = fold (\<lambda>(b, s). apply_block b s) bs st"

text \<open>Everything the public operations can make of a fresh stack.\<close>

inductive cbs_reach :: "u32 \<Rightarrow> 's cross_block_state \<Rightarrow> bool" for w where
  fresh: "cbs_reach w (cbs_new w)"
| applied: "cbs_reach w st \<Longrightarrow> cbs_reach w (apply_block b s st)"
| reverted: "cbs_reach w st \<Longrightarrow> cbs_reach w (snd (revert_tip b st))"
| rewound: "cbs_reach w st \<Longrightarrow> cbs_reach w (rewind_to a st)"
| replayed: "cbs_reach w st \<Longrightarrow> cbs_reach w (snd (apply_reverts es st))"

lemma window_apply [simp]: "window_blocks (apply_block b s st) = window_blocks st"
  by (simp add: apply_block_def split: option.splits)

lemma window_revert [simp]: "window_blocks (snd (revert_tip b st)) = window_blocks st"
  by (simp add: revert_tip_def)

lemma window_rewind [simp]: "window_blocks (rewind_to a st) = window_blocks st"
proof (induction a st rule: rewind_to.induct)
  case (1 a st)
  then show ?case by (subst rewind_to.simps) (auto split: option.splits)
qed

lemma replay_from_keeps:
  assumes "\<And>b r. Q r \<Longrightarrow> Q (snd (rt b r))" "Q r"
  shows "Q (snd (replay_from rt out es r))"
  using assms(2)
proof (induction es arbitrary: r out)
  case (Cons e es)
  from assms(1)[OF Cons.prems, of "rv_block e"] Cons.IH show ?case
    by (simp add: case_prod_beta Let_def)
qed simp

lemma cbs_reach_inv: "cbs_reach w st \<Longrightarrow> cbs_inv st \<and> window_blocks st = w"
proof (induction rule: cbs_reach.induct)
  case (replayed st es)
  show ?case unfolding apply_reverts_def replay_def
    by (rule replay_from_keeps[where Q = "\<lambda>st. cbs_inv st \<and> window_blocks st = w"])
       (use replayed in \<open>auto simp: cbs_inv_revert\<close>)
qed (simp_all add: cbs_inv_new cbs_inv_apply cbs_inv_revert cbs_inv_rewind, simp add: cbs_new_def)

lemma ascending_length:
  "ascending bs \<Longrightarrow> bs \<noteq> [] \<Longrightarrow> br_number (hd bs) + length bs \<le> br_number (last bs) + 1"
proof (induction bs)
  case (Cons b bs)
  show ?case
  proof (cases bs)
    case (Cons c cs)
    with Cons.IH Cons.prems have "br_number c + length bs \<le> br_number (last bs) + 1" "br_number b < br_number c"
      by (auto simp: ascending_def)
    then show ?thesis using Cons by simp
  qed simp
qed simp

lemma cbs_inv_length: "cbs_inv st \<Longrightarrow> cbs_len st \<le> max 1 (unat (window_blocks st))"
proof (cases "blocks_of st")
  case (Cons b bs)
  assume inv: "cbs_inv st"
  with Cons have "br_number b + length (blocks_of st) \<le> br_number (last (blocks_of st)) + 1"
    using ascending_length[of "blocks_of st"] by (simp add: cbs_inv_def)
  moreover have "br_number (last (blocks_of st)) < br_number b + max 1 (unat (window_blocks st))"
    using inv Cons by (simp add: cbs_inv_def)
  ultimately show ?thesis by (simp add: cbs_len_def blocks_of_def)
qed (simp add: cbs_len_def blocks_of_def)

text \<open>
  The snapshot stack never outgrows its window. Whatever sequence of applies, reverts, rewinds
  and replays a fresh stack of window \<open>w\<close> goes through, its versions stand in strictly ascending
  height order, the oldest is less than \<open>max 1 w\<close> heights below the tip, and at most \<open>max 1 w\<close>
  versions are held.
\<close>

theorem cbs_reach_bounded:
  assumes "cbs_reach w st"
  shows "ascending (blocks_of st) \<and> cbs_len st \<le> max 1 (unat w) \<and>
    (\<forall>t. tip st = Some t \<longrightarrow> (\<forall>b\<in>set (blocks_of st).
       br_number b \<le> br_number t \<and> br_number t < br_number b + max 1 (unat w)))"
proof (intro conjI allI impI)
  note inv = cbs_reach_inv[OF assms]
  show "ascending (blocks_of st)" using inv by (simp add: cbs_inv_def)
  show "cbs_len st \<le> max 1 (unat w)" using inv cbs_inv_length by auto
  show "\<forall>b\<in>set (blocks_of st). br_number b \<le> br_number t \<and> br_number t < br_number b + max 1 (unat w)"
    if "tip st = Some t" for t
    using that inv ascending_last by (auto simp: tip_blocks cbs_inv_def split: if_splits)
qed

lemma versions_apply_above:
  assumes "cbs_inv st" "\<forall>x\<in>set (blocks_of st). br_number x < br_number b"
  shows "versions (apply_block b s st) =
    filter (\<lambda>v. br_number b - unat (window_blocks st) < br_number (ver_block v)) (versions st)
      @ [\<lparr>ver_block = b, ver_state = s\<rparr>]"
proof -
  have "apply_block b s st = cbs_push b s st"
    using assms(2) last_in_set[of "blocks_of st"]
    by (cases "blocks_of st = []") (auto simp: apply_block_def tip_blocks dest!: bspec[where x = "last (blocks_of st)"])
  with blocks_push[of st b s] assms show ?thesis by (simp add: cbs_inv_def)
qed

lemma apply_all_simps [simp]:
  "apply_all [] st = st"
  "apply_all ((b, s) # bs) st = apply_all bs (apply_block b s st)"
  "apply_all (bs @ cs) st = apply_all cs (apply_all bs st)"
  by (simp_all add: apply_all_def)

lemma apply_all_inv: "cbs_inv st \<Longrightarrow> cbs_inv (apply_all bs st) \<and> window_blocks (apply_all bs st) = window_blocks st"
  by (induction bs arbitrary: st) (auto simp: cbs_inv_apply)

definition mk_versions :: "(block_ref \<times> 's) list \<Rightarrow> 's version list" where
  "mk_versions bs = map (\<lambda>(b, s). \<lparr>ver_block = b, ver_state = s\<rparr>) bs"

lemma ver_block_mk_versions [simp]: "map ver_block (mk_versions bs) = map fst bs"
  by (auto simp: mk_versions_def)

lemma versions_apply_all:
  assumes "cbs_inv st" "0 < unat (window_blocks st)" "bs \<noteq> []"
    and "ascending (blocks_of st @ map fst bs)" "\<forall>p\<in>set bs. 0 < br_number (fst p)"
  shows "versions (apply_all bs st) =
    filter (\<lambda>v. br_number (fst (last bs)) - unat (window_blocks st) < br_number (ver_block v))
      (versions st @ mk_versions bs)"
  using assms(3-5)
proof (induction bs rule: rev_induct)
  case (snoc p bs)
  obtain b s where p: "p = (b, s)" by (cases p)
  let ?w = "unat (window_blocks st)"
  note inv = apply_all_inv[OF assms(1), of bs]
  have asc: "\<forall>x\<in>set (blocks_of st) \<union> set (map fst bs). br_number x < br_number b"
    "ascending (blocks_of st @ map fst bs)"
    using snoc.prems p by (auto simp: ascending_def sorted_wrt_append)
  have v: "filter (\<lambda>v. br_number b - ?w < br_number (ver_block v)) (versions (apply_all bs st)) =
      filter (\<lambda>v. br_number b - ?w < br_number (ver_block v)) (versions st @ mk_versions bs)"
    and sub: "set (versions (apply_all bs st)) \<subseteq> set (versions st @ mk_versions bs)"
  proof (atomize (full), cases "bs = []")
    case False
    then have "br_number (fst (last bs)) < br_number b" using asc(1) by simp
    then have imp: "br_number (fst (last bs)) - ?w < n \<and> br_number b - ?w < n \<longleftrightarrow> br_number b - ?w < n" for n
      by linarith
    with False snoc.IH snoc.prems(3) asc(2) show "filter (\<lambda>v. br_number b - ?w < br_number (ver_block v)) (versions (apply_all bs st)) =
      filter (\<lambda>v. br_number b - ?w < br_number (ver_block v)) (versions st @ mk_versions bs) \<and>
      set (versions (apply_all bs st)) \<subseteq> set (versions st @ mk_versions bs)"
      by (auto simp: imp)
  qed (simp add: mk_versions_def)
  have "\<forall>x\<in>set (blocks_of (apply_all bs st)). br_number x < br_number b"
  proof
    fix x assume "x \<in> set (blocks_of (apply_all bs st))"
    then have "x \<in> ver_block ` set (versions st @ mk_versions bs)"
      using sub unfolding blocks_of_def set_map by blast
    then have "x \<in> set (map ver_block (versions st @ mk_versions bs))"
      by (simp only: set_map)
    then have "x \<in> set (blocks_of st) \<union> set (map fst bs)"
      by (simp only: map_append ver_block_mk_versions set_append blocks_of_def)
    with asc(1) show "br_number x < br_number b" by blast
  qed
  with versions_apply_above[of "apply_all bs st" b s] inv v p assms(2) snoc.prems(3) show ?case
    by (auto simp: mk_versions_def)
qed simp


lemma apply_all_redelivered:
  assumes "cbs_inv st" "\<forall>p\<in>set bs. \<exists>t. tip st = Some t \<and> br_number (fst p) \<le> br_number t"
  shows "apply_all bs st = st"
  using assms(2) by (induction bs) (auto simp: apply_block_def)

lemma tip_apply: "\<exists>t. tip (apply_block b s st) = Some t \<and> br_number b \<le> br_number t \<and>
    (\<forall>t0. tip st = Some t0 \<longrightarrow> br_number t0 \<le> br_number t)"
proof -
  have "tip (cbs_push b s st) = Some b"
    using pop_front_to_nonempty[of "versions st @ [\<lparr>ver_block = b, ver_state = s\<rparr>]"]
    by (simp add: cbs_push_def prune_to_window_def tip_def)
  then show ?thesis by (auto simp: apply_block_def split: option.splits)
qed

lemma tip_apply_all:
  "p \<in> set bs \<Longrightarrow> \<exists>t. tip (apply_all bs st) = Some t \<and> br_number (fst p) \<le> br_number t"
proof (induction bs rule: rev_induct)
  case (snoc q bs)
  obtain b s where q: "q = (b, s)" by (cases q)
  from tip_apply[of b s "apply_all bs st"] obtain t where t:
    "tip (apply_block b s (apply_all bs st)) = Some t" "br_number b \<le> br_number t"
    "\<forall>t0. tip (apply_all bs st) = Some t0 \<longrightarrow> br_number t0 \<le> br_number t" by blast
  show ?case
  proof (cases "p = q")
    case True
    with t q show ?thesis by simp
  next
    case False
    with snoc obtain t0 where "tip (apply_all bs st) = Some t0" "br_number (fst p) \<le> br_number t0" by auto
    with t q show ?thesis by (auto intro: order_trans)
  qed
qed simp

text \<open>
  At-least-once delivery is harmless to the stack: feeding the same blocks a second time, in
  full or in any part and whatever state they carry, changes nothing.
\<close>

theorem apply_all_idempotent:
  assumes "cbs_reach w st" "fst ` set cs \<subseteq> fst ` set bs"
  shows "apply_all cs (apply_all bs st) = apply_all bs st"
proof (rule apply_all_redelivered)
  show "cbs_inv (apply_all bs st)" using assms cbs_reach_inv apply_all_inv by blast
  show "\<forall>p\<in>set cs. \<exists>t. tip (apply_all bs st) = Some t \<and> br_number (fst p) \<le> br_number t"
  proof
    fix p assume "p \<in> set cs"
    then obtain q where "q \<in> set bs" "fst q = fst p" using assms(2) by force
    with tip_apply_all[of q bs st] show "\<exists>t. tip (apply_all bs st) = Some t \<and> br_number (fst p) \<le> br_number t"
      by simp
  qed
qed

lemma replay_from_append:
  "replay_from rt out (es @ fs) r = (let (out', r') = replay_from rt out es r in replay_from rt out' fs r')"
  by (induction es arbitrary: out r) (auto simp: Let_def split: prod.splits)

lemma replay_snd_append: "snd (replay rt (es @ fs) r) = snd (replay rt fs (snd (replay rt es r)))"
proof -
  have out: "snd (replay_from rt o1 fs r) = snd (replay_from rt o2 fs r)" for o1 o2 :: reorg_rewind and r
    by (induction fs arbitrary: o1 o2 r) (auto simp: Let_def split: prod.splits)
  show ?thesis
    unfolding replay_def replay_from_append by (simp add: case_prod_beta Let_def) (rule out)
qed

lemma ascending_filter_split:
  "ascending bs \<Longrightarrow> filter (\<lambda>b. \<not> f < br_number b) bs @ filter (\<lambda>b. f < br_number b) bs = bs"
proof (induction bs)
  case (Cons b bs)
  then have above: "\<forall>x\<in>set bs. br_number b < br_number x" by (simp add: ascending_def)
  show ?case
  proof (cases "f < br_number b")
    case True
    with above have "filter (\<lambda>b. \<not> f < br_number b) bs = []" "filter (\<lambda>b. f < br_number b) bs = bs"
      by (auto simp: filter_empty_conv filter_id_conv)
    with True show ?thesis by simp
  next
    case False
    with Cons show ?thesis by (simp add: ascending_def)
  qed
qed simp

lemma replay_orphan_suffix:
  assumes "versions st = keep @ vs" "map rv_block es = rev (map ver_block vs)"
  shows "\<exists>st'. apply_reverts es st = (\<lparr>popped = length vs, ignored = 0\<rparr>, st') \<and> versions st' = keep"
proof -
  have "versions st = keep @ rev (rev vs)" "map rv_block es = map ver_block (rev vs)"
    using assms by (simp_all add: rev_map)
  from stack.replay_orphans[OF this] show ?thesis
    using map_eq_imp_length_eq[OF assms(2)[unfolded rev_map]] by (simp add: apply_reverts_def)
qed

text \<open>
  C26: A reorg undoes exactly what it orphans. Take any reachable stack, apply the blocks \<open>bs\<close> of
  an abandoned branch on top of it and then replay their \<open>BlockReverted\<close> events tip-first: every
  version of the branch is gone, and what is left are the versions held before, less only those that
  the window dropped while the branch grew. When the branch is shorter than the window leaves room
  for, the versions are the ones before the branch, unchanged.
\<close>

theorem apply_reverts_restores:
  assumes "cbs_reach w st" "0 < unat w" "bs \<noteq> []"
    and "ascending (blocks_of st @ map fst bs)" "\<forall>p\<in>set bs. 0 < br_number (fst p)"
    and "map rv_block es = rev (map fst bs)"
  shows "versions (snd (apply_reverts es (apply_all bs st))) =
      filter (\<lambda>v. br_number (fst (last bs)) - unat w < br_number (ver_block v)) (versions st)"
proof -
  note inv = cbs_reach_inv[OF assms(1)]
  let ?P = "\<lambda>b. br_number (fst (last bs)) - unat w < br_number b"
  let ?keep = "filter (\<lambda>v. ?P (ver_block v)) (versions st)"
  have v: "versions (apply_all bs st) = ?keep @ filter (\<lambda>v. ?P (ver_block v)) (mk_versions bs)"
    using versions_apply_all[of st bs] inv assms by simp
  obtain es1 es2 where es: "es = es1 @ es2" "map rv_block es1 = rev (filter ?P (map fst bs))"
    "map rv_block es2 = rev (filter (\<lambda>b. \<not> ?P b) (map fst bs))"
  proof -
    have "filter (\<lambda>b. \<not> ?P b) (map fst bs) @ filter ?P (map fst bs) = map fst bs"
      using assms(4) by (intro ascending_filter_split) (simp add: ascending_def sorted_wrt_append)
    then have "rev (map fst bs) = rev (filter ?P (map fst bs)) @ rev (filter (\<lambda>b. \<not> ?P b) (map fst bs))"
      by (metis rev_append)
    with assms(6) have "map rv_block es = rev (filter ?P (map fst bs)) @ rev (filter (\<lambda>b. \<not> ?P b) (map fst bs))"
      by simp
    from this[unfolded map_eq_append_conv] obtain es1 es2 where "es = es1 @ es2"
      "rev (filter ?P (map fst bs)) = map rv_block es1" "rev (filter (\<lambda>b. \<not> ?P b) (map fst bs)) = map rv_block es2"
      by (elim exE conjE)
    from this(1) this(2,3)[symmetric] show thesis by (rule that)
  qed
  have "map ver_block (filter (\<lambda>v. ?P (ver_block v)) vs) = filter ?P (map ver_block vs)" for vs :: "'a version list"
    by (induction vs) auto
  from this[of "mk_versions bs"] have "map rv_block es1 = rev (map ver_block (filter (\<lambda>v. ?P (ver_block v)) (mk_versions bs)))"
    by (simp only: es(2) ver_block_mk_versions)
  from replay_orphan_suffix[OF v this] obtain st1 where st1:
    "snd (apply_reverts es1 (apply_all bs st)) = st1" "versions st1 = ?keep"
    by (metis snd_conv)
  have "rv_block e \<notin> ver_block ` set (versions st1)" if "e \<in> set es2" for e
  proof
    assume "rv_block e \<in> ver_block ` set (versions st1)"
    then have "?P (rv_block e)" using st1(2) by auto
    moreover have "rv_block e \<in> set (map rv_block es2)" using that by simp
    then have "\<not> ?P (rv_block e)" by (simp add: es(3))
    ultimately show False by contradiction
  qed
  then have "snd (apply_reverts es2 st1) = st1"
    using stack.replay_stale[of es2 st1] by (simp add: apply_reverts_def)
  with st1 show ?thesis by (simp add: es(1) apply_reverts_def replay_snd_append)
qed


lemma dropWhile_rev_ascending:
  "ascending (map blk vs) \<Longrightarrow>
   rev (dropWhile (\<lambda>v. a < br_number (blk v)) (rev vs)) = filter (\<lambda>v. br_number (blk v) \<le> a) vs"
proof (induction vs rule: rev_induct)
  case (snoc v vs)
  show ?case
  proof (cases "a < br_number (blk v)")
    case True
    with snoc show ?thesis by (simp add: ascending_def sorted_wrt_append)
  next
    case False
    have "\<forall>x\<in>set vs. br_number (blk x) < br_number (blk v)"
      using snoc.prems by (simp add: ascending_def sorted_wrt_append)
    with False have "\<forall>x\<in>set (vs @ [v]). br_number (blk x) \<le> a" by auto
    then have "filter (\<lambda>v. br_number (blk v) \<le> a) (vs @ [v]) = vs @ [v]"
      by (simp only: filter_id_conv)
    with False show ?thesis by simp
  qed
qed simp

text \<open>
  The two ways to rewind agree. On a reachable stack \<open>rewind_to a\<close> keeps exactly the versions
  at height at most \<open>a\<close>, and replaying a tip-first \<open>BlockReverted\<close> stream that names every version
  above \<open>a\<close> leaves the same versions.
\<close>

theorem rewind_to_spec:
  assumes "cbs_reach w st"
    and "map rv_block es = rev (filter (\<lambda>b. a < br_number b) (blocks_of st))"
  shows "versions (rewind_to a st) = filter (\<lambda>v. br_number (ver_block v) \<le> a) (versions st) \<and>
    versions (snd (apply_reverts es st)) = versions (rewind_to a st)"
proof -
  have asc: "ascending (map ver_block (versions st))"
    using cbs_reach_inv[OF assms(1)] by (simp add: cbs_inv_def blocks_of_def)
  have rw: "versions (rewind_to a st) = filter (\<lambda>v. br_number (ver_block v) \<le> a) (versions st)"
    using dropWhile_rev_ascending[OF asc] by (simp add: versions_rewind)
  let ?drop = "dropWhile (\<lambda>v. a < br_number (ver_block v)) (rev (versions st))"
  let ?take = "takeWhile (\<lambda>v. a < br_number (ver_block v)) (rev (versions st))"
  have split: "versions st = rev ?drop @ rev ?take"
    by (metis rev_append rev_rev_ident takeWhile_dropWhile_id)
  have take: "filter (\<lambda>v. a < br_number (ver_block v)) (versions st) = rev ?take"
  proof -
    have "filter (\<lambda>v. a < br_number (ver_block v)) (rev ?drop) = []"
      using dropWhile_rev_ascending[OF asc] by (simp add: not_less)
    moreover have "filter (\<lambda>v. a < br_number (ver_block v)) (rev ?take) = rev ?take"
      by (auto simp: filter_id_conv dest: set_takeWhileD)
    ultimately show ?thesis by (subst split) simp
  qed
  have "map ver_block (filter (\<lambda>v. a < br_number (ver_block v)) vs) = filter (\<lambda>b. a < br_number b) (map ver_block vs)"
    for vs :: "'a version list" by (induction vs) auto
  from this[of "versions st"] take have "map rv_block es = rev (map ver_block (rev ?take))"
    by (simp only: assms(2) blocks_of_def)
  from replay_orphan_suffix[OF split this] have "versions (snd (apply_reverts es st)) = rev ?drop"
    by (metis snd_conv)
  with rw versions_rewind[of a st] show ?thesis by simp
qed

section \<open>Witnesses\<close>

definition ex_ref :: "nat \<Rightarrow> block_ref" where
  "ex_ref n = \<lparr>br_number = n, br_hash = of_nat n\<rparr>"

definition ex_stack :: "nat cross_block_state" where
  "ex_stack = apply_all [(ex_ref 5, 50), (ex_ref 6, 60)] (cbs_new 3)"

definition ex_branch :: "(block_ref \<times> nat) list" where
  "ex_branch = [(ex_ref 7, 70), (ex_ref 8, 80)]"

definition ex_reverts :: "block_reverted list" where
  "ex_reverts = [\<lparr>rv_block = ex_ref 8, replaced_by = 0\<rparr>, \<lparr>rv_block = ex_ref 7, replaced_by = 0\<rparr>]"

lemmas cbs_eval = apply_block_def cbs_push_def prune_to_window_def tip_def cbs_new_def ex_ref_def blocks_of_def
  ascending_def

lemma ex_stack_versions: "versions ex_stack =
    [\<lparr>ver_block = ex_ref 5, ver_state = 50\<rparr>, \<lparr>ver_block = ex_ref 6, ver_state = 60\<rparr>]"
  by (simp add: ex_stack_def cbs_eval)

lemma ex_stack_reach: "cbs_reach 3 ex_stack"
  unfolding ex_stack_def by (simp add: cbs_reach.intros)

theorem cbs_reach_bounded_witness: "cbs_reach 3 ex_stack \<and> cbs_len ex_stack = 2 \<and> cbs_len ex_stack \<le> max 1 (unat (3::u32))"
  using cbs_reach_bounded[OF ex_stack_reach] ex_stack_reach by (simp add: cbs_len_def ex_stack_versions)

theorem apply_all_idempotent_witness:
  "apply_all [(ex_ref 7, 99)] (apply_all ex_branch ex_stack) = apply_all ex_branch ex_stack"
  using apply_all_idempotent[OF ex_stack_reach, of "[(ex_ref 7, 99)]" ex_branch] by (simp add: ex_branch_def)

theorem apply_reverts_restores_witness:
  "versions (snd (apply_reverts ex_reverts (apply_all ex_branch ex_stack))) =
     [\<lparr>ver_block = ex_ref 6, ver_state = 60\<rparr>]"
  using apply_reverts_restores[OF ex_stack_reach, of ex_branch ex_reverts]
  by (simp add: ex_branch_def ex_reverts_def ex_stack_versions blocks_of_def ascending_def ex_ref_def)

theorem rewind_to_spec_witness:
  "versions (rewind_to 5 ex_stack) = [\<lparr>ver_block = ex_ref 5, ver_state = 50\<rparr>] \<and>
   versions (snd (apply_reverts [\<lparr>rv_block = ex_ref 6, replaced_by = 0\<rparr>] ex_stack)) = versions (rewind_to 5 ex_stack)"
  using rewind_to_spec[OF ex_stack_reach, of "[\<lparr>rv_block = ex_ref 6, replaced_by = 0\<rparr>]" 5]
  by (simp add: ex_stack_versions blocks_of_def ex_ref_def)

end
