(* ===== verification/Bounded_Map.thy ===== *)
theory Bounded_Map
  imports Prelude
begin

text \<open>
  \<open>BoundedFifoMap\<close> (\<open>crates/bounded-map/src/lib.rs\<close>): a hash map that holds at most \<open>capacity\<close>
  distinct keys and evicts the oldest on overflow. \<open>entries\<close> is the hash map, \<open>order\<close> the deque of
  keys in the order of their insertion (front first). The eviction warning is logging only.

  The abstract specification is a list of entries in arrival order (\<open>spec_put\<close>); as long as no key
  is ever taken, the map refines it. A \<open>take\<close> removes the entry and leaves its key in \<open>order\<close>, which
  is why the refinement stops there: the last two properties show what that costs.
\<close>

section \<open>The map\<close>

record ('k, 'v) bounded_fifo_map =
  capacity :: nat
  entries :: "('k \<times> 'v) list"
  order :: "'k list"

definition bfm_new :: "nat \<Rightarrow> ('k, 'v) bounded_fifo_map" where
  "bfm_new c = \<lparr>capacity = c, entries = [], order = []\<rparr>"

text \<open>The \<open>while\<close> loop of \<open>evict_to_fit\<close>: pop keys off the front until one of them was live.\<close>

fun evict_loop :: "nat \<Rightarrow> ('k \<times> 'v) list \<Rightarrow> 'k list \<Rightarrow> ('k \<times> 'v) list \<times> 'k list" where
  "evict_loop c es [] = (es, [])"
| "evict_loop c es (oldest # rest) =
     (if c \<le> length es then
        if hm_contains es oldest then (hm_remove oldest es, rest) else evict_loop c es rest
      else (es, oldest # rest))"

definition evict_to_fit :: "('k, 'v) bounded_fifo_map \<Rightarrow> ('k, 'v) bounded_fifo_map" where
  "evict_to_fit m = (if capacity m = 0 then m
     else let (es, ord) = evict_loop (capacity m) (entries m) (order m)
          in m\<lparr>entries := es, order := ord\<rparr>)"

definition bfm_put :: "'k \<Rightarrow> 'v \<Rightarrow> ('k, 'v) bounded_fifo_map \<Rightarrow> ('k, 'v) bounded_fifo_map" where
  "bfm_put k v m =
     (let m' = (if hm_contains (entries m) k then m
                else let e = evict_to_fit m in e\<lparr>order := order e @ [k]\<rparr>)
      in m'\<lparr>entries := hm_insert k v (entries m')\<rparr>)"

definition bfm_get :: "'k \<Rightarrow> ('k, 'v) bounded_fifo_map \<Rightarrow> 'v option" where
  "bfm_get k m = hm_get (entries m) k"

text \<open>\<open>get_mut\<close> hands out a reference; what the caller does through it is the update \<open>f\<close>.\<close>

definition bfm_get_mut :: "'k \<Rightarrow> ('v \<Rightarrow> 'v) \<Rightarrow> ('k, 'v) bounded_fifo_map \<Rightarrow> ('k, 'v) bounded_fifo_map" where
  "bfm_get_mut k f m = (case hm_get (entries m) k of
      None \<Rightarrow> m
    | Some v \<Rightarrow> m\<lparr>entries := hm_insert k (f v) (entries m)\<rparr>)"

definition bfm_take :: "'k \<Rightarrow> ('k, 'v) bounded_fifo_map \<Rightarrow> 'v option \<times> ('k, 'v) bounded_fifo_map" where
  "bfm_take k m = (hm_get (entries m) k, m\<lparr>entries := hm_remove k (entries m)\<rparr>)"

definition bfm_len :: "('k, 'v) bounded_fifo_map \<Rightarrow> nat" where
  "bfm_len m = length (entries m)"

definition bfm_is_empty :: "('k, 'v) bounded_fifo_map \<Rightarrow> bool" where
  "bfm_is_empty m \<longleftrightarrow> entries m = []"

definition retain_values :: "('t \<Rightarrow> bool) \<Rightarrow> ('k, 't list) bounded_fifo_map \<Rightarrow> ('k, 't list) bounded_fifo_map" where
  "retain_values keep m = m\<lparr>entries := map (\<lambda>(k, v). (k, filter keep v)) (entries m)\<rparr>"

section \<open>The invariant\<close>

definition bfm_inv :: "('k, 'v) bounded_fifo_map \<Rightarrow> bool" where
  "bfm_inv m \<longleftrightarrow> hm_distinct (entries m) \<and> set (hm_keys (entries m)) \<subseteq> set (order m) \<and>
     (capacity m \<noteq> 0 \<longrightarrow> bfm_len m \<le> capacity m)"

lemma evict_loop_inv:
  assumes "evict_loop c es ord = (es', ord')" "hm_distinct es" "set (hm_keys es) \<subseteq> set ord"
    and "0 < c" "length es \<le> c"
  shows "hm_distinct es' \<and> set (hm_keys es') \<subseteq> set ord' \<and> length es' < c \<and>
    (\<forall>k. hm_get es' k = None \<or> hm_get es' k = hm_get es k)"
  using assms(1-3)
proof (induction ord)
  case Nil
  with assms(4) show ?case by auto
next
  case (Cons o1 ord)
  show ?case
  proof (cases "c \<le> length es")
    case False
    with Cons.prems show ?thesis by auto
  next
    case full: True
    show ?thesis
    proof (cases "hm_contains es o1")
      case True
      with Cons.prems(1) full have e: "es' = hm_remove o1 es" "ord' = ord" by simp_all
      have "Suc (length (hm_remove o1 es)) = length es"
        by (rule length_hm_remove[OF Cons.prems(2) True])
      then have "length (hm_remove o1 es) < c" using assms(5) by simp
      moreover have "set (hm_keys (hm_remove o1 es)) \<subseteq> set ord"
        using Cons.prems(3) by (auto simp: keys_hm_remove simp del: set_map)
      moreover have "hm_get (hm_remove o1 es) k = None \<or> hm_get (hm_remove o1 es) k = hm_get es k" for k
        by (simp add: hm_get_remove)
      ultimately show ?thesis
        unfolding e using hm_distinct_remove[OF Cons.prems(2), of o1] by simp
    next
      case False
      then have "o1 \<notin> set (hm_keys es)" unfolding hm_contains_iff .
      with Cons.prems have "set (hm_keys es) \<subseteq> set ord" by auto
      with Cons False full show ?thesis by simp
    qed
  qed
qed

lemma evict_to_fit_inv:
  assumes "bfm_inv m"
  shows "hm_distinct (entries (evict_to_fit m)) \<and> capacity (evict_to_fit m) = capacity m \<and>
    set (hm_keys (entries (evict_to_fit m))) \<subseteq> set (order (evict_to_fit m)) \<and>
    (capacity m \<noteq> 0 \<longrightarrow> bfm_len (evict_to_fit m) < capacity m) \<and>
    (\<forall>k. bfm_get k (evict_to_fit m) = None \<or> bfm_get k (evict_to_fit m) = bfm_get k m)"
proof (cases "capacity m = 0")
  case True
  with assms show ?thesis by (simp add: evict_to_fit_def bfm_inv_def)
next
  case False
  obtain es ord where e: "evict_loop (capacity m) (entries m) (order m) = (es, ord)" by fastforce
  from evict_loop_inv[OF e] False assms e show ?thesis
    by (auto simp: evict_to_fit_def bfm_inv_def bfm_len_def bfm_get_def)
qed

lemma bfm_inv_new: "bfm_inv (bfm_new c)"
  by (simp add: bfm_inv_def bfm_new_def bfm_len_def)

lemma bfm_inv_overwrite:
  "bfm_inv m \<Longrightarrow> hm_get (entries m) k = Some u \<Longrightarrow> bfm_inv (m\<lparr>entries := hm_insert k v (entries m)\<rparr>)"
  using hm_get_key[of "entries m" k u]
  by (auto simp: bfm_inv_def bfm_len_def length_hm_insert hm_distinct_insert keys_hm_insert simp del: set_map)

lemma bfm_inv_put: "bfm_inv m \<Longrightarrow> bfm_inv (bfm_put k v m)"
proof (cases "hm_contains (entries m) k")
  case True
  then show "bfm_inv m \<Longrightarrow> ?thesis" using bfm_inv_overwrite by (fastforce simp: bfm_put_def)
next
  case False
  assume "bfm_inv m"
  note e = evict_to_fit_inv[OF this]
  have "hm_get (entries (evict_to_fit m)) k = None"
    using e False by (auto simp: bfm_get_def)
  with e False show ?thesis
    by (auto simp: bfm_put_def bfm_inv_def bfm_len_def length_hm_insert hm_distinct_insert keys_hm_insert
        Let_def simp del: set_map)
qed

lemma bfm_inv_get_mut: "bfm_inv m \<Longrightarrow> bfm_inv (bfm_get_mut k f m)"
  by (auto simp: bfm_get_mut_def bfm_inv_overwrite split: option.splits)

lemma bfm_inv_take: "bfm_inv m \<Longrightarrow> bfm_inv (snd (bfm_take k m))"
  using length_hm_remove_le[of k "entries m"]
  by (auto simp: bfm_take_def bfm_inv_def bfm_len_def hm_distinct_remove keys_hm_remove simp del: set_map)

lemma bfm_inv_retain_values: "bfm_inv m \<Longrightarrow> bfm_inv (retain_values keep m)"
  by (simp add: retain_values_def bfm_inv_def bfm_len_def hm_distinct_def comp_def case_prod_beta image_image)


section \<open>Histories\<close>

datatype ('k, 'v) bfm_op = Put 'k 'v | Take 'k | GetMut 'k "'v \<Rightarrow> 'v"

fun bfm_run :: "('k, 'v) bfm_op list \<Rightarrow> ('k, 'v) bounded_fifo_map \<Rightarrow> ('k, 'v) bounded_fifo_map" where
  "bfm_run [] m = m"
| "bfm_run (Put k v # ops) m = bfm_run ops (bfm_put k v m)"
| "bfm_run (Take k # ops) m = bfm_run ops (snd (bfm_take k m))"
| "bfm_run (GetMut k f # ops) m = bfm_run ops (bfm_get_mut k f m)"

lemma capacity_put [simp]: "capacity (bfm_put k v m) = capacity m"
  by (simp add: bfm_put_def evict_to_fit_def Let_def case_prod_beta)

lemma capacity_take [simp]: "capacity (snd (bfm_take k m)) = capacity m"
  by (simp add: bfm_take_def)

lemma capacity_get_mut [simp]: "capacity (bfm_get_mut k f m) = capacity m"
  by (simp add: bfm_get_mut_def split: option.splits)

lemma bfm_run_inv: "bfm_inv m \<Longrightarrow> bfm_inv (bfm_run ops m) \<and> capacity (bfm_run ops m) = capacity m"
  by (induction ops m rule: bfm_run.induct) (simp_all add: bfm_inv_put bfm_inv_take bfm_inv_get_mut)

text \<open>
  Bounded memory for the entries: whatever sequence of \<open>put\<close>, \<open>take\<close> and \<open>get_mut\<close> a map of
  non-zero capacity goes through, it never holds more distinct keys than its capacity, and the entry
  just put is always readable.
\<close>

theorem bfm_bounded:
  assumes "0 < c"
  shows "bfm_len (bfm_run ops (bfm_new c)) \<le> c \<and> bfm_get k (bfm_run (ops @ [Put k v]) (bfm_new c)) = Some v"
proof -
  have "bfm_run (ops @ [Put k v]) m = bfm_put k v (bfm_run ops m)" for m
    by (induction ops m rule: bfm_run.induct) auto
  moreover have "bfm_get k (bfm_put k v m) = Some v" for m
    by (simp add: bfm_put_def bfm_get_def Let_def hm_get_insert)
  moreover have "bfm_len (bfm_run ops (bfm_new c)) \<le> c"
  proof -
    have "capacity (bfm_new c :: ('a, 'b) bounded_fifo_map) = c" by (simp add: bfm_new_def)
    with bfm_run_inv[OF bfm_inv_new[of c], of ops] assms show ?thesis by (auto simp: bfm_inv_def)
  qed
  ultimately show ?thesis by simp
qed


section \<open>Refinement of the abstract queue\<close>

text \<open>The promise of the crate's documentation: entries in arrival order, the oldest leaves first.\<close>

definition spec_put :: "nat \<Rightarrow> 'k \<Rightarrow> 'v \<Rightarrow> ('k \<times> 'v) list \<Rightarrow> ('k \<times> 'v) list" where
  "spec_put c k v q = (if hm_contains q k then hm_insert k v q
     else (if c \<noteq> 0 \<and> c \<le> length q then tl q else q) @ [(k, v)])"

definition bfm_abs :: "('k, 'v) bounded_fifo_map \<Rightarrow> ('k \<times> 'v) list" where
  "bfm_abs m = map (\<lambda>k. (k, the (bfm_get k m))) (order m)"

definition bfm_exact :: "('k, 'v) bounded_fifo_map \<Rightarrow> bool" where
  "bfm_exact m \<longleftrightarrow> bfm_inv m \<and> distinct (order m) \<and> set (order m) = set (hm_keys (entries m))"

lemma hm_contains_abs: "bfm_exact m \<Longrightarrow> hm_contains (bfm_abs m) k \<longleftrightarrow> hm_contains (entries m) k"
  unfolding hm_contains_iff by (simp add: bfm_abs_def bfm_exact_def comp_def)

lemma length_order_exact: "bfm_exact m \<Longrightarrow> length (order m) = length (entries m)"
  by (metis bfm_exact_def bfm_inv_def distinct_card hm_distinct_def length_map)

lemma update_map_graph:
  "distinct ks \<Longrightarrow> k \<in> set ks \<Longrightarrow>
   hm_insert k v (map (\<lambda>k. (k, f k)) ks) = map (\<lambda>k'. (k', if k' = k then v else f k')) ks"
  by (induction ks) auto

lemma exact_put_old:
  assumes "bfm_exact m" "hm_contains (entries m) k"
  shows "bfm_exact (bfm_put k v m) \<and> bfm_abs (bfm_put k v m) = hm_insert k v (bfm_abs m)"
proof -
  have k: "k \<in> set (order m)" using assms unfolding hm_contains_iff bfm_exact_def by simp
  have p: "bfm_put k v m = m\<lparr>entries := hm_insert k v (entries m)\<rparr>" using assms by (simp add: bfm_put_def)
  have "bfm_inv (bfm_put k v m)" using assms(1) bfm_inv_put[of m k v] by (simp add: bfm_exact_def)
  then have "bfm_exact (bfm_put k v m)"
    using assms k by (simp add: bfm_exact_def p keys_hm_insert insert_absorb del: set_map)
  moreover have "bfm_abs (bfm_put k v m) = hm_insert k v (bfm_abs m)"
    using assms k unfolding bfm_abs_def
    by (subst update_map_graph) (auto simp: bfm_exact_def p bfm_get_def hm_get_insert)
  ultimately show ?thesis ..
qed

lemma evict_exact:
  assumes "bfm_exact m"
  shows "evict_to_fit m = (if capacity m \<noteq> 0 \<and> capacity m \<le> length (order m)
    then m\<lparr>entries := hm_remove (hd (order m)) (entries m), order := tl (order m)\<rparr> else m)"
proof (cases "capacity m \<noteq> 0 \<and> capacity m \<le> length (order m)")
  case True
  then obtain k ks where o: "order m = k # ks" by (cases "order m") auto
  with assms have "hm_contains (entries m) k" unfolding hm_contains_iff bfm_exact_def by auto
  with True o length_order_exact[OF assms] show ?thesis by (simp add: evict_to_fit_def)
next
  case False
  then show ?thesis
    using length_order_exact[OF assms] by (cases "order m") (auto simp: evict_to_fit_def)
qed

lemma exact_put_new:
  assumes "bfm_exact m" "\<not> hm_contains (entries m) k"
  shows "bfm_exact (bfm_put k v m) \<and> bfm_abs (bfm_put k v m) =
    (if capacity m \<noteq> 0 \<and> capacity m \<le> length (bfm_abs m) then tl (bfm_abs m) else bfm_abs m) @ [(k, v)]"
proof -
  let ?full = "capacity m \<noteq> 0 \<and> capacity m \<le> length (order m)"
  let ?es = "if ?full then hm_remove (hd (order m)) (entries m) else entries m"
  let ?ks = "if ?full then tl (order m) else order m"
  have k: "k \<notin> set (order m)" using assms unfolding hm_contains_iff bfm_exact_def by simp
  have p: "bfm_put k v m = m\<lparr>entries := hm_insert k v ?es, order := ?ks @ [k]\<rparr>"
    using assms(2) by (simp add: bfm_put_def evict_exact[OF assms(1)] Let_def)
  have d: "distinct (order m)" "set (order m) = set (hm_keys (entries m))"
    using assms by (simp_all add: bfm_exact_def)
  have ks: "distinct ?ks" "set ?ks = set (hm_keys ?es)" "k \<notin> set ?ks"
    using d k by (cases "order m"; auto simp: keys_hm_remove simp del: set_map)+
  have "bfm_inv (bfm_put k v m)" using assms(1) bfm_inv_put[of m k v] by (simp add: bfm_exact_def)
  then have ex: "bfm_exact (bfm_put k v m)"
    using ks by (simp add: bfm_exact_def p keys_hm_insert del: set_map split del: if_split)
  have "hm_get (hm_insert k v ?es) x = hm_get (entries m) x" if "x \<in> set ?ks" for x
    using that ks(3) d(1) by (cases "order m") (auto simp: hm_get_insert hm_get_remove split: if_splits)
  then have "bfm_abs (bfm_put k v m) = map (\<lambda>x. (x, the (bfm_get x m))) ?ks @ [(k, v)]"
    by (simp add: bfm_abs_def p bfm_get_def hm_get_insert split del: if_split)
  then show ?thesis using ex by (simp add: bfm_abs_def map_tl)
qed

text \<open>
  First in, first out. On every map built by \<open>put\<close> alone, a further \<open>put\<close> does what the
  abstract queue does: overwrite in place when the key is held, otherwise append, dropping exactly
  the oldest entry when the queue is full.
\<close>

theorem bfm_put_refines:
  assumes "m = fold (\<lambda>(k, v). bfm_put k v) kvs (bfm_new c)"
  shows "bfm_abs (bfm_put k v m) = spec_put c k v (bfm_abs m)"
proof -
  have put: "bfm_exact (bfm_put k v m)" "bfm_abs (bfm_put k v m) = spec_put (capacity m) k v (bfm_abs m)"
    if "bfm_exact m" for k v and m :: "('a, 'b) bounded_fifo_map"
    using exact_put_old[OF that] exact_put_new[OF that] hm_contains_abs[OF that, of k]
    by (cases "hm_contains (entries m) k"; simp add: spec_put_def)+
  have "bfm_exact m' \<Longrightarrow> bfm_exact (fold (\<lambda>(k, v). bfm_put k v) kvs m') \<and>
      capacity (fold (\<lambda>(k, v). bfm_put k v) kvs m') = capacity m'" for m' :: "('a, 'b) bounded_fifo_map"
    by (induction kvs arbitrary: m') (auto simp: put(1))
  from this[of "bfm_new c"] have "bfm_exact m" "capacity m = c"
    unfolding assms by (simp_all add: bfm_exact_def bfm_inv_new) (simp_all add: bfm_new_def)
  then show ?thesis using put(2) by simp
qed

section \<open>What a take leaves behind\<close>

text \<open>
  The bound does not extend to \<open>order\<close>. Buffering a key and taking it again, \<open>n\<close> times over,
  leaves the map empty and \<open>order\<close> with \<open>n\<close> stale keys, for every capacity above zero: a consumer
  whose buffer drains well grows without bound.
\<close>

theorem take_leaks_order:
  assumes "0 < c"
  shows "bfm_run (concat (replicate n [Put k v, Take k])) (bfm_new c) =
    \<lparr>capacity = c, entries = [], order = replicate n k\<rparr>"
proof -
  have step: "evict_loop c ([] :: ('a \<times> 'b) list) ks = ([], ks)" for ks using assms by (cases ks) auto
  have "bfm_run (concat (replicate n [Put k v, Take k])) \<lparr>capacity = c, entries = [], order = ks\<rparr> =
      \<lparr>capacity = c, entries = [], order = ks @ replicate n k\<rparr>" for ks
    by (induction n arbitrary: ks) (use assms in \<open>simp_all add: bfm_put_def bfm_take_def evict_to_fit_def step\<close>)
  from this[of "[]"] show ?thesis by (simp add: bfm_new_def)
qed

text \<open>
  And the eviction order is no longer arrival order. A key that was taken and put again keeps
  its old place: with capacity 2, the entry just re-put under 1 is evicted although 2 is older.
\<close>

theorem take_breaks_fifo:
  "hm_keys (entries (bfm_run [Put (1::nat) a, Put 2 b, Take 1, Put 1 c, Put 3 d] (bfm_new 2))) = [2, 3]"
  by (simp add: bfm_put_def bfm_take_def evict_to_fit_def bfm_new_def)

section \<open>Witnesses\<close>

theorem bfm_bounded_witness:
  "bfm_len (bfm_run [Put (1::nat) 10, Put 2 20, Put 3 (30::nat)] (bfm_new 2)) \<le> 2 \<and>
   bfm_get 4 (bfm_run ([Put (1::nat) 10, Put 2 20, Put 3 (30::nat)] @ [Put 4 40]) (bfm_new 2)) = Some 40"
  using bfm_bounded[of 2 "[Put (1::nat) 10, Put 2 20, Put 3 (30::nat)]" 4 40] by simp

theorem bfm_put_refines_witness:
  "bfm_abs (bfm_put (3::nat) (30::nat) (fold (\<lambda>(k, v). bfm_put k v) [(1, 10), (2, 20)] (bfm_new 2))) = [(2, 20), (3, 30)]"
  by (subst bfm_put_refines[OF refl])
     (simp add: spec_put_def bfm_abs_def bfm_get_def bfm_put_def evict_to_fit_def bfm_new_def)

theorem take_leaks_order_witness:
  "bfm_run (concat (replicate 3 [Put (7::nat) (1::nat), Take 7])) (bfm_new 2) =
    \<lparr>capacity = 2, entries = [], order = [7, 7, 7]\<rparr>"
  using take_leaks_order[of 2 3 "7::nat" "1::nat"] by (simp add: numeral_3_eq_3)

end
