(* ===== verification/Resilience.thy ===== *)
theory Resilience
  imports Prelude
begin

text \<open>
  The shared resilience crate (\<open>crates/resilience/src\<close>): the circuit breaker (\<open>circuit.rs\<close>) as a
  state machine over timestamped events, and the retry policy (\<open>backoff.rs\<close>) with its xorshift
  generator on 64-bit words.

  An \<open>Instant\<close> and a \<open>Duration\<close> are nanosecond counts; \<open>duration_since\<close> saturates at zero, which is
  subtraction on \<open>nat\<close>. The mutex makes every method one atomic step, so a concurrent history is a
  sequence of steps.
\<close>

unbundle bit_operations_syntax

section \<open>The circuit breaker\<close>

datatype circuit_state = Closed | Open | HalfOpen

record breaker_config =
  failure_threshold :: u32
  open_cooldown :: nat
  success_threshold :: u32

definition default_breaker_config :: breaker_config where
  "default_breaker_config =
     \<lparr>failure_threshold = 5, open_cooldown = 30 * 10 ^ 9, success_threshold = 1\<rparr>"

record breaker_inner =
  state :: circuit_state
  run :: u32
  opened_at :: "nat option"

definition breaker_new :: breaker_inner where
  "breaker_new = \<lparr>state = Closed, run = 0, opened_at = None\<rparr>"

definition maybe_half_open :: "breaker_config \<Rightarrow> nat \<Rightarrow> breaker_inner \<Rightarrow> breaker_inner" where
  "maybe_half_open cfg now g =
     (if state g = Open then
        let elapsed = (case opened_at g of Some t \<Rightarrow> open_cooldown cfg \<le> now - t | None \<Rightarrow> True)
        in if elapsed then g\<lparr>state := HalfOpen, run := 0\<rparr> else g
      else g)"

definition allows :: "breaker_config \<Rightarrow> nat \<Rightarrow> breaker_inner \<Rightarrow> bool \<times> breaker_inner" where
  "allows cfg now g = (let g' = maybe_half_open cfg now g in (state g' \<noteq> Open, g'))"

definition on_success :: "breaker_config \<Rightarrow> breaker_inner \<Rightarrow> breaker_inner" where
  "on_success cfg g = (case state g of
      Closed \<Rightarrow> g\<lparr>run := 0\<rparr>
    | HalfOpen \<Rightarrow>
        let g' = g\<lparr>run := run g + 1\<rparr>
        in if success_threshold cfg \<le> run g' then g'\<lparr>state := Closed, run := 0, opened_at := None\<rparr> else g'
    | Open \<Rightarrow> g\<lparr>state := Closed, run := 0, opened_at := None\<rparr>)"

definition on_failure :: "breaker_config \<Rightarrow> nat \<Rightarrow> breaker_inner \<Rightarrow> breaker_inner" where
  "on_failure cfg now g = (case state g of
      Closed \<Rightarrow>
        let g' = g\<lparr>run := run g + 1\<rparr>
        in if failure_threshold cfg \<le> run g' then g'\<lparr>state := Open, opened_at := Some now\<rparr> else g'
    | HalfOpen \<Rightarrow> g\<lparr>state := Open, run := 0, opened_at := Some now\<rparr>
    | Open \<Rightarrow> g\<lparr>state := Open, run := 0, opened_at := Some now\<rparr>)"

definition breaker_state :: "breaker_config \<Rightarrow> nat \<Rightarrow> breaker_inner \<Rightarrow> circuit_state \<times> breaker_inner" where
  "breaker_state cfg now g = (let g' = maybe_half_open cfg now g in (state g', g'))"

subsection \<open>Histories\<close>

datatype breaker_event = Ask nat | Succeed | Fail nat | Query nat

fun breaker_step :: "breaker_config \<Rightarrow> breaker_event \<Rightarrow> breaker_inner \<Rightarrow> breaker_inner" where
  "breaker_step cfg (Ask now) g = snd (allows cfg now g)"
| "breaker_step cfg Succeed g = on_success cfg g"
| "breaker_step cfg (Fail now) g = on_failure cfg now g"
| "breaker_step cfg (Query now) g = snd (breaker_state cfg now g)"

definition breaker_run :: "breaker_config \<Rightarrow> breaker_event list \<Rightarrow> breaker_inner \<Rightarrow> breaker_inner" where
  "breaker_run cfg evs g = fold (breaker_step cfg) evs g"

lemma breaker_run_simps [simp]:
  "breaker_run cfg [] g = g"
  "breaker_run cfg (e # es) g = breaker_run cfg es (breaker_step cfg e g)"
  "breaker_run cfg (es @ fs) g = breaker_run cfg fs (breaker_run cfg es g)"
  by (simp_all add: breaker_run_def)

lemmas breaker_defs = allows_def breaker_state_def maybe_half_open_def on_success_def on_failure_def Let_def

text \<open>
  The run counter stays below the threshold of the state it counts in, so \<open>run += 1\<close> cannot
  overflow; an open breaker always has the time it opened.
\<close>

definition breaker_inv :: "breaker_config \<Rightarrow> breaker_inner \<Rightarrow> bool" where
  "breaker_inv cfg g \<longleftrightarrow> (case state g of
      Closed \<Rightarrow> (run g = 0 \<or> run g < failure_threshold cfg) \<and> opened_at g = None
    | HalfOpen \<Rightarrow> (run g = 0 \<or> run g < success_threshold cfg) \<and> opened_at g \<noteq> None
    | Open \<Rightarrow> opened_at g \<noteq> None)"

lemma breaker_inv_step: "breaker_inv cfg g \<Longrightarrow> breaker_inv cfg (breaker_step cfg e g)"
  by (cases e; cases "state g")
     (auto simp: breaker_inv_def breaker_defs not_le split: option.splits if_splits)

lemma breaker_inv_run: "breaker_inv cfg g \<Longrightarrow> breaker_inv cfg (breaker_run cfg evs g)"
  by (induction evs arbitrary: g) (simp_all add: breaker_inv_step)

lemma breaker_inv_new: "breaker_inv cfg breaker_new"
  by (simp add: breaker_inv_def breaker_new_def)

lemma below_no_overflow: "(x::u32) = 0 \<or> x < y \<Longrightarrow> unat (x + 1) = unat x + 1"
proof -
  assume "x = 0 \<or> x < y"
  then have "unat x < 2 ^ 32 - 1"
  proof
    assume "x < y"
    moreover have "unat y < 2 ^ LENGTH(32)" by (rule unsigned_less)
    ultimately show ?thesis by (simp add: word_less_nat_alt)
  qed simp
  then show ?thesis by (simp add: unat_word_ariths)
qed

text \<open>
  C39: The breaker's counter never wraps. In every history from a fresh breaker the counter is
  below the threshold of its state, so the increments of \<open>on_success\<close> and \<open>on_failure\<close> are exact on
  \<open>u32\<close>, and an open breaker always knows when it opened.
\<close>

theorem breaker_reachable_inv:
  assumes "g = breaker_run cfg evs breaker_new"
  shows "(state g \<noteq> Open \<longrightarrow> unat (run g + 1) = unat (run g) + 1) \<and>
    (state g = Closed \<longrightarrow> run g = 0 \<or> run g < failure_threshold cfg) \<and>
    (state g = HalfOpen \<longrightarrow> run g = 0 \<or> run g < success_threshold cfg) \<and>
    (opened_at g = None \<longleftrightarrow> state g = Closed)"
proof -
  have "breaker_inv cfg g" unfolding assms by (rule breaker_inv_run[OF breaker_inv_new])
  then show ?thesis
    using below_no_overflow[of "run g" "failure_threshold cfg"] below_no_overflow[of "run g" "success_threshold cfg"]
    by (cases "state g") (auto simp: breaker_inv_def)
qed

lemma unat_Suc_of_nat: "n + 1 = unat (x :: 'a::len word) \<Longrightarrow> x = of_nat n + 1"
proof -
  assume "n + 1 = unat x"
  moreover have "of_nat (unat x) = x" by simp
  ultimately show ?thesis by (metis of_nat_1 of_nat_add)
qed

lemma fail_run_closed:
  "state g = Closed \<Longrightarrow> unat (run g) + length ts < unat (failure_threshold cfg) \<Longrightarrow>
   breaker_run cfg (map Fail ts) g = g\<lparr>run := run g + of_nat (length ts)\<rparr>"
proof (induction ts arbitrary: g)
  case (Cons t ts)
  have "unat (failure_threshold cfg) < 2 ^ LENGTH(32)" by (rule unsigned_less)
  with Cons.prems have r: "unat (run g + 1) = unat (run g) + 1" by (simp add: unat_word_ariths)
  with Cons.prems have "\<not> failure_threshold cfg \<le> run g + 1"
    by (simp add: word_le_nat_alt)
  with Cons.prems have "breaker_step cfg (Fail t) g = g\<lparr>run := run g + 1\<rparr>"
    by (simp add: breaker_defs)
  with Cons.IH[of "g\<lparr>run := run g + 1\<rparr>"] Cons.prems r show ?case by (simp add: ac_simps)
qed simp

text \<open>
  The breaker trips exactly at the threshold. Fewer than \<open>failure_threshold\<close> consecutive
  failures leave a fresh breaker closed and routing; the failure that reaches the threshold opens
  it at that failure's time.
\<close>

theorem breaker_trips_at_threshold:
  assumes "0 < unat (failure_threshold cfg)"
  shows "(length ts < unat (failure_threshold cfg) \<longrightarrow>
      fst (allows cfg now (breaker_run cfg (map Fail ts) breaker_new)) \<and>
      state (breaker_run cfg (map Fail ts) breaker_new) = Closed) \<and>
    (length ts + 1 = unat (failure_threshold cfg) \<longrightarrow>
      state (breaker_run cfg (map Fail (ts @ [t])) breaker_new) = Open \<and>
      opened_at (breaker_run cfg (map Fail (ts @ [t])) breaker_new) = Some t)"
proof (intro conjI impI)
  assume "length ts < unat (failure_threshold cfg)"
  then have g: "breaker_run cfg (map Fail ts) breaker_new = breaker_new\<lparr>run := of_nat (length ts)\<rparr>"
    by (subst fail_run_closed) (simp_all add: breaker_new_def)
  then show "fst (allows cfg now (breaker_run cfg (map Fail ts) breaker_new))"
    "state (breaker_run cfg (map Fail ts) breaker_new) = Closed"
    by (simp_all add: breaker_defs breaker_new_def)
next
  assume len: "length ts + 1 = unat (failure_threshold cfg)"
  then have g: "breaker_run cfg (map Fail ts) breaker_new = breaker_new\<lparr>run := of_nat (length ts)\<rparr>"
    by (subst fail_run_closed) (simp_all add: breaker_new_def)
  have "failure_threshold cfg = of_nat (length ts) + 1"
    using len by (rule unat_Suc_of_nat)
  with g show "state (breaker_run cfg (map Fail (ts @ [t])) breaker_new) = Open"
    "opened_at (breaker_run cfg (map Fail (ts @ [t])) breaker_new) = Some t"
    by (simp_all add: breaker_defs breaker_new_def)
qed

text \<open>The time an event carries, and whether it is a recorded success.\<close>

fun within :: "nat \<Rightarrow> nat \<Rightarrow> breaker_event \<Rightarrow> bool" where
  "within lo hi (Ask now) \<longleftrightarrow> lo \<le> now \<and> now < hi"
| "within lo hi Succeed \<longleftrightarrow> False"
| "within lo hi (Fail now) \<longleftrightarrow> lo \<le> now \<and> now < hi"
| "within lo hi (Query now) \<longleftrightarrow> lo \<le> now \<and> now < hi"

lemma open_stays:
  assumes "\<forall>e\<in>set evs. within t (t + open_cooldown cfg) e"
  shows "state g = Open \<Longrightarrow> opened_at g = Some t' \<Longrightarrow> t \<le> t' \<Longrightarrow>
    \<exists>t''. t \<le> t'' \<and> state (breaker_run cfg evs g) = Open \<and> opened_at (breaker_run cfg evs g) = Some t''"
  using assms
proof (induction evs arbitrary: g t')
  case (Cons e evs)
  have "\<exists>t1\<ge>t. state (breaker_step cfg e g) = Open \<and> opened_at (breaker_step cfg e g) = Some t1"
    using Cons.prems by (cases e) (auto simp: breaker_defs)
  with Cons.IH[of "breaker_step cfg e g"] Cons.prems show ?case by auto
qed auto

text \<open>
  A tripped breaker sheds load for the whole cooldown. Once open at time \<open>t\<close>, and as long as no
  success is recorded, it refuses every call asked for before \<open>t + open_cooldown\<close>, whatever failures
  and queries come in between; after the last failure's cooldown it admits a trial in the half-open
  state.
\<close>

theorem open_breaker_rejects:
  assumes "state g = Open" "opened_at g = Some t"
    and "\<forall>e\<in>set evs. within t (t + open_cooldown cfg) e"
    and "t \<le> now" "now < t + open_cooldown cfg"
  shows "\<not> fst (allows cfg now (breaker_run cfg evs g)) \<and>
    (\<exists>t'. opened_at (breaker_run cfg evs g) = Some t' \<and>
      (\<forall>later\<ge>t' + open_cooldown cfg.
         allows cfg later (breaker_run cfg evs g) = (True, (breaker_run cfg evs g)\<lparr>state := HalfOpen, run := 0\<rparr>)))"
proof -
  from open_stays[OF assms(3,1,2)] obtain t' where "t \<le> t'" "state (breaker_run cfg evs g) = Open"
    "opened_at (breaker_run cfg evs g) = Some t'" by auto
  then show ?thesis using assms by (auto simp: breaker_defs)
qed


lemma success_run_half_open:
  "state g = HalfOpen \<Longrightarrow> unat (run g) + n < unat (success_threshold cfg) \<Longrightarrow>
   breaker_run cfg (replicate n Succeed) g = g\<lparr>run := run g + of_nat n\<rparr>"
proof (induction n arbitrary: g)
  case (Suc n)
  have "unat (success_threshold cfg) < 2 ^ LENGTH(32)" by (rule unsigned_less)
  with Suc.prems have r: "unat (run g + 1) = unat (run g) + 1" by (simp add: unat_word_ariths)
  with Suc.prems have "\<not> success_threshold cfg \<le> run g + 1"
    by (simp add: word_le_nat_alt)
  with Suc.prems have "breaker_step cfg Succeed g = g\<lparr>run := run g + 1\<rparr>"
    by (simp add: breaker_defs)
  with Suc.IH[of "g\<lparr>run := run g + 1\<rparr>"] Suc.prems r show ?case by (simp add: ac_simps)
qed simp

text \<open>
  Recovery takes \<open>success_threshold\<close> successes in a row. From the start of the half-open state,
  that many successes reset the breaker to its fresh state and fewer do not close it; one failure
  after any shorter run of successes re-opens it with a new cooldown.
\<close>

theorem half_open_recovery:
  assumes "state g = HalfOpen" "run g = 0" "n < unat (success_threshold cfg)"
  shows "state (breaker_run cfg (replicate n Succeed) g) = HalfOpen \<and>
    breaker_run cfg (replicate n Succeed @ [Fail t]) g = \<lparr>state = Open, run = 0, opened_at = Some t\<rparr> \<and>
    (n + 1 = unat (success_threshold cfg) \<longrightarrow> breaker_run cfg (replicate n Succeed @ [Succeed]) g = breaker_new)"
proof -
  have g: "breaker_run cfg (replicate n Succeed) g = g\<lparr>run := of_nat n\<rparr>"
    using success_run_half_open[of g n cfg] assms by simp
  have "n + 1 = unat (success_threshold cfg) \<Longrightarrow> success_threshold cfg = of_nat n + 1"
    by (rule unat_Suc_of_nat)
  with g assms show ?thesis by (cases g) (simp add: breaker_defs breaker_new_def)
qed

text \<open>
  A success that arrives while the breaker is open closes it at once, inside the cooldown and
  with no half-open trial, whatever \<open>success_threshold\<close> asks for. The comment in \<open>on_success\<close> calls
  this the start of recovery; it is the end of it.
\<close>

theorem late_success_skips_recovery:
  assumes "state g = Open"
  shows "on_success cfg g = breaker_new \<and> fst (allows cfg now (on_success cfg g))"
  using assms by (cases g) (simp add: breaker_defs breaker_new_def)

section \<open>The retry policy\<close>

datatype retry_decision = Wait nat | GiveUp

record backoff =
  bo_first :: nat
  bo_max :: nat
  retry_after_cap :: nat
  attempts :: u32
  jitter :: bool

definition duration_saturating_mul :: "nat \<Rightarrow> u32 \<Rightarrow> nat" where
  "duration_saturating_mul d k = min (d * unat k) duration_max"

definition backoff_new :: "nat \<Rightarrow> nat \<Rightarrow> nat \<Rightarrow> u32 \<Rightarrow> backoff" where
  "backoff_new f m c a =
     \<lparr>bo_first = f, bo_max = m, retry_after_cap = c, attempts = max a 1, jitter = True\<rparr>"

definition without_jitter :: "backoff \<Rightarrow> backoff" where
  "without_jitter b = b\<lparr>jitter := False\<rparr>"

definition base_delay :: "backoff \<Rightarrow> u32 \<Rightarrow> nat" where
  "base_delay b attempt =
     (let shift = min (sat_sub attempt 1) 16
      in min (duration_saturating_mul (bo_first b) (push_bit (unat shift) 1)) (bo_max b))"

text \<open>
  The generator keeps its state in a thread-local cell; \<open>nanos\<close> and \<open>addr\<close> are the clock reading and
  the address a zero state is seeded from.
\<close>

definition next_u64 :: "u64 \<Rightarrow> u64 \<Rightarrow> u64 \<Rightarrow> u64 \<times> u64" where
  "next_u64 nanos addr s =
     (let x0 = (if s = 0 then (nanos XOR word_rotl 17 addr) OR 1 else s);
          x1 = x0 XOR push_bit 13 x0;
          x2 = x1 XOR drop_bit 7 x1;
          x3 = x2 XOR push_bit 17 x2
      in (x3 * 0x2545F4914F6CDD1D, x3))"

text \<open>The draw \<open>r\<close> is what \<open>next_u64\<close> returned.\<close>

definition apply_jitter :: "backoff \<Rightarrow> u64 \<Rightarrow> nat \<Rightarrow> nat" where
  "apply_jitter b r delay =
     (if \<not> jitter b then delay
      else let half = delay div 2
           in half + unat (r mod max (of_nat half) 1))"

definition decide :: "backoff \<Rightarrow> u64 \<Rightarrow> u32 \<Rightarrow> nat option \<Rightarrow> retry_decision" where
  "decide b r attempt retry_after =
     (if attempts b \<le> attempt then GiveUp
      else case retry_after of
          Some wait \<Rightarrow> if retry_after_cap b < wait then GiveUp else Wait (apply_jitter b r wait)
        | None \<Rightarrow> Wait (apply_jitter b r (base_delay b attempt)))"


subsection \<open>Bounds\<close>

lemma apply_jitter_bounds: "delay div 2 \<le> apply_jitter b r delay \<and> apply_jitter b r delay \<le> delay"
proof -
  let ?half = "delay div 2"
  let ?m = "max (of_nat ?half) 1 :: u64"
  have m: "?m \<noteq> 0" by (auto simp: max_def)
  have "unat (r mod ?m) < unat ?m"
    using m by (simp add: unat_mod_distrib unat_gt_0)
  moreover have "unat ?m \<le> max ?half 1"
  proof -
    have "take_bit 64 ?half \<le> max ?half 1"
      using take_bit_nat_less_eq_self[of 64 ?half] by linarith
    then show ?thesis by (auto simp: max_def unsigned_of_nat)
  qed
  ultimately have "unat (r mod ?m) \<le> ?half" by linarith
  then show ?thesis by (auto simp: apply_jitter_def Let_def)
qed

lemma base_delay_le_max: "base_delay b attempt \<le> bo_max b"
  by (simp add: base_delay_def Let_def)

text \<open>
  The retry policy is bounded. It gives up exactly when the attempt budget is spent or the
  provider asks for more than the cap; otherwise the wait lies between half and all of the requested
  or computed delay, so a worker is never held longer than the cap or the configured maximum, and no
  jitter draw makes the delay shorter than its half.
\<close>

theorem decide_bounded:
  "(decide b r attempt retry_after = GiveUp \<longleftrightarrow>
      attempts b \<le> attempt \<or> (\<exists>w. retry_after = Some w \<and> retry_after_cap b < w)) \<and>
   (\<forall>d. decide b r attempt retry_after = Wait d \<longrightarrow>
      (case retry_after of
         Some w \<Rightarrow> w div 2 \<le> d \<and> d \<le> w \<and> d \<le> retry_after_cap b
       | None \<Rightarrow> base_delay b attempt div 2 \<le> d \<and> d \<le> base_delay b attempt \<and> d \<le> bo_max b))"
proof -
  have "d \<le> c" if "d = apply_jitter b r w" "w \<le> c" for d w c
    using that apply_jitter_bounds[where delay = w] order_trans by blast
  then show ?thesis
    using apply_jitter_bounds base_delay_le_max[of b attempt]
    by (auto simp: decide_def split: option.splits if_splits)
qed

text \<open>
  Within the cap the server's number does not win: with jitter on (the production setting) a
  provider that asks for ten seconds can be called again after five.
\<close>

theorem retry_after_undercut:
  "decide (backoff_new 500000000 30000000000 60000000000 5) 0 1 (Some 10000000000) = Wait 5000000000"
  by (simp add: decide_def backoff_new_def apply_jitter_def max_def word_le_nat_alt)

lemma shift_le_16: "unat (min (sat_sub attempt 1) (16 :: u32)) = min (unat attempt - 1) 16"
  by (auto simp: min_def word_le_nat_alt unat_sat_sub)

text \<open>
  The computed delay is \<open>first * 2^(attempt - 1)\<close>, with the exponent capped at 16, clamped to
  the maximum, and no overflow on the way; it never decreases with the attempt.
\<close>

theorem base_delay_exact:
  "(bo_max b \<le> duration_max \<longrightarrow>
     base_delay b attempt = min (bo_first b * 2 ^ min (unat attempt - 1) 16) (bo_max b)) \<and>
   (attempt \<le> attempt' \<longrightarrow> base_delay b attempt \<le> base_delay b attempt')"
proof -
  have sh: "unat (push_bit n (1::u32)) = 2 ^ n" if "n \<le> 16" for n
  proof -
    have "(2::nat) ^ n \<le> 2 ^ 16" using that by (rule power_increasing) simp
    then have "(2::nat) ^ n < 2 ^ 32" by (rule le_less_trans) simp
    moreover have "push_bit n (1::u32) = of_nat (2 ^ n)" by (simp add: push_bit_eq_mult)
    ultimately show ?thesis using that by (simp add: unsigned_of_nat take_bit_nat_eq_self del: of_nat_power)
  qed
  have eq: "base_delay b a = min (min (bo_first b * 2 ^ min (unat a - 1) 16) duration_max) (bo_max b)" for a
    using sh[of "min (unat a - 1) 16"] by (simp add: base_delay_def Let_def duration_saturating_mul_def shift_le_16)
  have "base_delay b attempt \<le> base_delay b attempt'" if "attempt \<le> attempt'"
  proof -
    have "min (unat attempt - 1) 16 \<le> min (unat attempt' - 1) 16"
      using that by (auto simp: word_le_nat_alt)
    then have "(2::nat) ^ min (unat attempt - 1) 16 \<le> 2 ^ min (unat attempt' - 1) 16"
      by (rule power_increasing) simp
    then have "bo_first b * 2 ^ min (unat attempt - 1) 16 \<le> bo_first b * 2 ^ min (unat attempt' - 1) 16"
      by (rule mult_le_mono2)
    then show ?thesis unfolding eq by (intro min.mono) auto
  qed
  moreover have "bo_max b \<le> duration_max \<Longrightarrow> min (min x duration_max) (bo_max b) = min x (bo_max b)" for x
    by (simp add: min.absorb2 min.assoc)
  ultimately show ?thesis using eq[of attempt] by simp
qed

subsection \<open>The generator does not degenerate\<close>

lemma xor_push_bit_zero: "(x :: u64) XOR push_bit n x = 0 \<Longrightarrow> 0 < n \<Longrightarrow> x = 0"
proof (rule bit_word_eqI)
  fix i assume x: "x XOR push_bit n x = 0" and n: "0 < n" and "i < LENGTH(64)"
  have "\<not> bit x i"
  proof (induction i rule: less_induct)
    case (less i)
    have "bit (x XOR push_bit n x) i \<longleftrightarrow> False" by (simp add: x)
    then have "bit x i \<longleftrightarrow> bit (push_bit n x) i" by (simp add: bit_xor_iff)
    then show ?case using less[of "i - n"] n by (auto simp: bit_push_bit_iff)
  qed
  then show "bit x i \<longleftrightarrow> bit (0::u64) i" by simp
qed

lemma xor_drop_bit_zero: "(x :: u64) XOR drop_bit n x = 0 \<Longrightarrow> 0 < n \<Longrightarrow> x = 0"
proof (rule bit_word_eqI)
  fix i assume x: "x XOR drop_bit n x = 0" and n: "0 < n" and "i < LENGTH(64)"
  have "\<not> bit x i"
  proof (induction "64 - i" arbitrary: i rule: less_induct)
    case less
    have "bit (x XOR drop_bit n x) i \<longleftrightarrow> False" by (simp add: x)
    then have e: "bit x i \<longleftrightarrow> bit x (n + i)" by (simp add: bit_xor_iff bit_drop_bit_eq)
    show ?case
    proof (cases "i < 64")
      case True
      with less[of "n + i"] n e show ?thesis by auto
    next
      case False
      then show ?thesis using bit_imp_le_length[of x i] by auto
    qed
  qed
  then show "bit x i \<longleftrightarrow> bit (0::u64) i" by simp
qed

text \<open>
  The generator never falls back to the degenerate zero state: whatever the seed inputs and the
  current state, the state after a draw is non-zero, so it is seeded at most once per thread.
\<close>

theorem next_u64_state_nonzero: "snd (next_u64 nanos addr s) \<noteq> 0"
proof -
  define x0 where "x0 = (if s = 0 then (nanos XOR word_rotl 17 addr) OR 1 else s)"
  have "x0 \<noteq> 0"
  proof -
    have "bit ((nanos XOR word_rotl 17 addr) OR 1) 0" by (simp add: bit_or_iff)
    then have "(nanos XOR word_rotl 17 addr) OR 1 \<noteq> 0" by (metis bit_0_eq bot_apply bot_bool_def)
    then show ?thesis by (simp add: x0_def)
  qed
  then have x1: "x0 XOR push_bit 13 x0 \<noteq> 0" using xor_push_bit_zero[of x0 13] by auto
  define x1 where "x1 = x0 XOR push_bit 13 x0"
  have x2: "x1 XOR drop_bit 7 x1 \<noteq> 0" using xor_drop_bit_zero[of x1 7] x1 by (auto simp: x1_def)
  define x2 where "x2 = x1 XOR drop_bit 7 x1"
  have "x2 XOR push_bit 17 x2 \<noteq> 0" using xor_push_bit_zero[of x2 17] x2 by (auto simp: x2_def)
  then show ?thesis by (simp add: next_u64_def Let_def x0_def x1_def x2_def)
qed

section \<open>Witnesses\<close>

definition ex_cfg :: breaker_config where
  "ex_cfg = \<lparr>failure_threshold = 2, open_cooldown = 30, success_threshold = 2\<rparr>"

definition ex_open :: breaker_inner where
  "ex_open = \<lparr>state = Open, run = 0, opened_at = Some 100\<rparr>"

theorem breaker_reachable_inv_witness:
  "breaker_run ex_cfg [Fail 1] breaker_new = \<lparr>state = Closed, run = 1, opened_at = None\<rparr> \<and>
   (run (breaker_run ex_cfg [Fail 1] breaker_new) = 0 \<or>
    run (breaker_run ex_cfg [Fail 1] breaker_new) < failure_threshold ex_cfg)"
  using breaker_reachable_inv[of "breaker_run ex_cfg [Fail 1] breaker_new" ex_cfg "[Fail 1]"]
  by (simp add: breaker_new_def ex_cfg_def breaker_defs word_le_nat_alt word_less_nat_alt)

theorem breaker_trips_at_threshold_witness:
  "state (breaker_run ex_cfg (map Fail [3]) breaker_new) = Closed \<and>
   state (breaker_run ex_cfg (map Fail ([3] @ [4])) breaker_new) = Open"
  using breaker_trips_at_threshold[of ex_cfg "[3]" 0 4] by (simp add: ex_cfg_def)

theorem open_breaker_rejects_witness:
  "\<not> fst (allows ex_cfg 120 (breaker_run ex_cfg [Ask 101, Fail 110] ex_open))"
  using open_breaker_rejects[of ex_open 100 "[Ask 101, Fail 110]" ex_cfg 120] by (simp add: ex_open_def ex_cfg_def)

theorem half_open_recovery_witness:
  "breaker_run ex_cfg (replicate 1 Succeed @ [Succeed]) \<lparr>state = HalfOpen, run = 0, opened_at = Some 7\<rparr> = breaker_new"
  using half_open_recovery[of "\<lparr>state = HalfOpen, run = 0, opened_at = Some 7\<rparr>" 1 ex_cfg] by (simp add: ex_cfg_def)

theorem late_success_skips_recovery_witness:
  "state ex_open = Open \<and> on_success ex_cfg ex_open = breaker_new"
  using late_success_skips_recovery[of ex_open ex_cfg 101] by (simp add: ex_open_def)

theorem decide_bounded_witness:
  "decide (backoff_new 8 100 50 3) 5 1 (Some 20) = Wait 15 \<and> (15::nat) \<le> retry_after_cap (backoff_new 8 100 50 3)"
proof -
  have "decide (backoff_new 8 100 50 3) 5 1 (Some 20) = Wait 15"
    by (simp add: decide_def backoff_new_def apply_jitter_def max_def word_le_nat_alt Let_def)
  with decide_bounded[of "backoff_new 8 100 50 3" 5 1 "Some 20"] show ?thesis by simp
qed

theorem base_delay_exact_witness: "base_delay (backoff_new 8 100 50 3) 3 = 32"
  using base_delay_exact[of "backoff_new 8 100 50 3" 3 3] by (simp add: backoff_new_def duration_max_def)

end
