(* ===== verification/F64.thy ===== *)
theory F64
  imports Complex_Main Prelude
begin

text \<open>
  Rust's \<open>f64\<close> as the sources use it: IEEE 754 binary64 with round to nearest, ties to even. A
  finite value is the rational number it denotes, so an operation is the exact rational operation
  followed by \<open>round_f64\<close>. The sign of zero is not kept: no modelled code divides by a zero of either
  sign or prints one.

  Two conversions are not fixed by the language: \<open>f64::from(U256)\<close> belongs to the integer library, and
  the precision of \<open>powi\<close> is unspecified. They are the fields of a \<open>float_env\<close> that the definitions
  take as an argument; \<open>exact_env\<close> is the correctly rounded instance.
\<close>

datatype f64 = Fin rat | PInf | NInf | NaN

section \<open>Rounding\<close>

definition pow2 :: "int \<Rightarrow> rat" where
  "pow2 e = power_int 2 e"

fun bitlen :: "nat \<Rightarrow> nat" where
  "bitlen n = (if n = 0 then 0 else Suc (bitlen (n div 2)))"

declare bitlen.simps [simp del]

text \<open>\<open>ilog2 x\<close> is the exponent \<open>e\<close> with \<open>2^e \<le> x < 2^(e+1)\<close>, for positive \<open>x\<close>.\<close>

definition ilog2 :: "rat \<Rightarrow> int" where
  "ilog2 x = (let (n, d) = quotient_of x; e = int (bitlen (nat n)) - int (bitlen (nat d))
     in if pow2 e \<le> x then e else e - 1)"

definition round_even :: "rat \<Rightarrow> int" where
  "round_even q = (let f = \<lfloor>q\<rfloor>; r = q - of_int f
     in if r < 1 / 2 \<or> r = 1 / 2 \<and> even f then f else f + 1)"

definition round_f64 :: "rat \<Rightarrow> f64" where
  "round_f64 x = (if x = 0 then Fin 0
     else let e = max (ilog2 \<bar>x\<bar> - 52) (- 1074);
              r = of_int (round_even (\<bar>x\<bar> / pow2 e)) * pow2 e
          in if pow2 1024 \<le> r then (if x < 0 then NInf else PInf)
             else Fin (if x < 0 then - r else r))"

section \<open>Operations\<close>

fun is_finite :: "f64 \<Rightarrow> bool" where
  "is_finite (Fin x) \<longleftrightarrow> True"
| "is_finite _ \<longleftrightarrow> False"

fun f_neg :: "f64 \<Rightarrow> f64" where
  "f_neg (Fin x) = Fin (- x)"
| "f_neg PInf = NInf"
| "f_neg NInf = PInf"
| "f_neg NaN = NaN"

fun f_add :: "f64 \<Rightarrow> f64 \<Rightarrow> f64" where
  "f_add (Fin x) (Fin y) = round_f64 (x + y)"
| "f_add NaN _ = NaN"
| "f_add _ NaN = NaN"
| "f_add PInf NInf = NaN"
| "f_add NInf PInf = NaN"
| "f_add PInf _ = PInf"
| "f_add NInf _ = NInf"
| "f_add _ PInf = PInf"
| "f_add _ NInf = NInf"

definition f_sub :: "f64 \<Rightarrow> f64 \<Rightarrow> f64" where
  "f_sub a b = f_add a (f_neg b)"

fun inf_of_sign :: "rat \<Rightarrow> f64" where
  "inf_of_sign x = (if 0 < x then PInf else if x < 0 then NInf else NaN)"

fun f_mul :: "f64 \<Rightarrow> f64 \<Rightarrow> f64" where
  "f_mul (Fin x) (Fin y) = round_f64 (x * y)"
| "f_mul NaN _ = NaN"
| "f_mul _ NaN = NaN"
| "f_mul (Fin x) PInf = inf_of_sign x"
| "f_mul (Fin x) NInf = inf_of_sign (- x)"
| "f_mul PInf (Fin x) = inf_of_sign x"
| "f_mul NInf (Fin x) = inf_of_sign (- x)"
| "f_mul PInf PInf = PInf"
| "f_mul NInf NInf = PInf"
| "f_mul PInf NInf = NInf"
| "f_mul NInf PInf = NInf"

text \<open>Division by zero takes the zero as positive.\<close>

fun f_div :: "f64 \<Rightarrow> f64 \<Rightarrow> f64" where
  "f_div (Fin x) (Fin y) = (if y = 0 then inf_of_sign x else round_f64 (x / y))"
| "f_div NaN _ = NaN"
| "f_div _ NaN = NaN"
| "f_div (Fin _) PInf = Fin 0"
| "f_div (Fin _) NInf = Fin 0"
| "f_div PInf (Fin y) = (if y < 0 then NInf else PInf)"
| "f_div NInf (Fin y) = (if y < 0 then PInf else NInf)"
| "f_div _ _ = NaN"

fun f_lt :: "f64 \<Rightarrow> f64 \<Rightarrow> bool" where
  "f_lt (Fin x) (Fin y) \<longleftrightarrow> x < y"
| "f_lt NaN _ \<longleftrightarrow> False"
| "f_lt _ NaN \<longleftrightarrow> False"
| "f_lt _ NInf \<longleftrightarrow> False"
| "f_lt PInf _ \<longleftrightarrow> False"
| "f_lt NInf _ \<longleftrightarrow> True"
| "f_lt _ PInf \<longleftrightarrow> True"

fun f_le :: "f64 \<Rightarrow> f64 \<Rightarrow> bool" where
  "f_le (Fin x) (Fin y) \<longleftrightarrow> x \<le> y"
| "f_le NaN _ \<longleftrightarrow> False"
| "f_le _ NaN \<longleftrightarrow> False"
| "f_le NInf _ \<longleftrightarrow> True"
| "f_le _ PInf \<longleftrightarrow> True"
| "f_le _ _ \<longleftrightarrow> False"

text \<open>\<open>f64::min\<close> and \<open>f64::max\<close> return the other operand when one is \<open>NaN\<close>; \<open>clamp\<close> keeps a \<open>NaN\<close>.\<close>

definition f_min :: "f64 \<Rightarrow> f64 \<Rightarrow> f64" where
  "f_min a b = (if a = NaN then b else if b = NaN then a else if f_lt b a then b else a)"

definition f_max :: "f64 \<Rightarrow> f64 \<Rightarrow> f64" where
  "f_max a b = (if a = NaN then b else if b = NaN then a else if f_lt a b then b else a)"

definition f_clamp :: "f64 \<Rightarrow> f64 \<Rightarrow> f64 \<Rightarrow> f64" where
  "f_clamp lo hi x = (if f_lt x lo then lo else if f_lt hi x then hi else x)"

text \<open>The saturating cast \<open>as u32\<close>.\<close>

fun f_as_u32 :: "f64 \<Rightarrow> u32" where
  "f_as_u32 (Fin x) = (if x < 0 then 0 else if 2 ^ 32 - 1 \<le> x then - 1 else of_int \<lfloor>x\<rfloor>)"
| "f_as_u32 PInf = - 1"
| "f_as_u32 NInf = 0"
| "f_as_u32 NaN = 0"

text \<open>Exact integer to float conversions (\<open>f64::from(u32)\<close>, \<open>as f64\<close>).\<close>

definition f_of_nat :: "nat \<Rightarrow> f64" where
  "f_of_nat n = round_f64 (of_nat n)"

section \<open>The conversions outside the language\<close>

record float_env =
  f_of_u256 :: "u256 \<Rightarrow> f64"
  f_pow10 :: "u8 \<Rightarrow> f64"

definition exact_env :: float_env where
  "exact_env = \<lparr>f_of_u256 = (\<lambda>n. f_of_nat (unat n)), f_pow10 = (\<lambda>d. round_f64 (10 ^ unat d))\<rparr>"

text \<open>
  What the sources rely on: a \<open>U256\<close> widens to a finite value that is not negative and is zero only
  for zero, and a power of ten is a finite positive value.
\<close>

definition env_ok :: "float_env \<Rightarrow> bool" where
  "env_ok fe \<longleftrightarrow> (\<forall>n. \<exists>x. f_of_u256 fe n = Fin x \<and> 0 \<le> x \<and> (x = 0 \<longleftrightarrow> n = 0)) \<and>
     (\<forall>d. \<exists>x. f_pow10 fe d = Fin x \<and> 0 < x)"

section \<open>Facts\<close>

lemma pow2_pos [simp]: "0 < pow2 e"
  by (simp add: pow2_def)

lemma pow2_nonzero [simp]: "pow2 e \<noteq> 0"
  by (simp add: pow2_def)

lemma pow2_less: "pow2 a < pow2 b \<longleftrightarrow> a < b"
  using power_int_strict_increasing[of a b "2::rat"] power_int_increasing[of b a "2::rat"]
  by (auto simp: pow2_def not_less[symmetric])

lemma pow2_add: "pow2 (a + b) = pow2 a * pow2 b"
  by (simp add: pow2_def power_int_add)

lemma pow2_diff: "pow2 (a - b) = pow2 a / pow2 b"
  by (simp add: pow2_def power_int_diff)

lemma pow2_of_nat: "pow2 (int n) = 2 ^ n"
  by (simp add: pow2_def)

lemma pow2_1 [simp]: "pow2 1 = 2"
  by (simp add: pow2_def)

lemma bitlen_bounds: "0 < n \<Longrightarrow> 2 ^ bitlen n \<le> 2 * n \<and> n < 2 ^ bitlen n"
proof (induction n rule: bitlen.induct)
  case (1 n)
  show ?case
  proof (cases "n = 1")
    case True
    then show ?thesis using bitlen.simps[of 1] bitlen.simps[of 0] by simp
  next
    case False
    with 1 have "2 ^ bitlen (n div 2) \<le> 2 * (n div 2)" "n div 2 < 2 ^ bitlen (n div 2)" by auto
    moreover have "n = 2 * (n div 2) + n mod 2" "n mod 2 < 2" by simp_all
    moreover have "bitlen n = Suc (bitlen (n div 2))" using 1 by (subst bitlen.simps) simp
    ultimately show ?thesis by (simp only: power_Suc) linarith
  qed
qed

lemma ilog2_bounds:
  assumes "0 < x"
  shows "pow2 (ilog2 x) \<le> x \<and> x < pow2 (ilog2 x + 1)"
proof -
  obtain n d where q: "quotient_of x = (n, d)" by fastforce
  have d: "0 < d" using quotient_of_denom_pos[OF q] .
  have x: "x = of_int n / of_int d" by (rule quotient_of_div[OF q])
  have n: "0 < n" using assms d by (simp add: x zero_less_divide_iff)
  define bn bd where "bn = bitlen (nat n)" and "bd = bitlen (nat d)"
  have b: "2 ^ bn \<le> 2 * nat n" "nat n < 2 ^ bn" "2 ^ bd \<le> 2 * nat d" "nat d < 2 ^ bd"
    using bitlen_bounds[of "nat n"] bitlen_bounds[of "nat d"] n d by (simp_all add: bn_def bd_def)
  have nd: "rat_of_int n = of_nat (nat n)" "rat_of_int d = of_nat (nat d)" using n d by simp_all
  have r: "2 ^ bn \<le> 2 * (of_int n :: rat)" "of_int n < (2 ^ bn :: rat)"
    "2 ^ bd \<le> 2 * (of_int d :: rat)" "of_int d < (2 ^ bd :: rat)"
    using b(1,3)[THEN of_nat_mono[where 'a = rat]] b(2,4)[THEN less_imp_of_nat_less[where 'a = rat]]
    by (simp_all only: nd of_nat_mult of_nat_power of_nat_numeral)
  have up: "x < pow2 (int bn - int bd + 1)"
  proof -
    have "of_int n * 2 ^ bd < (2 ^ bn :: rat) * (2 * of_int d)"
      using r(2,3) n d by (intro mult_less_le_imp_less) auto
    then show ?thesis using d by (simp add: x pow2_add pow2_diff pow2_of_nat field_simps)
  qed
  have lo: "pow2 (int bn - int bd - 1) \<le> x"
  proof -
    have "(2 ^ bn :: rat) * of_int d \<le> (2 * of_int n) * 2 ^ bd"
      using r n d by (intro mult_mono) auto
    then show ?thesis using d by (simp add: x pow2_diff pow2_add pow2_of_nat field_simps)
  qed
  show ?thesis using up lo by (simp add: ilog2_def q bn_def[symmetric] bd_def[symmetric] Let_def)
qed

lemma ilog2_eq: "pow2 k \<le> x \<Longrightarrow> x < pow2 (k + 1) \<Longrightarrow> ilog2 x = k"
proof -
  assume k: "pow2 k \<le> x" "x < pow2 (k + 1)"
  then have "0 < x" using pow2_pos[of k] by linarith
  note b = ilog2_bounds[OF this]
  have "pow2 (ilog2 x) < pow2 (k + 1)" "pow2 k < pow2 (ilog2 x + 1)" using b k by linarith+
  then show ?thesis by (simp add: pow2_less)
qed

lemma round_even_eq: "\<bar>q - of_int m\<bar> < 1 / 2 \<Longrightarrow> round_even q = m"
proof -
  assume q: "\<bar>q - of_int m\<bar> < 1 / 2"
  show ?thesis
  proof (cases "of_int m \<le> q")
    case True
    then have "\<lfloor>q\<rfloor> = m" using q by (intro floor_unique) linarith+
    then have "q - of_int \<lfloor>q\<rfloor> < 1 / 2" using q by linarith
    with \<open>\<lfloor>q\<rfloor> = m\<close> show ?thesis by (simp add: round_even_def Let_def)
  next
    case False
    then have "\<lfloor>q\<rfloor> = m - 1" using q by (intro floor_unique) (simp; linarith)+
    moreover from this have "1 / 2 < q - of_int \<lfloor>q\<rfloor>" using q False by (simp; linarith)
    ultimately show ?thesis by (simp add: round_even_def Let_def)
  qed
qed

text \<open>Certificates for the rounding of a concrete positive number.\<close>

lemma round_f64_eqI:
  assumes "pow2 k \<le> x" "x < pow2 (k + 1)" "e = max (k - 52) (- 1074)"
    and "\<bar>x / pow2 e - of_int m\<bar> < 1 / 2" "of_int m * pow2 e < pow2 1024"
  shows "round_f64 x = Fin (of_int m * pow2 e)"
proof -
  have "0 < x" using assms(1) pow2_pos[of k] by linarith
  moreover have "max (ilog2 x - 52) (- 1074) = e" using ilog2_eq[OF assms(1,2)] assms(3) by simp
  moreover have "round_even (x / pow2 e) = m" by (rule round_even_eq[OF assms(4)])
  ultimately show ?thesis using assms(5) by (simp add: round_f64_def Let_def)
qed

lemma round_even_nonneg: "0 \<le> q \<Longrightarrow> 0 \<le> round_even q"
  by (simp add: round_even_def Let_def)

lemma round_f64_nonneg: "0 \<le> x \<Longrightarrow> round_f64 x = PInf \<or> (\<exists>r\<ge>0. round_f64 x = Fin r)"
proof -
  assume "0 \<le> x"
  then have "0 \<le> (of_int (round_even (\<bar>x\<bar> / pow2 e)) * pow2 e :: rat)" for e
    using round_even_nonneg[of "\<bar>x\<bar> / pow2 e"] by (intro mult_nonneg_nonneg) (simp_all add: less_imp_le)
  with \<open>0 \<le> x\<close> show ?thesis by (auto simp: round_f64_def Let_def)
qed

text \<open>A non-negative float: finite and at least zero, or the positive infinity.\<close>

fun f_nonneg :: "f64 \<Rightarrow> bool" where
  "f_nonneg (Fin x) \<longleftrightarrow> 0 \<le> x"
| "f_nonneg PInf \<longleftrightarrow> True"
| "f_nonneg _ \<longleftrightarrow> False"

lemma f_nonneg_round [simp]: "0 \<le> x \<Longrightarrow> f_nonneg (round_f64 x)"
  using round_f64_nonneg[of x] by auto

lemma f_nonneg_add: "f_nonneg a \<Longrightarrow> f_nonneg b \<Longrightarrow> f_nonneg (f_add a b)"
  by (cases a; cases b) auto

lemma f_nonneg_not_NaN: "f_nonneg a \<Longrightarrow> a \<noteq> NaN"
  by auto

lemma f_le_clamp: "x \<noteq> NaN \<Longrightarrow> f_le (Fin l) (f_clamp (Fin l) (Fin h) x) \<and> f_le (f_clamp (Fin l) (Fin h) x) (Fin h)"
  if "l \<le> h"
  using that by (cases x) (auto simp: f_clamp_def not_less)

lemma literal_tenth: "round_f64 (1 / 10) = Fin (3602879701896397 / 36028797018963968)"
  using round_f64_eqI[of "-4" "1 / 10" "-56" 7205759403792794] by (simp add: pow2_def power_int_def power_divide)


lemma round_even_bounds: "q - 1 \<le> of_int (round_even q) \<and> of_int (round_even q) \<le> q + 1"
  using of_int_floor_le[of q] floor_correct[of q] by (auto simp: round_even_def Let_def; linarith)

lemma round_f64_normal:
  assumes "1 \<le> x" "x < pow2 1022"
  shows "\<exists>r>0. round_f64 x = Fin r"
proof -
  let ?k = "ilog2 x"
  have x: "0 < x" using assms by simp
  note b = ilog2_bounds[OF x]
  have "pow2 ?k < pow2 1022" "pow2 0 < pow2 (?k + 1)"
    using b assms by (linarith, simp add: pow2_def[of 0])
  then have k: "0 \<le> ?k" "?k < 1022" by (simp_all add: pow2_less)
  define e where "e = ?k - 52"
  have e: "max (?k - 52) (- 1074) = e" using k by (simp add: e_def)
  have kk: "pow2 ?k = 2 ^ 52 * pow2 e" "pow2 (?k + 1) = 2 ^ 53 * pow2 e"
    using pow2_add[of 52 e] pow2_add[of 53 e] pow2_of_nat[of 52] pow2_of_nat[of 53]
    by (simp_all add: e_def add.commute[of _ "1::int"])
  have q: "2 ^ 52 \<le> x / pow2 e" "x / pow2 e < 2 ^ 53"
    using b unfolding kk by (simp_all add: pos_le_divide_eq pos_divide_less_eq)
  define m :: rat where "m = of_int (round_even (x / pow2 e))"
  have m: "0 < m" "m \<le> 2 ^ 54" using round_even_bounds[of "x / pow2 e"] q by (simp_all add: m_def; linarith)+
  have "m * pow2 e \<le> 2 ^ 54 * pow2 e" using m by (intro mult_right_mono) (simp_all add: less_imp_le)
  also have "\<dots> = pow2 (54 + e)" using pow2_add[of 54 e] pow2_of_nat[of 54] by simp
  also have "\<dots> < pow2 1024" using k by (simp add: pow2_less e_def)
  finally have "round_f64 x = Fin (m * pow2 e)" using x e by (simp add: round_f64_def Let_def m_def)
  moreover have "0 < m * pow2 e" using m by (intro mult_pos_pos) simp_all
  ultimately show ?thesis by blast
qed

lemma pow_less_pow2_1022:
  "n < 2 ^ 256 \<Longrightarrow> rat_of_nat n < pow2 1022" "d < 256 \<Longrightarrow> (10::rat) ^ d < pow2 1022"
proof -
  have p: "pow2 1022 = 2 ^ 1022" using pow2_of_nat[of 1022] by simp
  assume "n < 2 ^ 256"
  then have "rat_of_nat n < of_nat (2 ^ 256)" by (simp only: of_nat_less_iff)
  also have "\<dots> = 2 ^ 256" by simp
  also have "(2::rat) ^ 256 < 2 ^ 1022" by (intro power_strict_increasing) simp_all
  finally show "rat_of_nat n < pow2 1022" by (simp add: p)
next
  have p: "pow2 1022 = 2 ^ 1022" using pow2_of_nat[of 1022] by simp
  assume "d < 256"
  then have "(10::rat) ^ d \<le> 10 ^ 255" by (intro power_increasing) simp_all
  also have "(10::rat) ^ 255 \<le> 16 ^ 255" by (intro power_mono) simp_all
  also have "(16::rat) ^ 255 = 2 ^ 1020" using power_mult[of "2::rat" 4 255] by simp
  also have "(2::rat) ^ 1020 < 2 ^ 1022" by (intro power_strict_increasing) simp_all
  finally show "(10::rat) ^ d < pow2 1022" by (simp add: p)
qed

lemma exact_env_ok: "env_ok exact_env"
proof -
  have "\<exists>x. f_of_nat (unat n) = Fin x \<and> 0 \<le> x \<and> (x = 0 \<longleftrightarrow> n = 0)" for n :: u256
  proof (cases "n = 0")
    case True
    then show ?thesis by (simp add: f_of_nat_def round_f64_def)
  next
    case False
    have "unat n < 2 ^ LENGTH(256)" by (rule unsigned_less)
    moreover have "0 < unat n" using False by (simp add: unat_gt_0)
    moreover obtain k where k_def: "k = unat n" by blast
    ultimately have "0 < k" "k < 2 ^ 256" by simp_all
    then have "1 \<le> rat_of_nat k" "rat_of_nat k < pow2 1022"
      using pow_less_pow2_1022(1)[of k] by simp_all
    from round_f64_normal[OF this] False show ?thesis unfolding f_of_nat_def k_def[symmetric] by auto
  qed
  moreover have "\<exists>x. round_f64 (10 ^ unat d) = Fin x \<and> 0 < x" for d :: u8
  proof -
    have "unat d < 2 ^ LENGTH(8)" by (rule unsigned_less)
    then have "(10::rat) ^ unat d < pow2 1022" by (intro pow_less_pow2_1022) simp
    from round_f64_normal[OF _ this] show ?thesis by auto
  qed
  ultimately show ?thesis by (simp add: env_ok_def exact_env_def)
qed

section \<open>Rounding is monotone\<close>

lemma round_even_mono: "p \<le> q \<Longrightarrow> round_even p \<le> round_even q"
proof -
  assume pq: "p \<le> q"
  then have f: "\<lfloor>p\<rfloor> \<le> \<lfloor>q\<rfloor>" by (rule floor_mono)
  show ?thesis
  proof (cases "\<lfloor>p\<rfloor> = \<lfloor>q\<rfloor>")
    case True
    with pq show ?thesis by (auto simp: round_even_def Let_def)
  next
    case False
    with f have "\<lfloor>p\<rfloor> + 1 \<le> \<lfloor>q\<rfloor>" by simp
    moreover have "round_even p \<le> \<lfloor>p\<rfloor> + 1" "\<lfloor>q\<rfloor> \<le> round_even q" by (auto simp: round_even_def Let_def)
    ultimately show ?thesis by linarith
  qed
qed

lemma round_even_of_int [simp]: "round_even (of_int m) = m"
  by (simp add: round_even_def)

definition f_exp :: "rat \<Rightarrow> int" where
  "f_exp x = max (ilog2 x - 52) (- 1074)"

definition f_mag :: "rat \<Rightarrow> rat" where
  "f_mag x = of_int (round_even (x / pow2 (f_exp x))) * pow2 (f_exp x)"

lemma round_f64_pos: "0 < x \<Longrightarrow> round_f64 x = (if pow2 1024 \<le> f_mag x then PInf else Fin (f_mag x))"
  by (simp add: round_f64_def f_mag_def f_exp_def Let_def)

lemma pow2_le: "pow2 a \<le> pow2 b \<longleftrightarrow> a \<le> b"
  using pow2_less[of b a] by (auto simp: not_less[symmetric])

lemma f_exp_mono: "0 < x \<Longrightarrow> x \<le> y \<Longrightarrow> f_exp x \<le> f_exp y"
proof -
  assume x: "0 < x" "x \<le> y"
  then have "pow2 (ilog2 x) < pow2 (ilog2 y + 1)"
    using ilog2_bounds[of x] ilog2_bounds[of y] by linarith
  then show ?thesis by (simp add: pow2_less f_exp_def)
qed

lemma f_mag_upper: "0 < x \<Longrightarrow> f_mag x \<le> pow2 (f_exp x + 53)"
proof -
  assume x: "0 < x"
  have "x < pow2 (ilog2 x + 1)" using ilog2_bounds[OF x] by simp
  also have "\<dots> \<le> pow2 (f_exp x + 53)" by (simp add: pow2_le f_exp_def)
  finally have "x / pow2 (f_exp x) \<le> of_int (2 ^ 53)"
    using pow2_of_nat[of 53] by (simp add: pos_divide_le_eq pow2_add mult.commute)
  then have "round_even (x / pow2 (f_exp x)) \<le> 2 ^ 53"
    using round_even_mono round_even_of_int by metis
  then have "(of_int (round_even (x / pow2 (f_exp x))) :: rat) \<le> of_int (2 ^ 53)" by (simp only: of_int_le_iff)
  then have "f_mag x \<le> of_int (2 ^ 53) * pow2 (f_exp x)"
    unfolding f_mag_def by (intro mult_right_mono) (simp_all add: less_imp_le)
  then show ?thesis using pow2_of_nat[of 53] by (simp add: pow2_add mult.commute)
qed

lemma f_mag_lower: "0 < x \<Longrightarrow> - 1074 < f_exp x \<Longrightarrow> pow2 (f_exp x + 52) \<le> f_mag x"
proof -
  assume x: "0 < x" "- 1074 < f_exp x"
  then have "pow2 (f_exp x + 52) \<le> x" using ilog2_bounds[OF x(1)] by (simp add: f_exp_def max_def split: if_splits)
  then have "of_int (2 ^ 52) \<le> x / pow2 (f_exp x)"
    using pow2_of_nat[of 52] by (simp add: pos_le_divide_eq pow2_add mult.commute)
  then have "2 ^ 52 \<le> round_even (x / pow2 (f_exp x))"
    using round_even_mono round_even_of_int by metis
  then have "of_int (2 ^ 52) \<le> (of_int (round_even (x / pow2 (f_exp x))) :: rat)" by (simp only: of_int_le_iff)
  then have "of_int (2 ^ 52) * pow2 (f_exp x) \<le> f_mag x"
    unfolding f_mag_def by (intro mult_right_mono) (simp_all add: less_imp_le)
  then show ?thesis using pow2_of_nat[of 52] by (simp add: pow2_add mult.commute)
qed

lemma f_mag_mono: "0 < x \<Longrightarrow> x \<le> y \<Longrightarrow> f_mag x \<le> f_mag y"
proof -
  assume x: "0 < x" "x \<le> y"
  then have e: "f_exp x \<le> f_exp y" by (rule f_exp_mono)
  show ?thesis
  proof (cases "f_exp x = f_exp y")
    case True
    have "x / pow2 (f_exp y) \<le> y / pow2 (f_exp y)" using x by (intro divide_right_mono) (simp_all add: less_imp_le)
    then have "round_even (x / pow2 (f_exp y)) \<le> round_even (y / pow2 (f_exp y))" by (rule round_even_mono)
    then show ?thesis unfolding f_mag_def True by (intro mult_right_mono) (simp_all add: less_imp_le)
  next
    case False
    with e have lt: "f_exp x < f_exp y" by simp
    then have "- 1074 < f_exp y" by (simp add: f_exp_def max_def split: if_splits)
    have "f_mag x \<le> pow2 (f_exp x + 53)" using x by (intro f_mag_upper)
    also have "\<dots> \<le> pow2 (f_exp y + 52)" using lt by (simp add: pow2_le)
    also have "\<dots> \<le> f_mag y" using x \<open>- 1074 < f_exp y\<close> by (intro f_mag_lower) auto
    finally show ?thesis .
  qed
qed

lemma f_mag_nonneg: "0 < x \<Longrightarrow> 0 \<le> f_mag x"
  unfolding f_mag_def using round_even_nonneg[of "x / pow2 (f_exp x)"]
  by (intro mult_nonneg_nonneg) (simp_all add: less_imp_le)

lemma round_f64_mono: "0 \<le> x \<Longrightarrow> x \<le> y \<Longrightarrow> f_le (round_f64 x) (round_f64 y)"
proof (cases "x = 0")
  case True
  assume "0 \<le> x" "x \<le> y"
  moreover have "round_f64 x = Fin 0" using True by (simp add: round_f64_def)
  ultimately show ?thesis using round_f64_nonneg[of y] True by auto
next
  case False
  assume "0 \<le> x" "x \<le> y"
  with False have "0 < x" "0 < y" "f_mag x \<le> f_mag y" by (simp_all add: f_mag_mono)
  then show ?thesis by (auto simp: round_f64_pos)
qed

lemma f_le_trans: "f_le a b \<Longrightarrow> f_le b c \<Longrightarrow> f_le a c"
  by (cases a; cases b; cases c) auto

lemma round_f64_int:
  assumes "0 < m" "m < 2 ^ 53"
  shows "round_f64 (of_int m) = Fin (of_int m)"
proof -
  let ?x = "rat_of_int m"
  have x: "0 < ?x" using assms by simp
  have "?x < of_int (2 ^ 53)" using assms(2) by (simp only: of_int_less_iff)
  then have x53: "?x < pow2 53" using pow2_of_nat[of 53] by simp
  note b = ilog2_bounds[OF x]
  have k: "ilog2 ?x < 53" using b x53 pow2_less[of "ilog2 ?x" 53] by linarith
  have "pow2 0 \<le> ?x" using assms by (simp add: pow2_def)
  with b have "pow2 0 < pow2 (ilog2 ?x + 1)" by linarith
  then have k0: "0 \<le> ilog2 ?x" by (simp add: pow2_less)
  have e: "f_exp ?x \<le> 0" "f_exp ?x = ilog2 ?x - 52" using k k0 by (auto simp: f_exp_def)
  obtain j where j: "f_exp ?x = - int j" using e(1) by (metis neg_0_le_iff_le nonneg_int_cases minus_minus)
  have "?x / pow2 (f_exp ?x) = of_int (m * 2 ^ j)"
    by (simp add: j pow2_def power_int_minus divide_inverse)
  then have "f_mag ?x = of_int (m * 2 ^ j) * pow2 (- int j)" by (simp add: f_mag_def j del: of_int_mult)
  also have "\<dots> = ?x" by (simp add: pow2_def power_int_minus)
  finally have "f_mag ?x = ?x" .
  moreover have "?x < pow2 1024" using x53 pow2_less[of 53 1024] by linarith
  ultimately show ?thesis using x by (simp add: round_f64_pos)
qed

text \<open>Evaluation of small integer literals.\<close>

lemma round_f64_numeral: "(numeral n :: int) < 2 ^ 53 \<Longrightarrow> round_f64 (numeral n) = Fin (numeral n)"
  using round_f64_int[of "numeral n"] by simp

lemma round_f64_01: "round_f64 0 = Fin 0" "round_f64 1 = Fin 1"
  using round_f64_int[of 1] by (simp_all add: round_f64_def)

lemmas f64_eval = round_f64_numeral round_f64_01 f_of_nat_def f_sub_def f_min_def f_max_def

end
