(* ===== verification/Detector_Api.thy ===== *)
theory Detector_Api
  imports F64 Chain_Types
begin

text \<open>
  The seam every detector is written against (\<open>crates/detector-api/src\<close>) and the value types it
  takes from \<open>crates/events/src/primitives.rs\<close> and \<open>scoring.rs\<close>: confidences, USD prices and amounts,
  basis points, the decoded block (\<open>Enrichment\<close>, \<open>DetectionCtx\<close>), the \<open>Evidence\<close> a detector
  returns, and the severity policy.

  The trait \<open>DetectorPlugin\<close> is the locale \<open>detector_plugin\<close>: what the emission path may rely on from
  any detector. Each detector theory interprets it on its own \<open>detect\<close>.

  A JSON detail document is a value of the detector's own detail record (\<open>None\<close> is JSON null): the
  serialisation itself belongs to a library.
\<close>

section \<open>Validated numbers\<close>

type_synonym confidence = f64
type_synonym usd_amount = f64
type_synonym usd_price = f64
type_synonym bps = u32

definition confidence_new :: "f64 \<Rightarrow> confidence" where
  "confidence_new v = f_clamp (Fin 0) (Fin 1) v"

definition confidence_certain :: confidence where
  "confidence_certain = Fin 1"

definition confidence_try_new :: "f64 \<Rightarrow> f64 + confidence" where
  "confidence_try_new v = (if f_le (Fin 0) v \<and> f_le v (Fin 1) then Inr v else Inl v)"

definition usd_amount_new :: "f64 \<Rightarrow> usd_amount" where
  "usd_amount_new v = (if is_finite v then f_max v (Fin 0) else Fin 0)"

definition usd_amount_try_new :: "f64 \<Rightarrow> f64 + usd_amount" where
  "usd_amount_try_new v = (if is_finite v \<and> f_le (Fin 0) v then Inr v else Inl v)"

definition usd_price_try_new :: "f64 \<Rightarrow> f64 + usd_price" where
  "usd_price_try_new v = (if is_finite v \<and> f_le (Fin 0) v then Inr v else Inl v)"

definition excludes :: "usd_price \<Rightarrow> f64 option \<Rightarrow> bool" where
  "excludes p v = (case v of None \<Rightarrow> False | Some x \<Rightarrow> f_lt x p)"

section \<open>Basis points\<close>

definition bps_from_ratio_u256 :: "float_env \<Rightarrow> u256 \<Rightarrow> u256 \<Rightarrow> bps option" where
  "bps_from_ratio_u256 fe num den =
     (if den = 0 then None
      else let b = f_mul (f_div (f_of_u256 fe num) (f_of_u256 fe den)) (Fin 10000)
           in Some (f_as_u32 (f_min b (f_of_nat (2 ^ 32 - 1)))))"

definition bps_from_ratio_f64 :: "f64 \<Rightarrow> f64 \<Rightarrow> bps option" where
  "bps_from_ratio_f64 num den =
     (if \<not> is_finite den \<or> f_le den (Fin 0) \<or> \<not> is_finite num \<or> f_lt num (Fin 0) then None
      else let b = f_mul (f_div num den) (Fin 10000)
           in if is_finite b then Some (f_as_u32 (f_min b (f_of_nat (2 ^ 32 - 1)))) else None)"

section \<open>The decoded block\<close>

record token_meta =
  tm_address :: address
  tm_symbol :: "string option"
  tm_decimals :: u8

definition to_whole :: "float_env \<Rightarrow> token_meta \<Rightarrow> u256 \<Rightarrow> f64" where
  "to_whole fe t amount = f_div (f_of_u256 fe amount) (f_pow10 fe (tm_decimals t))"

record pool_state =
  ps_address :: address
  ps_token0 :: address
  ps_token1 :: address
  ps_reserve0 :: u256
  ps_reserve1 :: u256

definition reserve_of :: "pool_state \<Rightarrow> address \<Rightarrow> u256 option" where
  "reserve_of p token =
     (if token = ps_token0 p then Some (ps_reserve0 p)
      else if token = ps_token1 p then Some (ps_reserve1 p) else None)"

definition other_token :: "pool_state \<Rightarrow> address \<Rightarrow> address option" where
  "other_token p token =
     (if token = ps_token0 p then Some (ps_token1 p)
      else if token = ps_token1 p then Some (ps_token0 p) else None)"

record tx_gas =
  gas_used :: u64
  effective_gas_price :: "128 word"

record token_transfer =
  tt_token :: address
  tt_from :: address
  tt_to :: address
  tt_amount :: u256

record swap =
  sw_pool :: address
  token_in :: address
  token_out :: address
  amount_in :: u256
  amount_out :: u256

record tx_actions =
  ta_hash :: b256
  ta_from :: address
  ta_to :: "address option"
  ta_swaps :: "swap list"
  ta_transfers :: "token_transfer list"
  ta_gas :: "tx_gas option"

definition tx_actions_new :: "b256 \<Rightarrow> address \<Rightarrow> address option \<Rightarrow> tx_actions" where
  "tx_actions_new h f t = \<lparr>ta_hash = h, ta_from = f, ta_to = t, ta_swaps = [], ta_transfers = [], ta_gas = None\<rparr>"

record enrichment =
  en_tokens :: "(address \<times> token_meta) list"
  en_pools :: "(address \<times> pool_state) list"
  en_prices :: "(address \<times> usd_price) list"
  en_txs :: "(b256 \<times> tx_actions) list"

definition en_default :: enrichment where
  "en_default = \<lparr>en_tokens = [], en_pools = [], en_prices = [], en_txs = []\<rparr>"

definition en_token :: "enrichment \<Rightarrow> address \<Rightarrow> token_meta option" where
  "en_token e a = hm_get (en_tokens e) a"

definition en_pool :: "enrichment \<Rightarrow> address \<Rightarrow> pool_state option" where
  "en_pool e a = hm_get (en_pools e) a"

definition en_price :: "enrichment \<Rightarrow> address \<Rightarrow> usd_price option" where
  "en_price e a = hm_get (en_prices e) a"

definition en_tx :: "enrichment \<Rightarrow> b256 \<Rightarrow> tx_actions option" where
  "en_tx e h = hm_get (en_txs e) h"

definition usd_value :: "float_env \<Rightarrow> enrichment \<Rightarrow> address \<Rightarrow> u256 \<Rightarrow> f64 option" where
  "usd_value fe e token amount =
     do {
       t \<leftarrow> en_token e token;
       price \<leftarrow> en_price e token;
       let value = f_mul (to_whole fe t amount) price;
       if is_finite value then Some value else None
     }"

text \<open>The builder's maps move into the enrichment unchanged, so the builder is an enrichment.\<close>

definition add_token :: "token_meta \<Rightarrow> enrichment \<Rightarrow> enrichment" where
  "add_token t e = e\<lparr>en_tokens := hm_insert (tm_address t) t (en_tokens e)\<rparr>"

definition add_pool :: "pool_state \<Rightarrow> enrichment \<Rightarrow> enrichment" where
  "add_pool p e = e\<lparr>en_pools := hm_insert (ps_address p) p (en_pools e)\<rparr>"

definition set_price :: "address \<Rightarrow> usd_price \<Rightarrow> enrichment \<Rightarrow> enrichment" where
  "set_price a p e = e\<lparr>en_prices := hm_insert a p (en_prices e)\<rparr>"

definition add_tx :: "tx_actions \<Rightarrow> enrichment \<Rightarrow> enrichment" where
  "add_tx t e = e\<lparr>en_txs := hm_insert (ta_hash t) t (en_txs e)\<rparr>"

record detection_ctx =
  ctx_chain :: u64
  ctx_block :: block_ref
  ctx_txs :: "b256 list"
  ctx_enrichment :: enrichment

section \<open>Evidence and its severity\<close>

datatype alert_kind = Sandwich | Arbitrage | Liquidation | Flashloan | Rugpull | WashTrading
  | AddressPoisoning | Anomaly

record 'd evidence =
  ev_kind :: alert_kind
  ev_txs :: "b256 list"
  ev_confidence :: confidence
  ev_detail :: "'d option"
  ev_impact_usd :: "usd_amount option"

definition evidence_new :: "alert_kind \<Rightarrow> b256 list \<Rightarrow> confidence \<Rightarrow> 'd evidence" where
  "evidence_new k txs c =
     \<lparr>ev_kind = k, ev_txs = txs, ev_confidence = c, ev_detail = None, ev_impact_usd = None\<rparr>"

definition with_detail :: "'d \<Rightarrow> 'd evidence \<Rightarrow> 'd evidence" where
  "with_detail d ev = ev\<lparr>ev_detail := Some d\<rparr>"

definition with_impact_usd :: "usd_amount option \<Rightarrow> 'd evidence \<Rightarrow> 'd evidence" where
  "with_impact_usd i ev = ev\<lparr>ev_impact_usd := i\<rparr>"

definition from_detail :: "alert_kind \<Rightarrow> b256 list \<Rightarrow> confidence \<Rightarrow> 'd \<Rightarrow> 'd evidence" where
  "from_detail k txs c d = with_detail d (evidence_new k txs c)"

datatype severity = Low | Medium | High | Critical

datatype suggested_action = Monitor | Investigate | Escalate | EscalateImmediately

definition severity_band :: "usd_amount option \<Rightarrow> confidence \<Rightarrow> severity" where
  "severity_band impact c = (case impact of
      None \<Rightarrow> Low
    | Some i \<Rightarrow>
        let weighted = f_mul i c
        in if f_le (Fin 1000000) weighted then Critical
           else if f_le (Fin 100000) weighted then High
           else if f_le (Fin 10000) weighted then Medium
           else Low)"

fun suggested_action_for :: "severity \<Rightarrow> suggested_action" where
  "suggested_action_for Low = Monitor"
| "suggested_action_for Medium = Investigate"
| "suggested_action_for High = Escalate"
| "suggested_action_for Critical = EscalateImmediately"

section \<open>What the numbers guarantee\<close>

definition conf_ok :: "confidence \<Rightarrow> bool" where
  "conf_ok c \<longleftrightarrow> f_le (Fin 0) c \<and> f_le c (Fin 1)"

definition usd_ok :: "f64 \<Rightarrow> bool" where
  "usd_ok v \<longleftrightarrow> (\<exists>x\<ge>0. v = Fin x)"

lemma conf_ok_new: "v \<noteq> NaN \<Longrightarrow> conf_ok (confidence_new v)"
  using f_le_clamp[of 0 1 v] by (simp add: conf_ok_def confidence_new_def)

lemma conf_ok_new_nonneg: "f_nonneg v \<Longrightarrow> conf_ok (confidence_new v)"
  by (intro conf_ok_new f_nonneg_not_NaN)

lemma usd_ok_new [simp]: "usd_ok (usd_amount_new v)"
  by (cases v) (auto simp: usd_ok_def usd_amount_new_def f_max_def)

lemma f_nonneg_f_div: "f_nonneg a \<Longrightarrow> f_nonneg b \<Longrightarrow> is_finite a \<Longrightarrow> b \<noteq> Fin 0 \<Longrightarrow> f_nonneg (f_div a b)"
  by (cases a; cases b) auto

lemma f_nonneg_f_mul: "f_nonneg a \<Longrightarrow> usd_ok b \<Longrightarrow> f_nonneg (f_mul a b) \<or> f_mul a b = NaN"
  by (cases a) (auto simp: usd_ok_def)

lemma usd_value_wf:
  assumes "env_ok fe" "\<forall>a p. en_price e a = Some p \<longrightarrow> usd_ok p" "usd_value fe e token amount = Some v"
  shows "usd_ok v"
proof -
  from assms(3) obtain t p where tp: "en_token e token = Some t" "en_price e token = Some p"
    "v = f_mul (to_whole fe t amount) p" "is_finite v"
    by (auto simp: usd_value_def Let_def bind_eq_Some_conv split: if_splits)
  obtain x y where xy: "f_of_u256 fe amount = Fin x" "0 \<le> x" "f_pow10 fe (tm_decimals t) = Fin y" "0 < y"
    using assms(1) unfolding env_ok_def by metis
  then have "f_nonneg (to_whole fe t amount)" by (auto simp: to_whole_def)
  with tp assms(2) have "f_nonneg v \<or> v = NaN" using f_nonneg_f_mul by blast
  with tp(4) show ?thesis by (cases v) (auto simp: usd_ok_def)
qed

text \<open>
  A USD valuation is always a finite, non-negative amount. With validated prices, whatever the
  token's decimals and the raw amount, \<open>usd_value\<close> either abstains or returns a finite value of at
  least zero, so no infinity, \<open>NaN\<close> or negative figure reaches a threshold comparison.
\<close>

theorem usd_value_ok:
  assumes "env_ok fe" "\<forall>a p. en_price e a = Some p \<longrightarrow> usd_ok p" "usd_value fe e token amount = Some v"
  shows "usd_ok v"
  using assms by (rule usd_value_wf)

fun severity_rank :: "severity \<Rightarrow> nat" where
  "severity_rank Low = 0"
| "severity_rank Medium = 1"
| "severity_rank High = 2"
| "severity_rank Critical = 3"

instantiation severity :: linorder
begin

definition less_eq_severity :: "severity \<Rightarrow> severity \<Rightarrow> bool" where
  "less_eq_severity a b \<longleftrightarrow> severity_rank a \<le> severity_rank b"

definition less_severity :: "severity \<Rightarrow> severity \<Rightarrow> bool" where
  "less_severity a b \<longleftrightarrow> severity_rank a < severity_rank b"

instance
proof
  fix x y :: severity
  show "x \<le> y \<Longrightarrow> y \<le> x \<Longrightarrow> x = y"
    by (cases x; cases y) (auto simp: less_eq_severity_def)
qed (auto simp: less_eq_severity_def less_severity_def)

end

lemma f_mul_mono:
  assumes "usd_ok i" "usd_ok j" "f_le i j" "conf_ok c" "conf_ok d" "f_le c d"
  shows "f_le (f_mul i c) (f_mul j d)"
proof -
  obtain x y where xy: "i = Fin x" "j = Fin y" "0 \<le> x" "x \<le> y" using assms(1-3) by (auto simp: usd_ok_def)
  obtain u v where uv: "c = Fin u" "d = Fin v" "0 \<le> u" "u \<le> v"
    using assms(4-6) by (cases c; cases d) (auto simp: conf_ok_def)
  have "0 \<le> x * u" "x * u \<le> y * v" using xy uv by (auto intro: mult_mono)
  then show ?thesis by (simp add: xy uv round_f64_mono)
qed

text \<open>
  The severity policy is monotone: a larger impact at a confidence no smaller never lands in a
  lower band (for validated amounts and confidences, with the rounding of the product included), and
  an unpriced finding lands in the lowest.
\<close>

theorem severity_band_mono:
  assumes "usd_ok i" "usd_ok j" "f_le i j" "conf_ok c" "conf_ok d" "f_le c d"
  shows "severity_band (Some i) c \<le> severity_band (Some j) d \<and> severity_band None c \<le> severity_band (Some j) d"
proof -
  note m = f_mul_mono[OF assms]
  have "f_le k (f_mul i c) \<Longrightarrow> f_le k (f_mul j d)" for k using m f_le_trans by blast
  then show ?thesis by (auto simp: severity_band_def Let_def less_eq_severity_def)
qed

lemma f_as_u32_le:
  assumes "f_le x (Fin (of_nat n))" "n < 2 ^ 32 - 1"
  shows "f_as_u32 x \<le> of_nat n"
proof (cases x)
  case (Fin q)
  show ?thesis
  proof (cases "q < 0")
    case False
    with Fin assms have q: "0 \<le> q" "q \<le> of_nat n" by auto
    have "(of_nat n :: rat) < of_nat (2 ^ 32 - 1)" using assms(2) by (simp only: of_nat_less_iff)
    then have "q < 2 ^ 32 - 1" using q by simp
    moreover have "\<lfloor>q\<rfloor> \<le> int n" using q by (simp add: floor_le_iff) 
    then have "nat \<lfloor>q\<rfloor> \<le> n" by simp
    moreover have "int (nat \<lfloor>q\<rfloor>) = \<lfloor>q\<rfloor>" using q by simp
    then have "of_int \<lfloor>q\<rfloor> = (of_nat (nat \<lfloor>q\<rfloor>) :: u32)" by (metis of_int_of_nat_eq)
    moreover have "unat (of_nat (nat \<lfloor>q\<rfloor>) :: u32) \<le> unat (of_nat n :: u32)" if "nat \<lfloor>q\<rfloor> \<le> n"
      using that assms(2) by (simp only: unsigned_of_nat) (simp add: take_bit_nat_eq_self)
    ultimately show ?thesis
      using Fin False by (simp add: word_le_nat_alt)
  qed (simp add: Fin)
qed (use assms in auto)

text \<open>
  A share is at most 100 percent: when the numerator does not exceed a non-zero denominator,
  the basis points computed from the two integers through floats are at most 10000, and there is a
  figure whenever the denominator is not zero. The only thing asked of the integer library is that
  its widening is monotone.
\<close>

theorem bps_share_bounded:
  assumes "env_ok fe" "num \<le> den" "den \<noteq> 0" "f_le (f_of_u256 fe num) (f_of_u256 fe den)"
  shows "\<exists>b. bps_from_ratio_u256 fe num den = Some b \<and> b \<le> 10000"
proof -
  obtain x y where xy: "f_of_u256 fe num = Fin x" "0 \<le> x" "f_of_u256 fe den = Fin y" "0 \<le> y" "y = 0 \<longleftrightarrow> den = 0"
    using assms(1) unfolding env_ok_def by metis
  with assms have y: "0 < y" "x \<le> y" by auto
  have one: "round_f64 1 = Fin 1" using round_f64_int[of 1] by simp
  have "0 \<le> x / y" "x / y \<le> 1" using xy y by simp_all
  from round_f64_mono[OF this] one obtain q where q: "round_f64 (x / y) = Fin q" "0 \<le> q" "q \<le> 1"
    using round_f64_nonneg[of "x / y"] \<open>0 \<le> x / y\<close> by auto
  have "round_f64 10000 = Fin 10000" using round_f64_int[of 10000] by simp
  moreover have "f_le (round_f64 (q * 10000)) (round_f64 10000)" using q by (intro round_f64_mono) auto
  ultimately obtain r where r: "round_f64 (q * 10000) = Fin r" "0 \<le> r" "r \<le> 10000"
    using round_f64_nonneg[of "q * 10000"] q(2) by auto
  have big: "f_of_nat (2 ^ 32 - 1) = Fin 4294967295" using round_f64_int[of 4294967295] by (simp add: f_of_nat_def)
  have "bps_from_ratio_u256 fe num den = Some (f_as_u32 (Fin r))"
    using xy y q r assms(3) big by (simp add: bps_from_ratio_u256_def Let_def f_min_def)
  moreover have "f_as_u32 (Fin r) \<le> of_nat 10000" using r by (intro f_as_u32_le) auto
  ultimately show ?thesis by simp
qed

section \<open>The detector interface\<close>

text \<open>Actions are filed under their own hash; the builder keeps it so.\<close>

definition en_wf :: "enrichment \<Rightarrow> bool" where
  "en_wf e \<longleftrightarrow> (\<forall>h t. en_tx e h = Some t \<longrightarrow> ta_hash t = h)"

lemma en_wf_default: "en_wf en_default"
  by (simp add: en_wf_def en_tx_def en_default_def)

lemma en_wf_builder:
  assumes "en_wf e"
  shows "en_wf (add_tx t e)" "en_wf (add_token m e)" "en_wf (add_pool p e)" "en_wf (set_price a u e)"
  using assms
  by (auto simp: en_wf_def en_tx_def add_tx_def add_token_def add_pool_def set_price_def hm_get_insert split: if_splits)

text \<open>A transaction the detector may speak about: in the block and decoded.\<close>

definition tx_known :: "detection_ctx \<Rightarrow> b256 \<Rightarrow> bool" where
  "tx_known ctx h \<longleftrightarrow> h \<in> set (ctx_txs ctx) \<and> en_tx (ctx_enrichment ctx) h \<noteq> None"

definition evidence_ok :: "detection_ctx \<Rightarrow> 'd evidence \<Rightarrow> bool" where
  "evidence_ok ctx ev \<longleftrightarrow> ev_txs ev \<noteq> [] \<and> (\<forall>h\<in>set (ev_txs ev). tx_known ctx h) \<and> conf_ok (ev_confidence ev) \<and>
     (case ev_impact_usd ev of None \<Rightarrow> True | Some i \<Rightarrow> usd_ok i)"

text \<open>
  The contract of \<open>DetectorPlugin::detect\<close> the emission path rests on: a finding implicates at least
  one transaction, only decoded transactions of this block, at a confidence between zero and one,
  with a well-formed impact.
\<close>

locale detector_plugin =
  fixes detect :: "detection_ctx \<Rightarrow> 'd evidence list"
  assumes evidence_wf: "en_wf (ctx_enrichment ctx) \<Longrightarrow> ev \<in> set (detect ctx) \<Longrightarrow> evidence_ok ctx ev"
begin

lemma evidence_tx_enriched:
  assumes "en_wf (ctx_enrichment ctx)" "ev \<in> set (detect ctx)" "h \<in> set (ev_txs ev)"
  shows "\<exists>t. en_tx (ctx_enrichment ctx) h = Some t \<and> ta_hash t = h \<and> h \<in> set (ctx_txs ctx)"
proof -
  from evidence_wf[OF assms(1,2)] assms(3) have "tx_known ctx h" by (simp add: evidence_ok_def)
  then obtain t where t: "en_tx (ctx_enrichment ctx) h = Some t" "h \<in> set (ctx_txs ctx)"
    by (auto simp: tx_known_def)
  with assms(1) show ?thesis by (auto simp: en_wf_def)
qed

lemma no_evidence_without_enrichment:
  assumes "ctx_enrichment ctx = en_default"
  shows "detect ctx = []"
proof (rule ccontr)
  assume "detect ctx \<noteq> []"
  then obtain ev where ev: "ev \<in> set (detect ctx)" by fastforce
  have "en_wf (ctx_enrichment ctx)" using assms en_wf_default by simp
  from evidence_wf[OF this ev] obtain h where "h \<in> set (ev_txs ev)" "tx_known ctx h"
    by (auto simp: evidence_ok_def dest: hd_in_set)
  then show False by (simp add: tx_known_def assms en_tx_def en_default_def)
qed

end

text \<open>
  The contract of a \<open>CrossBlockDetector\<close>. \<open>below n st\<close> says that everything accumulated in \<open>st\<close> comes
  from heights under \<open>n\<close>. A finding read off the state after this block was folded in implicates at
  least one transaction of this very block; others may come from earlier blocks of the window.
\<close>

definition cross_evidence_ok :: "detection_ctx \<Rightarrow> 'd evidence \<Rightarrow> bool" where
  "cross_evidence_ok ctx ev \<longleftrightarrow> (\<exists>h\<in>set (ev_txs ev). tx_known ctx h) \<and> conf_ok (ev_confidence ev) \<and>
     (case ev_impact_usd ev of None \<Rightarrow> True | Some i \<Rightarrow> usd_ok i)"

locale cross_block_detector =
  fixes init :: 's
    and observe :: "detection_ctx \<Rightarrow> 's \<Rightarrow> 's"
    and xdetect :: "detection_ctx \<Rightarrow> 's \<Rightarrow> 'd evidence list"
    and below :: "nat \<Rightarrow> 's \<Rightarrow> bool"
  assumes init_below: "below n init"
    and observe_below: "below (br_number (ctx_block ctx)) st \<Longrightarrow> br_number (ctx_block ctx) < n \<Longrightarrow> below n (observe ctx st)"
    and evidence_current: "en_wf (ctx_enrichment ctx) \<Longrightarrow> below (br_number (ctx_block ctx)) st \<Longrightarrow>
      ev \<in> set (xdetect ctx (observe ctx st)) \<Longrightarrow> cross_evidence_ok ctx ev"
begin

lemma feed_below:
  "sorted_wrt (\<lambda>a b. br_number (ctx_block a) < br_number (ctx_block b)) (cs @ [c]) \<Longrightarrow>
   below (br_number (ctx_block c)) (fold observe cs init)"
proof (induction cs arbitrary: c rule: rev_induct)
  case (snoc d cs)
  then have "below (br_number (ctx_block d)) (fold observe cs init)" "br_number (ctx_block d) < br_number (ctx_block c)"
    by (auto simp: sorted_wrt_append)
  then show ?case by (simp add: observe_below)
qed (simp add: init_below)

lemma feed_evidence_current:
  assumes "sorted_wrt (\<lambda>a b. br_number (ctx_block a) < br_number (ctx_block b)) (cs @ [c])" "en_wf (ctx_enrichment c)"
    and "ev \<in> set (xdetect c (fold observe (cs @ [c]) init))"
  shows "cross_evidence_ok c ev"
  using evidence_current[OF assms(2) feed_below[OF assms(1)]] assms(3) by simp

end

lemma evidence_ok_impact: "evidence_ok ctx (with_impact_usd (map_option usd_amount_new u) ev) \<longleftrightarrow>
    ev_txs ev \<noteq> [] \<and> (\<forall>h\<in>set (ev_txs ev). tx_known ctx h) \<and> conf_ok (ev_confidence ev)"
  by (auto simp: evidence_ok_def with_impact_usd_def split: option.splits)

lemma evidence_fields [simp]:
  "ev_txs (from_detail k txs c d) = txs" "ev_confidence (from_detail k txs c d) = c"
  "ev_kind (from_detail k txs c d) = k" "ev_detail (from_detail k txs c d) = Some d"
  "ev_txs (with_impact_usd i ev) = ev_txs ev" "ev_confidence (with_impact_usd i ev) = ev_confidence ev"
  "ev_kind (with_impact_usd i ev) = ev_kind ev" "ev_detail (with_impact_usd i ev) = ev_detail ev"
  "ev_impact_usd (with_impact_usd i ev) = i"
  by (simp_all add: from_detail_def with_detail_def evidence_new_def with_impact_usd_def)

text \<open>The decoded transactions of a block, in block order: where every \<open>Block\<close> detector starts.\<close>

definition block_actions :: "detection_ctx \<Rightarrow> tx_actions list" where
  "block_actions ctx = List.map_filter (en_tx (ctx_enrichment ctx)) (ctx_txs ctx)"

lemma block_actions_known:
  assumes "en_wf (ctx_enrichment ctx)" "t \<in> set (block_actions ctx)"
  shows "tx_known ctx (ta_hash t)"
  using assms by (auto simp: block_actions_def map_filter_def tx_known_def en_wf_def)


section \<open>Confidence scores\<close>

text \<open>
  The literals of the confidence policies and the arithmetic on them stay finite or saturate
  upwards; they never make a \<open>NaN\<close>, so the clamp always lands in the unit interval.
\<close>

lemma usd_ok_lit: "0 \<le> c \<Longrightarrow> c \<le> 1 \<Longrightarrow> usd_ok (round_f64 c)"
proof -
  assume "0 \<le> c" "c \<le> 1"
  then have "f_le (round_f64 c) (round_f64 1)" by (rule round_f64_mono)
  then have "f_le (round_f64 c) (Fin 1)" using round_f64_int[of 1] by simp
  with round_f64_nonneg[OF \<open>0 \<le> c\<close>] show ?thesis by (auto simp: usd_ok_def)
qed

lemma f_of_nat_int: "0 < n \<Longrightarrow> n < 2 ^ 53 \<Longrightarrow> f_of_nat n = Fin (of_nat n)"
  using round_f64_int[of "int n"] by (simp add: f_of_nat_def)

lemma usd_ok_of_nat: "n < 2 ^ 53 \<Longrightarrow> usd_ok (f_of_nat n)"
  using f_of_nat_int[of n] by (cases "n = 0") (auto simp: usd_ok_def f_of_nat_def round_f64_def)

lemma usd_ok_of_u32: "usd_ok (f_of_nat (unat (x :: u32)))"
proof -
  have "unat x < 2 ^ LENGTH(32)" by (rule unsigned_less)
  then show ?thesis by (intro usd_ok_of_nat) simp
qed

lemma f_nonneg_usd_ok: "usd_ok a \<Longrightarrow> f_nonneg a"
  by (auto simp: usd_ok_def)

lemma f_nonneg_mul_fin: "usd_ok a \<Longrightarrow> usd_ok b \<Longrightarrow> f_nonneg (f_mul a b)"
  by (auto simp: usd_ok_def)

lemma f_nonneg_min: "f_nonneg a \<Longrightarrow> f_nonneg b \<Longrightarrow> f_nonneg (f_min a b)"
  by (simp add: f_min_def)

lemmas score_intros = f_nonneg_add f_nonneg_min f_nonneg_mul_fin f_nonneg_round usd_ok_lit usd_ok_of_nat usd_ok_of_u32

section \<open>Witnesses\<close>

definition ex_enrichment :: enrichment where
  "ex_enrichment = set_price 7 (Fin 2) (add_token \<lparr>tm_address = 7, tm_symbol = None, tm_decimals = 0\<rparr> en_default)"

lemma ex_usd_value: "usd_value exact_env ex_enrichment 7 5 = Some (Fin 10)"
proof -
  have "round_f64 1 = Fin 1" "round_f64 5 = Fin 5" "round_f64 10 = Fin 10"
    using round_f64_int[of 1] round_f64_int[of 5] round_f64_int[of 10] by simp_all
  then show ?thesis
    by (simp add: usd_value_def ex_enrichment_def set_price_def add_token_def en_default_def en_token_def
        en_price_def to_whole_def exact_env_def f_of_nat_def)
qed

theorem usd_value_ok_witness: "usd_value exact_env ex_enrichment 7 5 = Some (Fin 10) \<and> usd_ok (Fin 10)"
proof -
  have "\<forall>a p. en_price ex_enrichment a = Some p \<longrightarrow> usd_ok p"
    by (simp add: ex_enrichment_def set_price_def add_token_def en_default_def en_price_def usd_ok_def)
  from usd_value_ok[OF exact_env_ok this ex_usd_value] ex_usd_value show ?thesis by simp
qed

theorem severity_band_mono_witness:
  "severity_band (Some (Fin 20000)) (Fin 1) = Medium \<and> severity_band (Some (Fin 300000)) (Fin 1) = High \<and>
   severity_band (Some (Fin 20000)) (Fin 1) \<le> severity_band (Some (Fin 300000)) (Fin 1)"
proof -
  have "round_f64 20000 = Fin 20000" "round_f64 300000 = Fin 300000"
    using round_f64_int[of 20000] round_f64_int[of 300000] by simp_all
  then have "severity_band (Some (Fin 20000)) (Fin 1) = Medium" "severity_band (Some (Fin 300000)) (Fin 1) = High"
    by (simp_all add: severity_band_def)
  then show ?thesis
    using severity_band_mono[of "Fin 20000" "Fin 300000" "Fin 1" "Fin 1"] by (simp add: usd_ok_def conf_ok_def)
qed

theorem bps_share_bounded_witness: "\<exists>b. bps_from_ratio_u256 exact_env 3 4 = Some b \<and> b \<le> 10000"
  by (rule bps_share_bounded)
     (use exact_env_ok f_of_nat_int[of 3] f_of_nat_int[of 4] in \<open>simp_all add: exact_env_def word_le_nat_alt\<close>)

end
