(* ===== verification/Sandwich_Detector.thy ===== *)
theory Sandwich_Detector
  imports Detector_Api
begin

text \<open>
  The sandwich detector (\<open>crates/sandwich-detector/src/lib.rs\<close>): gather the swaps of a block by pool,
  pair each frontrun with the nearest qualifying backrun of the same sender, and emit one finding per
  pair, marking the transactions of a finding as consumed.

  The two nested loops over the entries of a pool are a recursion over its suffixes
  (\<open>entries[fi..]\<close>) and a \<open>find\<close> of the first backrun that passes every guard. The set \<open>consumed\<close> is a
  list of indices.
\<close>

section \<open>Model\<close>

record sandwich_config =
  sc_min_profit_usd :: usd_price

definition sandwich_default_config :: sandwich_config where
  "sandwich_default_config = \<lparr>sc_min_profit_usd = Fin 10\<rparr>"

record swap_entry =
  se_idx :: nat
  se_tx :: b256
  se_from :: address
  se_swap :: swap

definition same_direction :: "swap_entry \<Rightarrow> swap_entry \<Rightarrow> bool" where
  "same_direction a b \<longleftrightarrow> sw_pool (se_swap a) = sw_pool (se_swap b) \<and>
     token_in (se_swap a) = token_in (se_swap b) \<and> token_out (se_swap a) = token_out (se_swap b)"

definition opposite_direction :: "swap_entry \<Rightarrow> swap_entry \<Rightarrow> bool" where
  "opposite_direction a b \<longleftrightarrow> sw_pool (se_swap a) = sw_pool (se_swap b) \<and>
     token_in (se_swap a) = token_out (se_swap b) \<and> token_out (se_swap a) = token_in (se_swap b)"

record sandwich_detail =
  sd_pool :: address
  sd_base_token :: address
  sd_target_token :: address
  sd_attacker :: address
  sd_frontrun_tx :: b256
  sd_backrun_tx :: b256
  sd_victim_txs :: "b256 list"
  sd_profit_base :: u256
  sd_profit_usd :: "f64 option"

definition sandwich_score :: "f64 option \<Rightarrow> nat \<Rightarrow> f64" where
  "sandwich_score profit_usd victims =
     f_add (if profit_usd \<noteq> None then round_f64 (70 / 100) else round_f64 (55 / 100))
       (f_mul (round_f64 (5 / 100)) (f_of_nat (min (victims - 1) 4)))"

definition sandwich_evidence ::
  "swap_entry \<Rightarrow> swap_entry \<Rightarrow> swap_entry list \<Rightarrow> address \<Rightarrow> u256 \<Rightarrow> f64 option \<Rightarrow> sandwich_detail evidence" where
  "sandwich_evidence front bk victims base_token profit profit_usd =
     with_impact_usd (map_option usd_amount_new profit_usd)
       (from_detail Sandwich (se_tx front # map se_tx victims @ [se_tx bk])
         (confidence_new (sandwich_score profit_usd (length victims)))
         \<lparr>sd_pool = sw_pool (se_swap front), sd_base_token = base_token,
          sd_target_token = token_out (se_swap front), sd_attacker = se_from front,
          sd_frontrun_tx = se_tx front, sd_backrun_tx = se_tx bk,
          sd_victim_txs = map se_tx victims, sd_profit_base = profit, sd_profit_usd = profit_usd\<rparr>)"

definition victims_between :: "nat list \<Rightarrow> swap_entry \<Rightarrow> swap_entry list \<Rightarrow> swap_entry \<Rightarrow> swap_entry list" where
  "victims_between consumed front rest bk =
     filter (\<lambda>e. se_from e \<noteq> se_from front \<and> se_idx e \<notin> set consumed \<and> same_direction e front)
       (takeWhile (\<lambda>e. se_idx e < se_idx bk) rest)"

definition sandwich_profit :: "swap_entry \<Rightarrow> swap_entry \<Rightarrow> u256" where
  "sandwich_profit front bk = sat_sub (amount_out (se_swap bk)) (amount_in (se_swap front))"

text \<open>The guards of the inner loop: the backrun on which it does not \<open>continue\<close>.\<close>

definition closes ::
  "float_env \<Rightarrow> sandwich_config \<Rightarrow> enrichment \<Rightarrow> nat list \<Rightarrow> swap_entry \<Rightarrow> swap_entry list \<Rightarrow> swap_entry \<Rightarrow> bool" where
  "closes fe cfg e consumed front rest bk \<longleftrightarrow>
     \<not> (se_idx bk \<in> set consumed \<or> se_from bk \<noteq> se_from front \<or> \<not> opposite_direction bk front) \<and>
     victims_between consumed front rest bk \<noteq> [] \<and>
     sandwich_profit front bk \<noteq> 0 \<and>
     \<not> excludes (sc_min_profit_usd cfg) (usd_value fe e (token_in (se_swap front)) (sandwich_profit front bk))"

fun scan_pool ::
  "float_env \<Rightarrow> sandwich_config \<Rightarrow> enrichment \<Rightarrow> swap_entry list \<Rightarrow> nat list \<Rightarrow> sandwich_detail evidence list" where
  "scan_pool fe cfg e [] consumed = []"
| "scan_pool fe cfg e (front # rest) consumed =
     (if se_idx front \<in> set consumed then scan_pool fe cfg e rest consumed
      else case find (closes fe cfg e consumed front rest) rest of
          None \<Rightarrow> scan_pool fe cfg e rest consumed
        | Some bk \<Rightarrow>
            let victims = victims_between consumed front rest bk;
                base_token = token_in (se_swap front);
                profit = sandwich_profit front bk
            in sandwich_evidence front bk victims base_token profit (usd_value fe e base_token profit)
               # scan_pool fe cfg e rest (se_idx front # se_idx bk # map se_idx victims @ consumed))"

text \<open>The swaps of one transaction, tagged, and the grouping by pool in block order.\<close>

definition tx_entries :: "enrichment \<Rightarrow> nat \<times> b256 \<Rightarrow> swap_entry list" where
  "tx_entries e p = (case en_tx e (snd p) of
      None \<Rightarrow> []
    | Some t \<Rightarrow> map (\<lambda>s. \<lparr>se_idx = fst p, se_tx = ta_hash t, se_from = ta_from t, se_swap = s\<rparr>) (ta_swaps t))"

definition push_entry :: "swap_entry \<Rightarrow> (address \<times> swap_entry list) list \<Rightarrow> (address \<times> swap_entry list) list" where
  "push_entry s m = bm_update (sw_pool (se_swap s)) (\<lambda>v. (case v of None \<Rightarrow> [] | Some es \<Rightarrow> es) @ [s]) m"

definition by_pool :: "detection_ctx \<Rightarrow> (address \<times> swap_entry list) list" where
  "by_pool ctx = fold (\<lambda>p m. fold push_entry (tx_entries (ctx_enrichment ctx) p) m) (List.enumerate 0 (ctx_txs ctx)) []"

definition sandwich_detect :: "float_env \<Rightarrow> sandwich_config \<Rightarrow> detection_ctx \<Rightarrow> sandwich_detail evidence list" where
  "sandwich_detect fe cfg ctx =
     concat (map (\<lambda>(_, entries). scan_pool fe cfg (ctx_enrichment ctx) entries []) (by_pool ctx))"

section \<open>Grouping\<close>

definition block_entries :: "detection_ctx \<Rightarrow> swap_entry list" where
  "block_entries ctx = concat (map (tx_entries (ctx_enrichment ctx)) (List.enumerate 0 (ctx_txs ctx)))"

abbreviation pool_of :: "swap_entry \<Rightarrow> address" where
  "pool_of s \<equiv> sw_pool (se_swap s)"

lemma fold_push_spec:
  "bm_sorted m \<Longrightarrow> bm_sorted (fold push_entry ss m) \<and>
   hm_get (fold push_entry ss m) p =
     (let old = (case hm_get m p of None \<Rightarrow> [] | Some es \<Rightarrow> es); new = filter (\<lambda>s. pool_of s = p) ss
      in if hm_get m p = None \<and> new = [] then None else Some (old @ new))"
proof (induction ss arbitrary: m)
  case Nil
  then show ?case by (auto split: option.splits)
next
  case (Cons s ss)
  have b: "bm_sorted (push_entry s m)" using Cons.prems by (simp add: push_entry_def bm_sorted_update)
  show ?case
    using Cons.IH[OF b] bm_get_update[OF Cons.prems, of "pool_of s" _ p]
    by (auto simp: push_entry_def Let_def split: option.splits)
qed

lemma by_pool_flat: "by_pool ctx = fold push_entry (block_entries ctx) []"
proof -
  have "fold (\<lambda>p m. fold push_entry (f p) m) ps m = fold push_entry (concat (map f ps)) m" for f :: "nat \<times> b256 \<Rightarrow> swap_entry list" and ps m
    by (induction ps arbitrary: m) auto
  then show ?thesis by (simp add: by_pool_def block_entries_def)
qed

lemma by_pool_in:
  "(p, es) \<in> set (by_pool ctx) \<longleftrightarrow> es \<noteq> [] \<and> es = filter (\<lambda>s. pool_of s = p) (block_entries ctx)"
proof -
  note s = fold_push_spec[of "[]" "block_entries ctx" p]
  have "hm_distinct (by_pool ctx)" using s by (simp add: by_pool_flat bm_sorted_distinct)
  then have "(p, es) \<in> set (by_pool ctx) \<longleftrightarrow> hm_get (by_pool ctx) p = Some es" by (rule hm_in_iff)
  also have "\<dots> \<longleftrightarrow> es \<noteq> [] \<and> es = filter (\<lambda>s. pool_of s = p) (block_entries ctx)"
    using s by (auto simp: by_pool_flat Let_def)
  finally show ?thesis .
qed

lemma tx_entries_in:
  "s \<in> set (tx_entries e (i, h)) \<longleftrightarrow>
   (\<exists>t. en_tx e h = Some t \<and> se_idx s = i \<and> se_tx s = ta_hash t \<and> se_from s = ta_from t \<and> se_swap s \<in> set (ta_swaps t))"
proof (cases "en_tx e h")
  case None
  then show ?thesis by (simp add: tx_entries_def)
next
  case (Some t)
  then show ?thesis by (cases s) (auto simp: tx_entries_def)
qed

lemma block_entries_in:
  "s \<in> set (block_entries ctx) \<longleftrightarrow>
   (\<exists>t. se_idx s < length (ctx_txs ctx) \<and> en_tx (ctx_enrichment ctx) (ctx_txs ctx ! se_idx s) = Some t \<and>
      se_tx s = ta_hash t \<and> se_from s = ta_from t \<and> se_swap s \<in> set (ta_swaps t))"
proof -
  have "s \<in> set (block_entries ctx) \<longleftrightarrow>
      (\<exists>i < length (ctx_txs ctx). s \<in> set (tx_entries (ctx_enrichment ctx) (i, ctx_txs ctx ! i)))"
    by (auto simp: block_entries_def in_set_enumerate_eq Bex_def)
  then show ?thesis by (auto simp: tx_entries_in)
qed

lemma block_entries_sorted: "sorted_wrt (\<lambda>a b. se_idx a \<le> se_idx b) (block_entries ctx)"
proof -
  have idx: "se_idx s = fst p" if "s \<in> set (tx_entries e p)" for s e p
    using that tx_entries_in[of s e "fst p" "snd p"] by auto
  have "sorted_wrt (\<lambda>a b. se_idx a \<le> se_idx b) (concat (map (tx_entries e) (List.enumerate n hs)))" for e n hs
  proof (induction hs arbitrary: n)
    case (Cons h hs)
    have "sorted_wrt (\<lambda>a b. se_idx a \<le> se_idx b) (tx_entries e (n, h))"
      using idx[of _ e "(n, h)"] by (simp add: sorted_wrt_iff_nth_less)
    moreover have "n \<le> se_idx y" if "y \<in> set (concat (map (tx_entries e) (List.enumerate (Suc n) hs)))" for y
      using that idx by (fastforce simp: in_set_enumerate_eq)
    ultimately show ?case using Cons idx by (fastforce simp: sorted_wrt_append)
  qed simp
  then show ?thesis by (simp add: block_entries_def)
qed


section \<open>Soundness\<close>

text \<open>What a sandwich is, free of the scan: bracketed victims, one sender on both ends, a net gain.\<close>

definition is_sandwich ::
  "float_env \<Rightarrow> sandwich_config \<Rightarrow> enrichment \<Rightarrow> swap_entry \<Rightarrow> swap_entry list \<Rightarrow> swap_entry \<Rightarrow> bool" where
  "is_sandwich fe cfg e front victims bk \<longleftrightarrow>
     se_from bk = se_from front \<and> opposite_direction bk front \<and> victims \<noteq> [] \<and>
     (\<forall>v\<in>set victims. se_from v \<noteq> se_from front \<and> same_direction v front \<and>
        se_idx front < se_idx v \<and> se_idx v < se_idx bk) \<and>
     amount_in (se_swap front) < amount_out (se_swap bk) \<and>
     \<not> excludes (sc_min_profit_usd cfg) (usd_value fe e (token_in (se_swap front)) (sandwich_profit front bk))"

definition finding_of :: "float_env \<Rightarrow> enrichment \<Rightarrow> swap_entry \<Rightarrow> swap_entry list \<Rightarrow> swap_entry \<Rightarrow> sandwich_detail evidence" where
  "finding_of fe e front victims bk =
     sandwich_evidence front bk victims (token_in (se_swap front)) (sandwich_profit front bk)
       (usd_value fe e (token_in (se_swap front)) (sandwich_profit front bk))"

lemma profit_nonzero: "sandwich_profit f b \<noteq> 0 \<longleftrightarrow> amount_in (se_swap f) < amount_out (se_swap b)"
  by (simp add: sandwich_profit_def sat_sub_eq_0_iff not_le)

definition entries_wf :: "swap_entry list \<Rightarrow> bool" where
  "entries_wf es \<longleftrightarrow> sorted_wrt (\<lambda>a b. se_idx a \<le> se_idx b) es \<and>
     (\<forall>a\<in>set es. \<forall>b\<in>set es. se_idx a = se_idx b \<longrightarrow> se_from a = se_from b \<and> se_tx a = se_tx b)"

lemma entries_wf_Cons: "entries_wf (f # r) \<Longrightarrow> entries_wf r"
  unfolding entries_wf_def sorted_wrt.simps set_simps by blast

lemma closes_sandwich:
  assumes "entries_wf (front # rest)" "closes fe cfg e consumed front rest bk"
  shows "is_sandwich fe cfg e front (victims_between consumed front rest bk) bk"
proof -
  have "se_idx front < se_idx v" if "v \<in> set rest" "se_from v \<noteq> se_from front" for v
  proof -
    have "se_idx front \<le> se_idx v" "se_idx front \<noteq> se_idx v"
      using assms(1) that unfolding entries_wf_def sorted_wrt.simps set_simps by (blast, metis insertI1 insertI2)
    then show ?thesis by simp
  qed
  with assms(2) show ?thesis
    by (auto simp: closes_def is_sandwich_def victims_between_def profit_nonzero dest: set_takeWhileD)
qed

lemma victims_in: "v \<in> set (victims_between consumed front rest bk) \<Longrightarrow> v \<in> set rest \<and> se_idx v \<notin> set consumed"
  by (auto simp: victims_between_def dest: set_takeWhileD)

lemma scan_pool_sound:
  "entries_wf es \<Longrightarrow> ev \<in> set (scan_pool fe cfg e es consumed) \<Longrightarrow>
   \<exists>front victims bk. ev = finding_of fe e front victims bk \<and> is_sandwich fe cfg e front victims bk \<and>
     (\<forall>s\<in>insert front (insert bk (set victims)). s \<in> set es \<and> se_idx s \<notin> set consumed)"
proof (induction fe cfg e es consumed rule: scan_pool.induct)
  case (2 fe cfg e front rest consumed)
  note wf = entries_wf_Cons[OF 2(4)]
  show ?case
  proof (cases "se_idx front \<in> set consumed")
    case True
    with 2 wf show ?thesis by fastforce
  next
    case False
    show ?thesis
    proof (cases "find (closes fe cfg e consumed front rest) rest")
      case None
      with 2 wf False show ?thesis by fastforce
    next
      case (Some bk)
      let ?vs = "victims_between consumed front rest bk"
      from Some have bk: "bk \<in> set rest" "closes fe cfg e consumed front rest bk"
        by (auto simp: find_Some_iff)
      show ?thesis
      proof (cases "ev = finding_of fe e front ?vs bk")
        case True
        with bk closes_sandwich[OF 2(4) bk(2)] False victims_in show ?thesis
          by (intro exI[of _ front] exI[of _ ?vs] exI[of _ bk]) (auto simp: closes_def dest: victims_in)
      next
        case ne: False
        with 2(5) False Some have "ev \<in> set (scan_pool fe cfg e rest (se_idx front # se_idx bk # map se_idx ?vs @ consumed))"
          by (auto simp: Let_def finding_of_def)
        from 2(3)[OF False Some refl refl refl wf this] obtain f' vs' b' where
          "ev = finding_of fe e f' vs' b'" "is_sandwich fe cfg e f' vs' b'"
          "\<forall>s\<in>insert f' (insert b' (set vs')). s \<in> set rest \<and>
             se_idx s \<notin> set (se_idx front # se_idx bk # map se_idx ?vs @ consumed)" by blast
        then show ?thesis by (intro exI[of _ f'] exI[of _ vs'] exI[of _ b']) auto
      qed
    qed
  qed
qed simp

lemma entries_wf_pool: "entries_wf (filter P (block_entries ctx))"
proof -
  have "se_from a = se_from b \<and> se_tx a = se_tx b"
    if "a \<in> set (block_entries ctx)" "b \<in> set (block_entries ctx)" "se_idx a = se_idx b" for a b
    using that by (auto simp: block_entries_in)
  then show ?thesis
    using sorted_wrt_filter[OF block_entries_sorted, of P] unfolding entries_wf_def set_filter by blast
qed

text \<open>
  C12: Every reported sandwich is one. A finding names a frontrun and a backrun of one sender in
  opposite directions of one pool, at least one victim of another sender trading in the frontrun's
  direction strictly between them in block order, a strictly positive net gain in the base token,
  and, when that gain can be priced, a value not below the configured minimum; its transactions are
  the frontrun, the victims and the backrun in that order.
\<close>

theorem sandwich_sound:
  assumes "ev \<in> set (sandwich_detect fe cfg ctx)"
  shows "\<exists>front victims bk. set (front # bk # victims) \<subseteq> set (block_entries ctx) \<and>
    is_sandwich fe cfg (ctx_enrichment ctx) front victims bk \<and>
    ev = finding_of fe (ctx_enrichment ctx) front victims bk \<and>
    ev_txs ev = se_tx front # map se_tx victims @ [se_tx bk]"
proof -
  from assms obtain p es where p: "(p, es) \<in> set (by_pool ctx)" "ev \<in> set (scan_pool fe cfg (ctx_enrichment ctx) es [])"
    by (auto simp: sandwich_detect_def)
  then have es: "es = filter (\<lambda>s. pool_of s = p) (block_entries ctx)" by (simp add: by_pool_in)
  have "entries_wf es" unfolding es by (rule entries_wf_pool)
  from scan_pool_sound[OF this p(2)] obtain front victims bk where
    f: "ev = finding_of fe (ctx_enrichment ctx) front victims bk" "is_sandwich fe cfg (ctx_enrichment ctx) front victims bk"
      "\<forall>s\<in>insert front (insert bk (set victims)). s \<in> set es" by auto
  then show ?thesis
    by (intro exI[of _ front] exI[of _ victims] exI[of _ bk]) (auto simp: es finding_of_def sandwich_evidence_def)
qed

lemma sandwich_score_nonneg: "f_nonneg (sandwich_score u n)"
  unfolding sandwich_score_def by (auto intro!: score_intros)


interpretation sandwich: detector_plugin "sandwich_detect fe cfg"
proof
  fix ctx and ev
  assume wf: "en_wf (ctx_enrichment ctx)" and ev: "ev \<in> set (sandwich_detect fe cfg ctx)"
  from ev obtain p es where p: "(p, es) \<in> set (by_pool ctx)" "ev \<in> set (scan_pool fe cfg (ctx_enrichment ctx) es [])"
    by (auto simp: sandwich_detect_def)
  then have es: "es = filter (\<lambda>s. pool_of s = p) (block_entries ctx)" by (simp add: by_pool_in)
  have "entries_wf es" unfolding es by (rule entries_wf_pool)
  from scan_pool_sound[OF this p(2)] obtain front victims bk where
    f: "ev = finding_of fe (ctx_enrichment ctx) front victims bk"
      "\<forall>s\<in>insert front (insert bk (set victims)). s \<in> set es" by auto
  have "tx_known ctx (se_tx s)" if "s \<in> set es" for s
    using that wf by (auto simp: es block_entries_in tx_known_def en_wf_def)
  with f show "evidence_ok ctx ev"
    unfolding f finding_of_def sandwich_evidence_def evidence_ok_impact
    by (auto intro!: conf_ok_new_nonneg sandwich_score_nonneg)
qed

section \<open>No double counting\<close>

lemma scan_pool_disjoint:
  assumes "entries_wf es" "\<forall>a\<in>set es. \<forall>b\<in>set es. se_tx a = se_tx b \<longrightarrow> se_idx a = se_idx b"
  shows "sorted_wrt (\<lambda>a b. set (ev_txs a) \<inter> set (ev_txs b) = {}) (scan_pool fe cfg e es consumed)"
  using assms
proof (induction fe cfg e es consumed rule: scan_pool.induct)
  case (2 fe cfg e front rest consumed)
  note wf = entries_wf_Cons[OF 2(4)]
  have inj: "\<forall>a\<in>set rest. \<forall>b\<in>set rest. se_tx a = se_tx b \<longrightarrow> se_idx a = se_idx b"
    using 2(5) by (meson list.set_intros(2))
  show ?case
  proof (cases "se_idx front \<in> set consumed")
    case True
    from 2(1)[OF True wf inj] True show ?thesis by simp
  next
    case False
    show ?thesis
    proof (cases "find (closes fe cfg e consumed front rest) rest")
      case None
      from 2(2)[OF False None wf inj] False None show ?thesis by simp
    next
      case (Some bk)
      let ?vs = "victims_between consumed front rest bk"
      let ?cons = "se_idx front # se_idx bk # map se_idx ?vs @ consumed"
      have bk: "bk \<in> set rest" using Some by (auto simp: find_Some_iff)
      have "set (se_tx front # map se_tx ?vs @ [se_tx bk]) \<inter> set (ev_txs ev) = {}"
        if "ev \<in> set (scan_pool fe cfg e rest ?cons)" for ev
      proof -
        from scan_pool_sound[OF wf that] obtain f vs b where
          f: "ev = finding_of fe e f vs b" "\<forall>s\<in>insert f (insert b (set vs)). s \<in> set rest \<and> se_idx s \<notin> set ?cons"
          by blast
        have "h \<notin> set (ev_txs ev)" if "h = se_tx s" "s \<in> insert front (insert bk (set ?vs))" for h s
        proof
          assume "h \<in> set (ev_txs ev)"
          then obtain s' where s': "s' \<in> insert f (insert b (set vs))" "h = se_tx s'"
            by (auto simp: f(1) finding_of_def sandwich_evidence_def)
          have "s \<in> set (front # rest)" "s' \<in> set (front # rest)"
            using that bk victims_in[of s consumed front rest bk] s' f(2) by auto
          with 2(5) that s' have "se_idx s = se_idx s'" by metis
          moreover have "se_idx s \<in> set ?cons" using that by auto
          ultimately show False using f(2) s' by metis
        qed
        then show ?thesis by (auto simp: disjoint_iff)
      qed
      moreover from 2(3)[OF False Some refl refl refl wf inj]
      have "sorted_wrt (\<lambda>a b. set (ev_txs a) \<inter> set (ev_txs b) = {}) (scan_pool fe cfg e rest ?cons)" .
      moreover have "ev_txs (sandwich_evidence front bk ?vs t pr u) = se_tx front # map se_tx ?vs @ [se_tx bk]" for t pr u
        by (simp add: sandwich_evidence_def)
      ultimately show ?thesis using False Some by (simp add: Let_def)
    qed
  qed
qed simp

text \<open>
  No transaction is reported twice for a pool. In a block without repeated transaction hashes,
  the findings of any one pool have pairwise disjoint transactions.
\<close>

theorem sandwich_no_double_count:
  assumes "en_wf (ctx_enrichment ctx)" "distinct (ctx_txs ctx)" "(p, es) \<in> set (by_pool ctx)"
  shows "sorted_wrt (\<lambda>a b. set (ev_txs a) \<inter> set (ev_txs b) = {}) (scan_pool fe cfg (ctx_enrichment ctx) es [])"
proof (rule scan_pool_disjoint)
  have es: "es = filter (\<lambda>s. pool_of s = p) (block_entries ctx)" using assms(3) by (simp add: by_pool_in)
  show "entries_wf es" unfolding es by (rule entries_wf_pool)
  show "\<forall>a\<in>set es. \<forall>b\<in>set es. se_tx a = se_tx b \<longrightarrow> se_idx a = se_idx b"
  proof (intro ballI impI)
    fix a b assume ab: "a \<in> set es" "b \<in> set es" "se_tx a = se_tx b"
    have tx: "se_idx s < length (ctx_txs ctx) \<and> ctx_txs ctx ! se_idx s = se_tx s" if "s \<in> set es" for s
      using that assms(1) by (auto simp: es block_entries_in en_wf_def)
    with ab assms(2) show "se_idx a = se_idx b" by (metis nth_eq_iff_index_eq)
  qed
qed

section \<open>Completeness\<close>

lemma scan_pool_empty:
  "scan_pool fe cfg e (pre @ front # rest) [] = [] \<Longrightarrow> find (closes fe cfg e [] front rest) rest = None"
proof (induction pre)
  case Nil
  then show ?case by (auto split: option.splits simp: Let_def)
next
  case (Cons p pre)
  then have "scan_pool fe cfg e (pre @ front # rest) [] = []"
    by (auto split: option.splits simp: Let_def)
  then show ?case by (rule Cons.IH)
qed

lemma sorted_takeWhile_in:
  "sorted_wrt (\<lambda>a b. se_idx a \<le> se_idx b) es \<Longrightarrow> v \<in> set es \<Longrightarrow> se_idx v < n \<Longrightarrow>
   v \<in> set (takeWhile (\<lambda>s. se_idx s < n) es)"
  by (induction es) auto

text \<open>
  No sandwich is missed altogether: if a block holds a frontrun, a victim and a backrun that form
  a sandwich clearing the profit gate, the detector reports a finding.
\<close>

theorem sandwich_complete:
  assumes "front \<in> set (block_entries ctx)" "v \<in> set (block_entries ctx)" "bk \<in> set (block_entries ctx)"
    and "is_sandwich fe cfg (ctx_enrichment ctx) front [v] bk"
  shows "sandwich_detect fe cfg ctx \<noteq> []"
proof
  assume empty: "sandwich_detect fe cfg ctx = []"
  let ?e = "ctx_enrichment ctx"
  define es where "es = filter (\<lambda>s. pool_of s = pool_of front) (block_entries ctx)"
  have s: "pool_of v = pool_of front" "pool_of bk = pool_of front"
    using assms(4) by (auto simp: is_sandwich_def same_direction_def opposite_direction_def)
  have in_es: "front \<in> set es" "v \<in> set es" "bk \<in> set es" using assms s by (auto simp: es_def)
  have "(pool_of front, es) \<in> set (by_pool ctx)" using in_es(1) by (auto simp: by_pool_in es_def filter_empty_conv)
  with empty have none: "scan_pool fe cfg ?e es [] = []" by (auto simp: sandwich_detect_def)
  have sorted: "sorted_wrt (\<lambda>a b. se_idx a \<le> se_idx b) es"
    unfolding es_def by (rule sorted_wrt_filter[OF block_entries_sorted])
  obtain pre rest where sp: "es = pre @ front # rest" using in_es(1) by (meson split_list)
  have later: "x \<in> set rest" if "x \<in> set es" "se_idx front < se_idx x" for x
    using that sorted by (auto simp: sp sorted_wrt_append)
  have idx: "se_idx front < se_idx v" "se_idx v < se_idx bk" using assms(4) by (auto simp: is_sandwich_def)
  then have rest: "v \<in> set rest" "bk \<in> set rest" using later in_es by auto
  have "v \<in> set (takeWhile (\<lambda>s. se_idx s < se_idx bk) rest)"
    using sorted rest idx by (intro sorted_takeWhile_in) (auto simp: sp sorted_wrt_append)
  then have "v \<in> set (victims_between [] front rest bk)"
    using assms(4) by (simp add: victims_between_def is_sandwich_def)
  then have "victims_between [] front rest bk \<noteq> []" by auto
  then have "closes fe cfg ?e [] front rest bk"
    using assms(4) by (simp add: closes_def is_sandwich_def profit_nonzero)
  moreover have "find (closes fe cfg ?e [] front rest) rest = None"
    by (rule scan_pool_empty) (use none sp in simp)
  ultimately show False using rest by (simp add: find_None_iff)
qed

text \<open>
  The victim bonus counts swaps, not victims: one bystander transaction with two swaps in the
  frontrun's direction scores like two bracketed victims and its hash is listed twice.
\<close>

definition ex_swap :: "address \<Rightarrow> address \<Rightarrow> u256 \<Rightarrow> u256 \<Rightarrow> swap" where
  "ex_swap i out a b = \<lparr>sw_pool = 9, token_in = i, token_out = out, amount_in = a, amount_out = b\<rparr>"

definition ex_tx :: "b256 \<Rightarrow> address \<Rightarrow> swap list \<Rightarrow> tx_actions" where
  "ex_tx h f ss = (tx_actions_new h f None)\<lparr>ta_swaps := ss\<rparr>"

definition ex_block :: "swap list \<Rightarrow> detection_ctx" where
  "ex_block victim_swaps =
     \<lparr>ctx_chain = 1, ctx_block = \<lparr>br_number = 5, br_hash = 0\<rparr>, ctx_txs = [11, 12, 13],
      ctx_enrichment = \<lparr>en_tokens = [], en_pools = [], en_prices = [],
        en_txs = [(11, ex_tx 11 1 [ex_swap 3 4 100 50]), (12, ex_tx 12 2 victim_swaps),
                  (13, ex_tx 13 1 [ex_swap 4 3 50 110])]\<rparr>\<rparr>"

lemmas sandwich_eval = ex_block_def ex_tx_def ex_swap_def tx_actions_new_def sandwich_detect_def by_pool_def
  tx_entries_def push_entry_def en_tx_def closes_def victims_between_def sandwich_profit_def opposite_direction_def
  same_direction_def usd_value_def en_token_def excludes_def sandwich_evidence_def sat_sub_def

theorem sandwich_counts_swaps:
  "map ev_txs (sandwich_detect fe cfg (ex_block [ex_swap 3 4 10 5, ex_swap 3 4 10 5])) = [[11, 12, 12, 13]] \<and>
   map ev_confidence (sandwich_detect fe cfg (ex_block [ex_swap 3 4 10 5, ex_swap 3 4 10 5])) =
     [confidence_new (f_add (round_f64 (55 / 100)) (f_mul (round_f64 (5 / 100)) (f_of_nat 1)))]"
  by (simp add: sandwich_eval sandwich_score_def word_less_nat_alt)


section \<open>Witnesses\<close>

definition ex_cfg :: sandwich_config where
  "ex_cfg = sandwich_default_config"

definition ex_entry :: "nat \<Rightarrow> b256 \<Rightarrow> address \<Rightarrow> swap \<Rightarrow> swap_entry" where
  "ex_entry i h f s = \<lparr>se_idx = i, se_tx = h, se_from = f, se_swap = s\<rparr>"

definition ex_simple :: detection_ctx where
  "ex_simple = ex_block [ex_swap 3 4 10 5]"

lemma ex_entries: "block_entries ex_simple =
    [ex_entry 0 11 1 (ex_swap 3 4 100 50), ex_entry 1 12 2 (ex_swap 3 4 10 5), ex_entry 2 13 1 (ex_swap 4 3 50 110)]"
  by (simp add: block_entries_def ex_simple_def ex_block_def ex_tx_def tx_actions_new_def tx_entries_def en_tx_def ex_entry_def)

lemma ex_is_sandwich: "is_sandwich exact_env ex_cfg (ctx_enrichment ex_simple)
    (ex_entry 0 11 1 (ex_swap 3 4 100 50)) [ex_entry 1 12 2 (ex_swap 3 4 10 5)] (ex_entry 2 13 1 (ex_swap 4 3 50 110))"
  by (simp add: is_sandwich_def ex_entry_def ex_swap_def ex_simple_def ex_block_def opposite_direction_def
      same_direction_def usd_value_def en_token_def excludes_def word_less_nat_alt)

lemma ex_wf: "en_wf (ctx_enrichment ex_simple)"
  by (simp add: en_wf_def ex_simple_def ex_block_def en_tx_def ex_tx_def tx_actions_new_def)

theorem sandwich_complete_witness: "sandwich_detect exact_env ex_cfg ex_simple \<noteq> []"
  by (rule sandwich_complete[OF _ _ _ ex_is_sandwich]) (simp_all add: ex_entries)

theorem sandwich_sound_witness:
  "\<exists>ev front victims bk. sandwich_detect exact_env ex_cfg ex_simple = [ev] \<and>
     ev_txs ev = [11, 12, 13] \<and> is_sandwich exact_env ex_cfg (ctx_enrichment ex_simple) front victims bk"
proof -
  have "map ev_txs (sandwich_detect exact_env ex_cfg ex_simple) = [[11, 12, 13]]"
    by (simp add: ex_simple_def sandwich_eval word_less_nat_alt)
  then obtain ev where ev: "sandwich_detect exact_env ex_cfg ex_simple = [ev]" "ev_txs ev = [11, 12, 13]"
    by (cases "sandwich_detect exact_env ex_cfg ex_simple") auto
  from sandwich_sound[of ev exact_env ex_cfg ex_simple] ev show ?thesis by auto
qed

theorem sandwich_no_double_count_witness:
  "sorted_wrt (\<lambda>a b. set (ev_txs a) \<inter> set (ev_txs b) = {})
     (scan_pool exact_env ex_cfg (ctx_enrichment ex_simple) (block_entries ex_simple) [])"
proof (rule sandwich_no_double_count[OF ex_wf, where p = 9])
  show "distinct (ctx_txs ex_simple)" by (simp add: ex_simple_def ex_block_def)
  show "(9, block_entries ex_simple) \<in> set (by_pool ex_simple)"
    by (simp add: by_pool_in) (simp add: ex_entries ex_entry_def ex_swap_def)
qed

end
