(* ===== verification/Token_Flow.thy ===== *)
theory Token_Flow
  imports Detector_Api "HOL-Library.Product_Lexorder"
begin

text \<open>
  Per-token tallies as the detectors keep them: a \<open>BTreeMap\<close> from a key to a \<open>U256\<close> that is raised
  with \<open>entry(k).or_default()\<close> and \<open>saturating_add\<close>. The lemmas relate a tally to the exact sum of what
  was added: they differ only when the sum leaves 256 bits.
\<close>

definition tally_get :: "('k \<times> u256) list \<Rightarrow> 'k \<Rightarrow> u256" where
  "tally_get m k = (case hm_get m k of None \<Rightarrow> 0 | Some v \<Rightarrow> v)"

definition tally_add :: "'k::linorder \<Rightarrow> u256 \<Rightarrow> ('k \<times> u256) list \<Rightarrow> ('k \<times> u256) list" where
  "tally_add k a m = bm_update k (\<lambda>v. sat_add (case v of None \<Rightarrow> 0 | Some x \<Rightarrow> x) a) m"

definition tally :: "('k::linorder \<times> u256) list \<Rightarrow> ('k \<times> u256) list" where
  "tally kvs = fold (\<lambda>(k, a). tally_add k a) kvs []"

text \<open>The exact sum under a key, and its saturation.\<close>

definition exact_sum :: "('k \<times> u256) list \<Rightarrow> 'k \<Rightarrow> nat" where
  "exact_sum kvs k = sum_list (map (\<lambda>(k', a). if k' = k then unat a else 0) kvs)"

definition u256_max :: nat where
  "u256_max = 2 ^ 256 - 1"

lemma unat_sat_add_u256: "unat (sat_add (a::u256) b) = min (unat a + unat b) u256_max"
  by (simp add: unat_sat_add u256_max_def)

lemma unat_le_u256_max: "unat (a::u256) \<le> u256_max"
proof -
  have "unat a < 2 ^ LENGTH(256)" by (rule unsigned_less)
  then show ?thesis by (simp add: u256_max_def)
qed

lemma tally_get_no_key: "k \<notin> fst ` set m \<Longrightarrow> tally_get m k = 0"
proof -
  assume "k \<notin> fst ` set m"
  then have "hm_get m k = None" by (simp add: map_of_eq_None_iff)
  then show ?thesis by (simp add: tally_get_def)
qed

lemma tally_get_add:
  "bm_sorted m \<Longrightarrow> tally_get (tally_add k a m) k' = (if k' = k then sat_add (tally_get m k) a else tally_get m k')"
  by (simp add: tally_get_def tally_add_def bm_get_update)

lemma tally_fold:
  "bm_sorted m \<Longrightarrow> bm_sorted (fold (\<lambda>(k, a). tally_add k a) kvs m) \<and>
   unat (tally_get (fold (\<lambda>(k, a). tally_add k a) kvs m) k) = min (unat (tally_get m k) + exact_sum kvs k) u256_max \<and>
   fst ` set (fold (\<lambda>(k, a). tally_add k a) kvs m) = fst ` set m \<union> fst ` set kvs"
proof (induction kvs arbitrary: m)
  case Nil
  then show ?case using unat_le_u256_max[of "tally_get m k"] by (simp add: exact_sum_def)
next
  case (Cons p kvs)
  obtain k1 a where p: "p = (k1, a)" by (cases p)
  have b: "bm_sorted (tally_add k1 a m)" using Cons.prems by (simp add: tally_add_def bm_sorted_update)
  have "unat (tally_get (tally_add k1 a m) k) = min (unat (tally_get m k) + (if k1 = k then unat a else 0)) u256_max"
    using Cons.prems unat_le_u256_max[of "tally_get m k"] by (auto simp: tally_get_add unat_sat_add_u256)
  moreover have "fst ` set (tally_add k1 a m) = insert k1 (fst ` set m)" by (simp add: tally_add_def bm_keys_update)
  ultimately show ?case using Cons.IH[OF b] p by (auto simp: exact_sum_def)
qed

lemma unat_tally: "unat (tally_get (tally kvs) k) = min (exact_sum kvs k) u256_max"
  using tally_fold[of "[]" kvs k] by (simp add: tally_def tally_get_def)

lemma tally_sorted: "bm_sorted (tally kvs)"
  using tally_fold[of "[]" kvs] by (simp add: tally_def)

lemma tally_keys: "fst ` set (tally kvs) = fst ` set kvs"
  using tally_fold[of "[]" kvs] by (simp add: tally_def)

lemma tally_get_absent: "k \<notin> fst ` set kvs \<Longrightarrow> tally_get (tally kvs) k = 0"
  by (rule tally_get_no_key) (simp add: tally_keys)

lemma tally_get_key: "tally_get (tally kvs) k \<noteq> 0 \<Longrightarrow> k \<in> fst ` set kvs"
  using tally_get_absent by blast

lemma hm_get_tally: "(k, v) \<in> set (tally kvs) \<longleftrightarrow> k \<in> fst ` set kvs \<and> v = tally_get (tally kvs) k"
proof -
  have "(k, v) \<in> set (tally kvs) \<longleftrightarrow> hm_get (tally kvs) k = Some v"
    by (rule hm_in_iff[OF bm_sorted_distinct[OF tally_sorted]])
  moreover have "hm_get (tally kvs) k \<noteq> None \<longleftrightarrow> k \<in> fst ` set kvs"
    by (simp only: map_of_eq_None_iff tally_keys) simp
  ultimately show ?thesis by (auto simp: tally_get_def)
qed

text \<open>What a list of transfers moves out of and into an address, per token, in exact arithmetic.\<close>

definition sent :: "token_transfer list \<Rightarrow> address \<Rightarrow> address \<Rightarrow> nat" where
  "sent ts tk a = sum_list (map (\<lambda>t. if tt_token t = tk \<and> tt_from t = a then unat (tt_amount t) else 0) ts)"

definition got :: "token_transfer list \<Rightarrow> address \<Rightarrow> address \<Rightarrow> nat" where
  "got ts tk a = sum_list (map (\<lambda>t. if tt_token t = tk \<and> tt_to t = a then unat (tt_amount t) else 0) ts)"

end
