(* ===== verification/Arb_Detector.thy ===== *)
theory Arb_Detector
  imports Token_Flow
begin

text \<open>
  The arbitrage detector (\<open>crates/arb-detector/src/lib.rs\<close>): a transaction whose swaps close a cycle,
  leaving exactly one token net positive and every other balanced.
\<close>

section \<open>Model\<close>

record arb_config =
  ac_min_profit_usd :: usd_price

definition arb_default_config :: arb_config where
  "arb_default_config = \<lparr>ac_min_profit_usd = Fin 10\<rparr>"

definition arb_confidence_for :: "bool \<Rightarrow> nat \<Rightarrow> confidence" where
  "arb_confidence_for valued hops =
     confidence_new (f_add (if valued then round_f64 (80 / 100) else round_f64 (60 / 100))
       (f_mul (round_f64 (3 / 100)) (f_of_nat (min (hops - 2) 3))))"

record arb_detail =
  ad_profit_token :: address
  ad_profit_amount :: u256
  ad_profit_usd :: "f64 option"
  ad_pools :: "address list"
  ad_hops :: nat

text \<open>The loop over the tokens of both maps, in address order, with its early returns.\<close>

fun cycle_loop ::
  "(address \<times> u256) list \<Rightarrow> (address \<times> u256) list \<Rightarrow> address list \<Rightarrow> (address \<times> u256) option \<Rightarrow> (address \<times> u256) option" where
  "cycle_loop received spent [] profit = profit"
| "cycle_loop received spent (t # ts) profit =
     (let r = tally_get received t; s = tally_get spent t
      in if r = s then cycle_loop received spent ts profit
         else if s < r then
           if s = 0 then None
           else if profit \<noteq> None then None
           else cycle_loop received spent ts (Some (t, r - s))
         else None)"

definition closed_cycle_profit ::
  "(address \<times> u256) list \<Rightarrow> (address \<times> u256) list \<Rightarrow> (address \<times> u256) option" where
  "closed_cycle_profit received spent =
     cycle_loop received spent (sort (remdups (hm_keys received @ hm_keys spent))) None"

definition net_swaps :: "swap list \<Rightarrow> (address \<times> u256) list \<times> (address \<times> u256) list" where
  "net_swaps ss = fold (\<lambda>s (received, spent).
     (tally_add (token_out s) (amount_out s) received, tally_add (token_in s) (amount_in s) spent)) ss ([], [])"

definition arb_detect_in_tx :: "float_env \<Rightarrow> arb_config \<Rightarrow> enrichment \<Rightarrow> tx_actions \<Rightarrow> arb_detail evidence option" where
  "arb_detect_in_tx fe cfg e tx =
     (if length (ta_swaps tx) < 2 then None
      else let (received, spent) = net_swaps (ta_swaps tx)
           in case closed_cycle_profit received spent of
                None \<Rightarrow> None
              | Some (token, amount) \<Rightarrow>
                  let usd = usd_value fe e token amount; hops = length (ta_swaps tx)
                  in if excludes (ac_min_profit_usd cfg) usd then None
                     else Some (with_impact_usd (map_option usd_amount_new usd)
                       (from_detail Arbitrage [ta_hash tx] (arb_confidence_for (usd \<noteq> None) hops)
                         \<lparr>ad_profit_token = token, ad_profit_amount = amount, ad_profit_usd = usd,
                          ad_pools = map sw_pool (ta_swaps tx), ad_hops = hops\<rparr>)))"

definition arb_detect :: "float_env \<Rightarrow> arb_config \<Rightarrow> detection_ctx \<Rightarrow> arb_detail evidence list" where
  "arb_detect fe cfg ctx = List.map_filter (arb_detect_in_tx fe cfg (ctx_enrichment ctx)) (block_actions ctx)"

section \<open>The cycle test\<close>

lemma cycle_loop_spec:
  "distinct ts \<Longrightarrow> cycle_loop rec sp ts pr = Some (t, g) \<longleftrightarrow>
     (case pr of
        Some p \<Rightarrow> p = (t, g) \<and> (\<forall>x\<in>set ts. tally_get rec x = tally_get sp x)
      | None \<Rightarrow> t \<in> set ts \<and> tally_get sp t \<noteq> 0 \<and> tally_get sp t < tally_get rec t \<and>
          g = tally_get rec t - tally_get sp t \<and>
          (\<forall>x\<in>set ts. x \<noteq> t \<longrightarrow> tally_get rec x = tally_get sp x))"
proof (induction ts arbitrary: pr)
  case (Cons x ts)
  then have x: "x \<notin> set ts" by simp
  consider "tally_get rec x = tally_get sp x" | "tally_get sp x < tally_get rec x" | "tally_get rec x < tally_get sp x"
    by fastforce
  then show ?case
  proof cases
    case 1
    with Cons show ?thesis by (auto simp: Let_def split: option.splits)
  next
    case 2
    then have "tally_get rec x \<noteq> tally_get sp x" by auto
    with 2 Cons x show ?thesis by (auto simp: Let_def split: option.splits)
  next
    case 3
    then have "tally_get rec x \<noteq> tally_get sp x" "\<not> tally_get sp x < tally_get rec x" by auto
    with 3 show ?thesis by (auto simp: Let_def split: option.splits)
  qed
qed (auto split: option.splits)

lemma net_swaps_tally:
  "net_swaps ss = (tally (map (\<lambda>s. (token_out s, amount_out s)) ss), tally (map (\<lambda>s. (token_in s, amount_in s)) ss))"
proof -
  have "fold (\<lambda>s (received, spent).
      (tally_add (token_out s) (amount_out s) received, tally_add (token_in s) (amount_in s) spent)) ss (r, p) =
    (fold (\<lambda>(k, a). tally_add k a) (map (\<lambda>s. (token_out s, amount_out s)) ss) r,
     fold (\<lambda>(k, a). tally_add k a) (map (\<lambda>s. (token_in s, amount_in s)) ss) p)" for r p
    by (induction ss arbitrary: r p) auto
  then show ?thesis by (simp add: net_swaps_def tally_def)
qed

text \<open>What the swaps of a transaction bring in and cost in a token, in exact arithmetic.\<close>

definition swap_in :: "swap list \<Rightarrow> address \<Rightarrow> nat" where
  "swap_in ss t = sum_list (map (\<lambda>s. if token_out s = t then unat (amount_out s) else 0) ss)"

definition swap_out :: "swap list \<Rightarrow> address \<Rightarrow> nat" where
  "swap_out ss t = sum_list (map (\<lambda>s. if token_in s = t then unat (amount_in s) else 0) ss)"

definition closed_cycle :: "swap list \<Rightarrow> address \<Rightarrow> bool" where
  "closed_cycle ss t \<longleftrightarrow> 0 < swap_out ss t \<and> swap_out ss t < swap_in ss t \<and>
     (\<forall>x. x \<noteq> t \<longrightarrow> swap_in ss x = swap_out ss x)"

definition fits_u256 :: "swap list \<Rightarrow> bool" where
  "fits_u256 ss \<longleftrightarrow> (\<forall>t. swap_in ss t \<le> u256_max \<and> swap_out ss t \<le> u256_max)"

lemma closed_cycle_profit_iff:
  assumes "fits_u256 ss"
  shows "closed_cycle_profit (fst (net_swaps ss)) (snd (net_swaps ss)) = Some (t, g) \<longleftrightarrow>
    closed_cycle ss t \<and> unat g = swap_in ss t - swap_out ss t"
proof -
  let ?r = "fst (net_swaps ss)" and ?s = "snd (net_swaps ss)"
  have v: "unat (tally_get ?r x) = swap_in ss x" "unat (tally_get ?s x) = swap_out ss x" for x
    using assms by (simp_all add: net_swaps_tally unat_tally exact_sum_def comp_def swap_in_def swap_out_def fits_u256_def)
  let ?ts = "sort (remdups (hm_keys ?r @ hm_keys ?s))"
  have absent: "tally_get ?r x = 0 \<and> tally_get ?s x = 0" if "x \<notin> set ?ts" for x
    using that by (simp add: tally_get_no_key)
  have "closed_cycle_profit ?r ?s = Some (t, g) \<longleftrightarrow> t \<in> set ?ts \<and> tally_get ?s t \<noteq> 0 \<and> tally_get ?s t < tally_get ?r t \<and>
      g = tally_get ?r t - tally_get ?s t \<and> (\<forall>x\<in>set ?ts. x \<noteq> t \<longrightarrow> tally_get ?r x = tally_get ?s x)"
    unfolding closed_cycle_profit_def by (subst cycle_loop_spec) auto
  also have "\<dots> \<longleftrightarrow> tally_get ?s t \<noteq> 0 \<and> tally_get ?s t < tally_get ?r t \<and>
      g = tally_get ?r t - tally_get ?s t \<and> (\<forall>x. x \<noteq> t \<longrightarrow> tally_get ?r x = tally_get ?s x)"
    using absent by metis
  also have "\<dots> \<longleftrightarrow> closed_cycle ss t \<and> unat g = swap_in ss t - swap_out ss t"
  proof -
    have "tally_get ?s t \<noteq> 0 \<longleftrightarrow> 0 < swap_out ss t" using v(2)[of t] by (metis unat_gt_0)
    moreover have lt: "tally_get ?s t < tally_get ?r t \<longleftrightarrow> swap_out ss t < swap_in ss t" by (simp add: word_less_nat_alt v)
    moreover have "tally_get ?r x = tally_get ?s x \<longleftrightarrow> swap_in ss x = swap_out ss x" for x
      using v[of x] by (metis word_unat_eq_iff)
    moreover have "g = tally_get ?r t - tally_get ?s t \<longleftrightarrow> unat g = swap_in ss t - swap_out ss t"
      if "swap_out ss t < swap_in ss t"
      using that v[of t] by (auto simp: word_unat_eq_iff unat_sub_if')
    ultimately show ?thesis by (auto simp: closed_cycle_def)
  qed
  finally show ?thesis .
qed


text \<open>
  C23: The arbitrage signature is exactly the closed cycle. As long as no token's total leaves 256
  bits, a transaction is reported if and only if it has at least two swaps, exactly one token that was
  both spent and received nets positive, every other token nets zero, and the gain is not priced below
  the configured minimum; the reported token and amount are that token and its exact net gain.
\<close>

theorem arb_exact:
  assumes "fits_u256 (ta_swaps tx)"
  shows "(\<exists>ev d. arb_detect_in_tx fe cfg e tx = Some ev \<and> ev_detail ev = Some d \<and>
        ad_profit_token d = t \<and> ad_profit_amount d = g) \<longleftrightarrow>
      2 \<le> length (ta_swaps tx) \<and> closed_cycle (ta_swaps tx) t \<and>
      unat g = swap_in (ta_swaps tx) t - swap_out (ta_swaps tx) t \<and>
      \<not> excludes (ac_min_profit_usd cfg) (usd_value fe e t g)"
proof -
  note c = closed_cycle_profit_iff[OF assms, of t g]
  obtain r s where rs: "net_swaps (ta_swaps tx) = (r, s)" by fastforce
  have "(\<exists>ev d. arb_detect_in_tx fe cfg e tx = Some ev \<and> ev_detail ev = Some d \<and>
        ad_profit_token d = t \<and> ad_profit_amount d = g) \<longleftrightarrow>
      2 \<le> length (ta_swaps tx) \<and> closed_cycle_profit r s = Some (t, g) \<and>
      \<not> excludes (ac_min_profit_usd cfg) (usd_value fe e t g)"
    by (auto simp: arb_detect_in_tx_def rs Let_def split: option.splits)
  with c rs show ?thesis by auto
qed

lemma closed_cycle_unique: "closed_cycle ss t \<Longrightarrow> closed_cycle ss t' \<Longrightarrow> t = t'"
  unfolding closed_cycle_def by (metis less_irrefl)

lemma arb_in_tx_evidence:
  "arb_detect_in_tx fe cfg e tx = Some ev \<Longrightarrow> \<exists>u d v h. ev = with_impact_usd (map_option usd_amount_new u)
     (from_detail Arbitrage [ta_hash tx] (arb_confidence_for v h) d)"
  by (auto simp: arb_detect_in_tx_def Let_def case_prod_beta split: option.splits if_splits)

lemma arb_confidence_ok: "conf_ok (arb_confidence_for v h)"
  unfolding arb_confidence_for_def by (rule conf_ok_new_nonneg) (auto intro!: score_intros)

interpretation arb: detector_plugin "arb_detect fe cfg"
proof
  fix ctx and ev
  assume wf: "en_wf (ctx_enrichment ctx)" and ev: "ev \<in> set (arb_detect fe cfg ctx)"
  then obtain tx where tx: "tx \<in> set (block_actions ctx)" "arb_detect_in_tx fe cfg (ctx_enrichment ctx) tx = Some ev"
    by (auto simp: arb_detect_def map_filter_def)
  from arb_in_tx_evidence[OF tx(2)] block_actions_known[OF wf tx(1)] show "evidence_ok ctx ev"
    by (auto simp: evidence_ok_impact arb_confidence_ok)
qed

section \<open>Witness\<close>

definition ex_arb_tx :: tx_actions where
  "ex_arb_tx = (tx_actions_new 5 6 None)\<lparr>ta_swaps :=
     [\<lparr>sw_pool = 1, token_in = 10, token_out = 11, amount_in = 100, amount_out = 40\<rparr>,
      \<lparr>sw_pool = 2, token_in = 11, token_out = 10, amount_in = 40, amount_out = 130\<rparr>]\<rparr>"

theorem arb_exact_witness:
  "\<exists>ev d. arb_detect_in_tx exact_env arb_default_config en_default ex_arb_tx = Some ev \<and> ev_detail ev = Some d \<and>
     ad_profit_token d = 10 \<and> ad_profit_amount d = 30"
proof -
  have "fits_u256 (ta_swaps ex_arb_tx)"
    by (auto simp: fits_u256_def ex_arb_tx_def tx_actions_new_def swap_in_def swap_out_def u256_max_def)
  moreover have "closed_cycle (ta_swaps ex_arb_tx) 10"
    by (auto simp: closed_cycle_def ex_arb_tx_def tx_actions_new_def swap_in_def swap_out_def)
  moreover have "swap_in (ta_swaps ex_arb_tx) 10 - swap_out (ta_swaps ex_arb_tx) 10 = 30" "length (ta_swaps ex_arb_tx) = 2"
    by (simp_all add: ex_arb_tx_def tx_actions_new_def swap_in_def swap_out_def)
  moreover have "\<not> excludes (ac_min_profit_usd arb_default_config) (usd_value exact_env en_default 10 30)"
    by (simp add: excludes_def usd_value_def en_token_def en_default_def)
  ultimately show ?thesis using arb_exact[of ex_arb_tx exact_env arb_default_config en_default 10 30] by simp
qed

end
