(* ===== verification/Flashloan_Detector.thy ===== *)
theory Flashloan_Detector
  imports Token_Flow
begin

text \<open>
  The flash-loan detector (\<open>crates/flashloan-detector/src/lib.rs\<close>): within one transaction, the
  address that first sent a token and was sent back at least as much of it.
\<close>

section \<open>Model\<close>

record flashloan_config =
  fc_min_loan_usd :: usd_price

definition flashloan_default_config :: flashloan_config where
  "flashloan_default_config = \<lparr>fc_min_loan_usd = Fin 1000\<rparr>"

record flashloan_detail =
  fd_lender :: address
  fd_token :: address
  fd_borrowed :: u256
  fd_repaid :: u256
  fd_fee :: u256
  fd_borrowed_usd :: "f64 option"

type_synonym flow_map = "((address \<times> address) \<times> (u256 \<times> u256)) list"

definition add_out :: "u256 \<Rightarrow> (u256 \<times> u256) option \<Rightarrow> u256 \<times> u256" where
  "add_out a v = (case v of None \<Rightarrow> (sat_add 0 a, 0) | Some (out, inflow) \<Rightarrow> (sat_add out a, inflow))"

definition add_in :: "u256 \<Rightarrow> (u256 \<times> u256) option \<Rightarrow> u256 \<times> u256" where
  "add_in a v = (case v of None \<Rightarrow> (0, sat_add 0 a) | Some (out, inflow) \<Rightarrow> (out, sat_add inflow a))"

definition flow_step :: "token_transfer \<Rightarrow> flow_map \<times> (address \<times> address) list \<Rightarrow> flow_map \<times> (address \<times> address) list" where
  "flow_step t st = (case st of (flows, originator) \<Rightarrow>
     (bm_update (tt_token t, tt_to t) (add_in (tt_amount t))
        (bm_update (tt_token t, tt_from t) (add_out (tt_amount t)) flows),
      bm_update (tt_token t) (\<lambda>v. case v of None \<Rightarrow> tt_from t | Some a \<Rightarrow> a) originator))"

definition flashloan_evidence ::
  "b256 \<Rightarrow> address \<Rightarrow> address \<Rightarrow> u256 \<Rightarrow> u256 \<Rightarrow> f64 option \<Rightarrow> flashloan_detail evidence" where
  "flashloan_evidence tx lender token borrowed repaid borrowed_usd =
     (let fee = sat_sub repaid borrowed;
          base = (if borrowed_usd \<noteq> None then round_f64 (70 / 100) else round_f64 (55 / 100));
          score = (if fee \<noteq> 0 then f_add base (round_f64 (5 / 100)) else base)
      in with_impact_usd (map_option usd_amount_new borrowed_usd)
           (from_detail Flashloan [tx] (confidence_new score)
             \<lparr>fd_lender = lender, fd_token = token, fd_borrowed = borrowed, fd_repaid = repaid,
              fd_fee = fee, fd_borrowed_usd = borrowed_usd\<rparr>))"

definition flashloan_check ::
  "float_env \<Rightarrow> flashloan_config \<Rightarrow> enrichment \<Rightarrow> b256 \<Rightarrow> (address \<times> address) list \<Rightarrow>
    (address \<times> address) \<times> (u256 \<times> u256) \<Rightarrow> flashloan_detail evidence option" where
  "flashloan_check fe cfg e h originator p = (case p of ((token, lender), (out, inflow)) \<Rightarrow>
     if hm_get originator token \<noteq> Some lender then None
     else if out = 0 \<or> inflow < out then None
     else let usd = usd_value fe e token out
          in if excludes (fc_min_loan_usd cfg) usd then None
             else Some (flashloan_evidence h lender token out inflow usd))"

definition flashloan_detect_in_tx ::
  "float_env \<Rightarrow> flashloan_config \<Rightarrow> enrichment \<Rightarrow> tx_actions \<Rightarrow> flashloan_detail evidence list" where
  "flashloan_detect_in_tx fe cfg e tx =
     (let (flows, originator) = fold flow_step (ta_transfers tx) ([], [])
      in List.map_filter (flashloan_check fe cfg e (ta_hash tx) originator) flows)"

definition flashloan_detect :: "float_env \<Rightarrow> flashloan_config \<Rightarrow> detection_ctx \<Rightarrow> flashloan_detail evidence list" where
  "flashloan_detect fe cfg ctx = concat (map (flashloan_detect_in_tx fe cfg (ctx_enrichment ctx)) (block_actions ctx))"

section \<open>Flows\<close>

definition flow_get :: "flow_map \<Rightarrow> address \<times> address \<Rightarrow> u256 \<times> u256" where
  "flow_get m k = (case hm_get m k of None \<Rightarrow> (0, 0) | Some v \<Rightarrow> v)"

definition first_sender :: "token_transfer list \<Rightarrow> address \<Rightarrow> address option" where
  "first_sender ts tk = map_option tt_from (find (\<lambda>t. tt_token t = tk) ts)"

lemma flow_step_get:
  assumes "bm_sorted flows" "flow_step t (flows, orig) = (flows', orig')"
  shows "bm_sorted flows' \<and>
    fst (flow_get flows' (tk, a)) = (if tt_token t = tk \<and> tt_from t = a then sat_add (fst (flow_get flows (tk, a))) (tt_amount t)
       else fst (flow_get flows (tk, a))) \<and>
    snd (flow_get flows' (tk, a)) = (if tt_token t = tk \<and> tt_to t = a then sat_add (snd (flow_get flows (tk, a))) (tt_amount t)
       else snd (flow_get flows (tk, a)))"
proof -
  have b: "bm_sorted (bm_update (tt_token t, tt_from t) (add_out (tt_amount t)) flows)"
    using assms(1) by (rule bm_sorted_update)
  have f: "flows' = bm_update (tt_token t, tt_to t) (add_in (tt_amount t))
        (bm_update (tt_token t, tt_from t) (add_out (tt_amount t)) flows)"
    using assms(2) by (simp add: flow_step_def)
  show ?thesis
    unfolding f flow_get_def bm_get_update[OF b] bm_get_update[OF assms(1)]
    using bm_sorted_update[OF b] by (auto simp: add_in_def add_out_def split: option.splits)
qed

lemma flow_fold:
  "bm_sorted (fst st) \<Longrightarrow> bm_sorted (snd st) \<Longrightarrow>
   bm_sorted (fst (fold flow_step ts st)) \<and> bm_sorted (snd (fold flow_step ts st)) \<and>
   unat (fst (flow_get (fst (fold flow_step ts st)) (tk, a))) = min (unat (fst (flow_get (fst st) (tk, a))) + sent ts tk a) u256_max \<and>
   unat (snd (flow_get (fst (fold flow_step ts st)) (tk, a))) = min (unat (snd (flow_get (fst st) (tk, a))) + got ts tk a) u256_max \<and>
   hm_get (snd (fold flow_step ts st)) tk = (case hm_get (snd st) tk of Some x \<Rightarrow> Some x | None \<Rightarrow> first_sender ts tk)"
proof (induction ts arbitrary: st)
  case Nil
  then show ?case using unat_le_u256_max by (simp add: sent_def got_def first_sender_def split: option.splits)
next
  case (Cons t ts)
  obtain flows orig where st: "st = (flows, orig)" by (cases st)
  obtain flows' orig' where st': "flow_step t st = (flows', orig')" by fastforce
  note g = flow_step_get[of flows t orig flows' orig' tk a, OF _ st'[unfolded st]]
  have o: "orig' = bm_update (tt_token t) (\<lambda>v. case v of None \<Rightarrow> tt_from t | Some a \<Rightarrow> a) orig"
    using st' by (simp add: flow_step_def st)
  have b: "bm_sorted flows'" "bm_sorted orig'" using g Cons.prems st o by (simp_all add: bm_sorted_update)
  have og: "hm_get orig' tk = (if tk = tt_token t then Some (case hm_get orig (tt_token t) of None \<Rightarrow> tt_from t | Some a \<Rightarrow> a) else hm_get orig tk)"
    unfolding o using Cons.prems st by (simp add: bm_get_update)
  have s: "sent (t # ts) tk a = (if tt_token t = tk \<and> tt_from t = a then unat (tt_amount t) else 0) + sent ts tk a"
    "got (t # ts) tk a = (if tt_token t = tk \<and> tt_to t = a then unat (tt_amount t) else 0) + got ts tk a"
    by (simp_all add: sent_def got_def)
  have fs: "first_sender (t # ts) tk = (if tt_token t = tk then Some (tt_from t) else first_sender ts tk)"
    by (simp add: first_sender_def)
  have "unat (fst (flow_get flows' (tk, a))) = min (unat (fst (flow_get flows (tk, a))) + (if tt_token t = tk \<and> tt_from t = a then unat (tt_amount t) else 0)) u256_max"
    "unat (snd (flow_get flows' (tk, a))) = min (unat (snd (flow_get flows (tk, a))) + (if tt_token t = tk \<and> tt_to t = a then unat (tt_amount t) else 0)) u256_max"
    using g Cons.prems st unat_le_u256_max by (auto simp: unat_sat_add_u256)
  note u = this
  note IH = Cons.IH[of "(flows', orig')", simplified, OF b]
  have sat: "min (min (x + d) m + y) m = min (x + (d + y)) (m::nat)" for x d m y by linarith
  have h: "hm_get (snd (fold flow_step ts (flows', orig'))) tk =
      (case hm_get orig tk of Some x \<Rightarrow> Some x | None \<Rightarrow> first_sender (t # ts) tk)"
  proof (cases "tk = tt_token t")
    case True
    with IH og fs show ?thesis by (simp split: option.splits)
  next
    case False
    with IH og fs show ?thesis by (simp split: option.splits)
  qed
  show ?case
    unfolding fold_Cons comp_def st' using IH h u by (simp only: s st fst_conv snd_conv sat)
qed


definition transfers_fit :: "token_transfer list \<Rightarrow> bool" where
  "transfers_fit ts \<longleftrightarrow> (\<forall>tk a. sent ts tk a \<le> u256_max \<and> got ts tk a \<le> u256_max)"

lemma flashloan_in_tx_member:
  assumes "transfers_fit (ta_transfers tx)"
  shows "ev \<in> set (flashloan_detect_in_tx fe cfg e tx) \<longleftrightarrow>
    (\<exists>tk a b r. first_sender (ta_transfers tx) tk = Some a \<and> unat b = sent (ta_transfers tx) tk a \<and>
       unat r = got (ta_transfers tx) tk a \<and> 0 < unat b \<and> unat b \<le> unat r \<and>
       \<not> excludes (fc_min_loan_usd cfg) (usd_value fe e tk b) \<and>
       ev = flashloan_evidence (ta_hash tx) a tk b r (usd_value fe e tk b))"
proof -
  let ?ts = "ta_transfers tx"
  obtain flows orig where f: "fold flow_step ?ts ([], []) = (flows, orig)" by fastforce
  have F: "bm_sorted flows \<and> unat (fst (flow_get flows (tk, a))) = min (sent ?ts tk a) u256_max \<and>
      unat (snd (flow_get flows (tk, a))) = min (got ?ts tk a) u256_max \<and> hm_get orig tk = first_sender ?ts tk" for tk a
    using flow_fold[of "([], [])" ?ts tk a] f by (simp add: flow_get_def)
  have v: "unat (fst (flow_get flows (tk, a))) = sent ?ts tk a" "unat (snd (flow_get flows (tk, a))) = got ?ts tk a"
    "hm_get orig tk = first_sender ?ts tk" for tk a
    using F[of tk a] assms by (simp_all add: transfers_fit_def)
  have d: "hm_distinct flows" using F bm_sorted_distinct by blast
  have mem: "(k, x) \<in> set flows \<longleftrightarrow> x = flow_get flows k" if "fst x \<noteq> 0" for k x
    using that hm_in_iff[OF d, of k x] by (auto simp: flow_get_def split: option.splits)
  have "ev \<in> set (flashloan_detect_in_tx fe cfg e tx) \<longleftrightarrow>
      (\<exists>tk a b r. ((tk, a), (b, r)) \<in> set flows \<and> hm_get orig tk = Some a \<and> b \<noteq> 0 \<and> b \<le> r \<and>
        \<not> excludes (fc_min_loan_usd cfg) (usd_value fe e tk b) \<and>
        ev = flashloan_evidence (ta_hash tx) a tk b r (usd_value fe e tk b))"
    by (force simp: flashloan_detect_in_tx_def f map_filter_def flashloan_check_def Let_def not_less split: if_splits)
  also have "\<dots> \<longleftrightarrow> (\<exists>tk a b r. first_sender ?ts tk = Some a \<and> unat b = sent ?ts tk a \<and> unat r = got ?ts tk a \<and>
       0 < unat b \<and> unat b \<le> unat r \<and> \<not> excludes (fc_min_loan_usd cfg) (usd_value fe e tk b) \<and>
       ev = flashloan_evidence (ta_hash tx) a tk b r (usd_value fe e tk b))" (is "?L \<longleftrightarrow> ?R")
  proof -
    have "((tk, a), (b, r)) \<in> set flows \<and> b \<noteq> 0 \<longleftrightarrow> unat b = sent ?ts tk a \<and> unat r = got ?ts tk a \<and> 0 < unat b" for tk a b r
    proof (cases "b = 0")
      case False
      then have "((tk, a), (b, r)) \<in> set flows \<longleftrightarrow> (b, r) = flow_get flows (tk, a)" using mem[where k = "(tk, a)" and x = "(b, r)"] by simp
      also have "\<dots> \<longleftrightarrow> unat b = sent ?ts tk a \<and> unat r = got ?ts tk a"
        using v(1)[of tk a] v(2)[of tk a] by (metis prod.collapse fst_conv snd_conv word_unat_eq_iff)
      finally show ?thesis using False by (simp add: unat_gt_0)
    qed simp
    then show ?thesis unfolding v(3) by (simp add: word_le_nat_alt) metis
  qed
  finally show ?thesis .
qed


interpretation flashloan: detector_plugin "flashloan_detect fe cfg"
proof
  fix ctx and ev
  assume wf: "en_wf (ctx_enrichment ctx)" and ev: "ev \<in> set (flashloan_detect fe cfg ctx)"
  then obtain tx where tx: "tx \<in> set (block_actions ctx)" "ev \<in> set (flashloan_detect_in_tx fe cfg (ctx_enrichment ctx) tx)"
    by (auto simp: flashloan_detect_def)
  then obtain a tk b r u where "ev = flashloan_evidence (ta_hash tx) a tk b r u"
    by (force simp: flashloan_detect_in_tx_def map_filter_def flashloan_check_def Let_def case_prod_beta split: if_splits)
  moreover have "f_nonneg (if c then f_add base (round_f64 (5 / 100)) else base)" if "f_nonneg base" for c base
    using that by (auto intro!: score_intros)
  ultimately show "evidence_ok ctx ev"
    using block_actions_known[OF wf tx(1)]
    by (auto simp: flashloan_evidence_def Let_def evidence_ok_impact intro!: conf_ok_new_nonneg score_intros)
qed

section \<open>Witness\<close>

definition ex_loan_tx :: tx_actions where
  "ex_loan_tx = (tx_actions_new 5 6 None)\<lparr>ta_transfers :=
     [\<lparr>tt_token = 1, tt_from = 20, tt_to = 6, tt_amount = 500\<rparr>, \<lparr>tt_token = 1, tt_from = 6, tt_to = 20, tt_amount = 505\<rparr>]\<rparr>"


end
