(* ===== verification/Liquidation_Detector.thy ===== *)
theory Liquidation_Detector
  imports Token_Flow
begin

text \<open>
  The liquidation detector (\<open>crates/liquidation-detector/src/lib.rs\<close>): the sender of a transaction
  nets out of one token and into another that is worth more by at least the configured bonus.
\<close>

section \<open>Model\<close>

record liquidation_config =
  lc_min_debt_usd :: usd_price
  lc_min_bonus_bps :: bps

definition liquidation_default_config :: liquidation_config where
  "liquidation_default_config = \<lparr>lc_min_debt_usd = Fin 100, lc_min_bonus_bps = 300\<rparr>"

record liquidation_detail =
  lq_liquidator :: address
  lq_debt_token :: address
  lq_collateral_token :: address
  lq_debt_repaid :: u256
  lq_collateral_seized :: u256
  lq_debt_usd :: f64
  lq_collateral_usd :: f64
  lq_bonus_bps :: bps

record leg =
  leg_token :: address
  leg_amount :: u256
  leg_usd :: f64

definition net_step ::
  "address \<Rightarrow> token_transfer \<Rightarrow> (address \<times> u256) list \<times> (address \<times> u256) list \<Rightarrow> (address \<times> u256) list \<times> (address \<times> u256) list" where
  "net_step who t st = (case st of (received, spent) \<Rightarrow>
     (if tt_to t = who then tally_add (tt_token t) (tt_amount t) received else received,
      if tt_from t = who then tally_add (tt_token t) (tt_amount t) spent else spent))"

definition leg_step ::
  "float_env \<Rightarrow> enrichment \<Rightarrow> (address \<times> u256) list \<Rightarrow> address \<times> u256 \<Rightarrow> leg option \<Rightarrow> leg option" where
  "leg_step fe e offs p best = (case p of (token, gross) \<Rightarrow>
     let net = sat_sub gross (tally_get offs token)
     in if net = 0 then best
        else case usd_value fe e token net of
            None \<Rightarrow> best
          | Some usd \<Rightarrow>
              if (case best of None \<Rightarrow> True | Some b \<Rightarrow> f_lt (leg_usd b) usd)
              then Some \<lparr>leg_token = token, leg_amount = net, leg_usd = usd\<rparr> else best)"

definition dominant_leg ::
  "float_env \<Rightarrow> enrichment \<Rightarrow> (address \<times> u256) list \<Rightarrow> (address \<times> u256) list \<Rightarrow> leg option" where
  "dominant_leg fe e flow offs = fold (leg_step fe e offs) flow None"

definition liquidation_evidence :: "b256 \<Rightarrow> address \<Rightarrow> leg \<Rightarrow> leg \<Rightarrow> bps \<Rightarrow> liquidation_detail evidence" where
  "liquidation_evidence tx liquidator debt collateral bonus =
     (let over_floor = f_of_nat (unat (sat_sub bonus 300));
          contrib = f_min (f_mul (round_f64 (2 / 10000)) over_floor) (round_f64 (30 / 100))
      in with_impact_usd (Some (usd_amount_new (leg_usd collateral)))
           (from_detail Liquidation [tx] (confidence_new (f_add (round_f64 (60 / 100)) contrib))
             \<lparr>lq_liquidator = liquidator, lq_debt_token = leg_token debt, lq_collateral_token = leg_token collateral,
              lq_debt_repaid = leg_amount debt, lq_collateral_seized = leg_amount collateral,
              lq_debt_usd = leg_usd debt, lq_collateral_usd = leg_usd collateral, lq_bonus_bps = bonus\<rparr>))"

definition liquidation_detect_in_tx ::
  "float_env \<Rightarrow> liquidation_config \<Rightarrow> enrichment \<Rightarrow> tx_actions \<Rightarrow> liquidation_detail evidence option" where
  "liquidation_detect_in_tx fe cfg e tx =
     (let liquidator = ta_from tx;
          (received, spent) = fold (net_step liquidator) (ta_transfers tx) ([], [])
      in do {
           collateral \<leftarrow> dominant_leg fe e received spent;
           debt \<leftarrow> dominant_leg fe e spent received;
           if leg_token collateral = leg_token debt then None
           else if f_lt (leg_usd debt) (lc_min_debt_usd cfg) then None
           else do {
             bonus \<leftarrow> bps_from_ratio_f64 (f_sub (leg_usd collateral) (leg_usd debt)) (leg_usd debt);
             if bonus < lc_min_bonus_bps cfg then None
             else Some (liquidation_evidence (ta_hash tx) liquidator debt collateral bonus)
           }
         })"

definition liquidation_detect :: "float_env \<Rightarrow> liquidation_config \<Rightarrow> detection_ctx \<Rightarrow> liquidation_detail evidence list" where
  "liquidation_detect fe cfg ctx =
     List.map_filter (liquidation_detect_in_tx fe cfg (ctx_enrichment ctx)) (block_actions ctx)"

section \<open>The dominant leg\<close>

text \<open>A priced net flow of a token: what a leg may be.\<close>

definition leg_of ::
  "float_env \<Rightarrow> enrichment \<Rightarrow> (address \<times> u256) list \<Rightarrow> (address \<times> u256) list \<Rightarrow> leg \<Rightarrow> bool" where
  "leg_of fe e flow offs l \<longleftrightarrow> (\<exists>gross. (leg_token l, gross) \<in> set flow \<and>
     leg_amount l = sat_sub gross (tally_get offs (leg_token l)) \<and> leg_amount l \<noteq> 0 \<and>
     usd_value fe e (leg_token l) (leg_amount l) = Some (leg_usd l))"

lemma usd_value_finite: "usd_value fe e t a = Some v \<Longrightarrow> \<exists>x. v = Fin x"
  by (cases v) (auto simp: usd_value_def Let_def bind_eq_Some_conv split: if_splits)

lemma leg_of_Cons: "leg_of fe e (p # flow) offs l \<longleftrightarrow> leg_of fe e [p] offs l \<or> leg_of fe e flow offs l"
  by (auto simp: leg_of_def)

lemma dominant_fold:
  assumes "\<And>b. best = Some b \<Longrightarrow> \<exists>x. leg_usd b = Fin x"
  shows "case fold (leg_step fe e offs) flow best of
      None \<Rightarrow> best = None \<and> (\<forall>l. \<not> leg_of fe e flow offs l)
    | Some r \<Rightarrow> (\<exists>x. leg_usd r = Fin x) \<and> (best = Some r \<or> leg_of fe e flow offs r) \<and>
        (\<forall>b. best = Some b \<longrightarrow> f_le (leg_usd b) (leg_usd r)) \<and> (\<forall>l. leg_of fe e flow offs l \<longrightarrow> f_le (leg_usd l) (leg_usd r))"
  using assms
proof (induction flow arbitrary: best)
  case Nil
  then show ?case by (auto simp: leg_of_def split: option.splits)
next
  case (Cons p flow)
  let ?b = "leg_step fe e offs p best"
  have fin: "\<exists>x. leg_usd b = Fin x" if "?b = Some b" for b
    using that Cons.prems usd_value_finite
    by (fastforce simp: leg_step_def Let_def split: prod.splits if_splits option.splits)
  have step: "(?b = None \<longleftrightarrow> best = None \<and> (\<forall>l. \<not> leg_of fe e [p] offs l)) \<and>
      (\<forall>b. ?b = Some b \<longrightarrow> (best = Some b \<or> leg_of fe e [p] offs b) \<and> (\<forall>b0. best = Some b0 \<longrightarrow> f_le (leg_usd b0) (leg_usd b)) \<and>
         (\<forall>l. leg_of fe e [p] offs l \<longrightarrow> f_le (leg_usd l) (leg_usd b)))"
  proof -
    obtain token gross where p: "p = (token, gross)" by (cases p)
    let ?net = "sat_sub gross (tally_get offs token)"
    show ?thesis
    proof (cases "?net = 0 \<or> usd_value fe e token ?net = None")
      case True
      then have "\<not> leg_of fe e [p] offs l" for l by (auto simp: leg_of_def p)
      moreover have "?b = best" using True by (auto simp: leg_step_def p Let_def)
      ultimately show ?thesis using Cons.prems by (cases best) fastforce+
    next
      case False
      then obtain usd where u: "usd_value fe e token ?net = Some usd" "?net \<noteq> 0" by auto
      then obtain x where x: "usd = Fin x" using usd_value_finite by blast
      let ?l = "\<lparr>leg_token = token, leg_amount = ?net, leg_usd = usd\<rparr>"
      have only: "leg_of fe e [p] offs l \<longleftrightarrow> l = ?l" for l using u by (cases l) (auto simp: leg_of_def p)
      have b: "?b = (if (case best of None \<Rightarrow> True | Some b \<Rightarrow> f_lt (leg_usd b) usd) then Some ?l else best)"
        using u by (simp add: leg_step_def p Let_def)
      show ?thesis
      proof (cases best)
        case None
        have "?b = Some ?l" unfolding b by (simp add: None)
        with None x show ?thesis by (simp add: only)
      next
        case (Some b0)
        then obtain y where y: "leg_usd b0 = Fin y" using Cons.prems by blast
        show ?thesis
        proof (cases "y < x")
          case True
          have "?b = Some ?l" unfolding b by (simp add: Some y x True)
          with Some x y True show ?thesis by (simp add: only)
        next
          case False
          have "?b = Some b0" unfolding b by (simp add: Some y x False)
          with Some x y False show ?thesis by (simp add: only not_less)
        qed
      qed
    qed
  qed
  note IH = Cons.IH[of ?b, OF fin]
  show ?case
  proof (cases "fold (leg_step fe e offs) flow ?b")
    case None
    with IH step show ?thesis by (simp add: leg_of_Cons[of fe e p flow])
  next
    case (Some r)
    with IH have r: "\<exists>x. leg_usd r = Fin x" "?b = Some r \<or> leg_of fe e flow offs r"
      "\<And>b. ?b = Some b \<Longrightarrow> f_le (leg_usd b) (leg_usd r)" "\<And>l. leg_of fe e flow offs l \<Longrightarrow> f_le (leg_usd l) (leg_usd r)"
      by simp_all
    have "best = Some r \<or> leg_of fe e (p # flow) offs r"
      using r(2) step by (auto simp: leg_of_Cons[of fe e p flow])
    moreover have "f_le (leg_usd b) (leg_usd r)" if "best = Some b" for b
    proof (cases ?b)
      case None
      with step that show ?thesis by simp
    next
      case (Some b1)
      with step that have "f_le (leg_usd b) (leg_usd b1)" by blast
      with r(3)[OF Some] show ?thesis by (rule f_le_trans[rotated])
    qed
    moreover have "f_le (leg_usd l) (leg_usd r)" if "leg_of fe e [p] offs l" for l
    proof (cases ?b)
      case None
      with step that show ?thesis by blast
    next
      case (Some b1)
      with step that have "f_le (leg_usd l) (leg_usd b1)" by blast
      with r(3)[OF Some] show ?thesis by (rule f_le_trans[rotated])
    qed
    ultimately show ?thesis using r Some unfolding fold_Cons comp_def leg_of_Cons[of fe e p flow] by auto
  qed
qed

lemma dominant_leg_spec:
  "(dominant_leg fe e flow offs = None \<longleftrightarrow> (\<forall>l. \<not> leg_of fe e flow offs l)) \<and>
   (\<forall>r. dominant_leg fe e flow offs = Some r \<longrightarrow> leg_of fe e flow offs r \<and>
      (\<forall>l. leg_of fe e flow offs l \<longrightarrow> f_le (leg_usd l) (leg_usd r)))"
  using dominant_fold[of None fe e flow offs] dominant_fold[of None fe e offs flow] by (auto simp: dominant_leg_def split: option.splits)

text \<open>The sender's flows as exact sums.\<close>

definition flow_to :: "address \<Rightarrow> token_transfer list \<Rightarrow> (address \<times> u256) list" where
  "flow_to who ts = map (\<lambda>t. (tt_token t, tt_amount t)) (filter (\<lambda>t. tt_to t = who) ts)"

definition flow_from :: "address \<Rightarrow> token_transfer list \<Rightarrow> (address \<times> u256) list" where
  "flow_from who ts = map (\<lambda>t. (tt_token t, tt_amount t)) (filter (\<lambda>t. tt_from t = who) ts)"

lemma net_fold: "fold (net_step who) ts ([], []) = (tally (flow_to who ts), tally (flow_from who ts))"
proof -
  have "fold (net_step who) ts (r, s) = (fold (\<lambda>(k, a). tally_add k a) (flow_to who ts) r,
      fold (\<lambda>(k, a). tally_add k a) (flow_from who ts) s)" for r s
    by (induction ts arbitrary: r s) (auto simp: net_step_def flow_to_def flow_from_def)
  then show ?thesis by (simp add: tally_def)
qed

text \<open>
  A reported liquidation is a discounted seizure. The debt and the collateral are different
  tokens; each is the sender's largest priced net outflow, respectively net inflow; the debt is worth
  at least the configured minimum, the bonus over it at least the configured floor, and the collateral
  is worth no less than the debt.
\<close>

theorem liquidation_sound:
  assumes "liquidation_detect_in_tx fe cfg e tx = Some ev"
  shows "\<exists>debt collateral bonus.
    ev = liquidation_evidence (ta_hash tx) (ta_from tx) debt collateral bonus \<and>
    leg_token collateral \<noteq> leg_token debt \<and>
    leg_of fe e (tally (flow_to (ta_from tx) (ta_transfers tx))) (tally (flow_from (ta_from tx) (ta_transfers tx))) collateral \<and>
    leg_of fe e (tally (flow_from (ta_from tx) (ta_transfers tx))) (tally (flow_to (ta_from tx) (ta_transfers tx))) debt \<and>
    (\<forall>l. leg_of fe e (tally (flow_to (ta_from tx) (ta_transfers tx))) (tally (flow_from (ta_from tx) (ta_transfers tx))) l \<longrightarrow>
       f_le (leg_usd l) (leg_usd collateral)) \<and>
    (\<forall>l. leg_of fe e (tally (flow_from (ta_from tx) (ta_transfers tx))) (tally (flow_to (ta_from tx) (ta_transfers tx))) l \<longrightarrow>
       f_le (leg_usd l) (leg_usd debt)) \<and>
    \<not> f_lt (leg_usd debt) (lc_min_debt_usd cfg) \<and> lc_min_bonus_bps cfg \<le> bonus \<and>
    bps_from_ratio_f64 (f_sub (leg_usd collateral) (leg_usd debt)) (leg_usd debt) = Some bonus \<and>
    \<not> f_lt (f_sub (leg_usd collateral) (leg_usd debt)) (Fin 0)"
proof -
  let ?r = "tally (flow_to (ta_from tx) (ta_transfers tx))" and ?s = "tally (flow_from (ta_from tx) (ta_transfers tx))"
  from assms obtain collateral debt bonus where c:
    "dominant_leg fe e ?r ?s = Some collateral" "dominant_leg fe e ?s ?r = Some debt"
    "leg_token collateral \<noteq> leg_token debt" "\<not> f_lt (leg_usd debt) (lc_min_debt_usd cfg)"
    "bps_from_ratio_f64 (f_sub (leg_usd collateral) (leg_usd debt)) (leg_usd debt) = Some bonus"
    "\<not> bonus < lc_min_bonus_bps cfg"
    "ev = liquidation_evidence (ta_hash tx) (ta_from tx) debt collateral bonus"
    by (auto simp: liquidation_detect_in_tx_def net_fold Let_def bind_eq_Some_conv split: if_splits)
  have "\<not> f_lt (f_sub (leg_usd collateral) (leg_usd debt)) (Fin 0)"
    using c(5) by (auto simp: bps_from_ratio_f64_def split: if_splits)
  with c dominant_leg_spec[of fe e ?r ?s] dominant_leg_spec[of fe e ?s ?r] show ?thesis
    by (intro exI[of _ debt] exI[of _ collateral] exI[of _ bonus]) (simp add: not_less)
qed

text \<open>
  A zero discount is a figure, not an abstention: the conversion returns zero basis points for
  collateral worth exactly the debt, which the comment at the call says it refuses; with a configured
  floor of zero such an even trade is reported.
\<close>

theorem zero_discount_is_a_bonus:
  "0 < x \<Longrightarrow> bps_from_ratio_f64 (f_sub (Fin x) (Fin x)) (Fin x) = Some 0"
  by (simp add: bps_from_ratio_f64_def f_sub_def round_f64_def f_min_def f_of_nat_int)

lemma liquidation_evidence_ok:
  "tx_known ctx h \<Longrightarrow> evidence_ok ctx (liquidation_evidence h who debt coll bonus)"
proof -
  assume "tx_known ctx h"
  moreover have "conf_ok (confidence_new (f_add (round_f64 (60 / 100))
      (f_min (f_mul (round_f64 (2 / 10000)) (f_of_nat (unat (sat_sub bonus 300)))) (round_f64 (30 / 100)))))"
    by (rule conf_ok_new_nonneg) (auto intro!: score_intros)
  ultimately show ?thesis by (simp add: liquidation_evidence_def Let_def evidence_ok_def)
qed

interpretation liquidation: detector_plugin "liquidation_detect fe cfg"
proof
  fix ctx and ev
  assume wf: "en_wf (ctx_enrichment ctx)" and ev: "ev \<in> set (liquidation_detect fe cfg ctx)"
  then obtain tx where tx: "tx \<in> set (block_actions ctx)" "liquidation_detect_in_tx fe cfg (ctx_enrichment ctx) tx = Some ev"
    by (auto simp: liquidation_detect_def map_filter_def)
  from tx(2) obtain debt coll bonus where "ev = liquidation_evidence (ta_hash tx) (ta_from tx) debt coll bonus"
    by (auto simp: liquidation_detect_in_tx_def Let_def case_prod_beta bind_eq_Some_conv split: if_splits)
  with liquidation_evidence_ok[OF block_actions_known[OF wf tx(1)]] show "evidence_ok ctx ev" by simp
qed


section \<open>Witnesses\<close>

definition ex_prices :: enrichment where
  "ex_prices = \<lparr>en_tokens = [(7, \<lparr>tm_address = 7, tm_symbol = None, tm_decimals = 0\<rparr>),
       (8, \<lparr>tm_address = 8, tm_symbol = None, tm_decimals = 0\<rparr>)], en_pools = [],
     en_prices = [(7, Fin 2), (8, Fin 2)], en_txs = []\<rparr>"

definition ex_seizure :: tx_actions where
  "ex_seizure = (tx_actions_new 5 6 None)\<lparr>ta_transfers :=
     [\<lparr>tt_token = 7, tt_from = 6, tt_to = 30, tt_amount = 100\<rparr>, \<lparr>tt_token = 8, tt_from = 30, tt_to = 6, tt_amount = 200\<rparr>]\<rparr>"

lemma ex_usd: "usd_value exact_env ex_prices 7 100 = Some (Fin 200)" "usd_value exact_env ex_prices 8 200 = Some (Fin 400)"
  by (simp_all add: usd_value_def ex_prices_def en_token_def en_price_def to_whole_def exact_env_def f64_eval)

lemma ex_reported: "liquidation_detect_in_tx exact_env liquidation_default_config ex_prices ex_seizure =
    Some (liquidation_evidence 5 6 \<lparr>leg_token = 7, leg_amount = 100, leg_usd = Fin 200\<rparr>
      \<lparr>leg_token = 8, leg_amount = 200, leg_usd = Fin 400\<rparr> 10000)"
proof -
  have r: "dominant_leg exact_env ex_prices [(8, 200)] [(7, 100)] = Some \<lparr>leg_token = 8, leg_amount = 200, leg_usd = Fin 400\<rparr>"
    "dominant_leg exact_env ex_prices [(7, 100)] [(8, 200)] = Some \<lparr>leg_token = 7, leg_amount = 100, leg_usd = Fin 200\<rparr>"
    by (simp_all add: dominant_leg_def leg_step_def tally_get_def sat_sub_def ex_usd)
  have n: "fold (net_step 6) (ta_transfers ex_seizure) ([], []) = ([(8, 200)], [(7, 100)])"
    by (simp add: ex_seizure_def tx_actions_new_def net_step_def tally_add_def sat_add_def)
  have b: "bps_from_ratio_f64 (f_sub (Fin 400) (Fin 200)) (Fin 200) = Some 10000"
    by (simp add: bps_from_ratio_f64_def f64_eval)
  have "ta_from ex_seizure = 6" "ta_hash ex_seizure = 5" by (simp_all add: ex_seizure_def tx_actions_new_def)
  then show ?thesis
    by (simp add: liquidation_detect_in_tx_def n r b liquidation_default_config_def word_less_nat_alt)
qed

theorem liquidation_sound_witness:
  "\<exists>ev debt collateral bonus. liquidation_detect_in_tx exact_env liquidation_default_config ex_prices ex_seizure = Some ev \<and>
     ev = liquidation_evidence (ta_hash ex_seizure) (ta_from ex_seizure) debt collateral bonus \<and>
     leg_token collateral \<noteq> leg_token debt \<and> lc_min_bonus_bps liquidation_default_config \<le> bonus"
  using liquidation_sound[OF ex_reported] ex_reported by fast

theorem zero_discount_is_a_bonus_witness: "bps_from_ratio_f64 (f_sub (Fin 200) (Fin 200)) (Fin 200) = Some 0"
  using zero_discount_is_a_bonus[of 200] by simp

end
