(* ===== verification/Rugpull_Detector.thy ===== *)
theory Rugpull_Detector
  imports Token_Flow
begin

text \<open>
  The rug-pull detector (\<open>crates/rugpull-detector/src/lib.rs\<close>): within one transaction, the share of a
  known pool's reserve that left it.
\<close>

section \<open>Model\<close>

record rugpull_config =
  rc_min_drain_bps :: bps
  rc_min_pool_usd :: usd_price

definition rugpull_default_config :: rugpull_config where
  "rugpull_default_config = \<lparr>rc_min_drain_bps = 5000, rc_min_pool_usd = Fin 10000\<rparr>"

record rugpull_detail =
  rd_pool :: address
  rd_token :: address
  rd_recipient :: address
  rd_drained :: u256
  rd_reserve_before :: u256
  rd_drain_bps :: bps
  rd_drained_usd :: "f64 option"

record drain =
  drained :: u256
  top_recipient :: address
  top_amount :: u256

definition drain_default :: drain where
  "drain_default = \<lparr>drained = 0, top_recipient = 0, top_amount = 0\<rparr>"

definition drain_add :: "token_transfer \<Rightarrow> drain option \<Rightarrow> drain" where
  "drain_add t v =
     (let d = (case v of None \<Rightarrow> drain_default | Some d \<Rightarrow> d);
          d' = d\<lparr>drained := sat_add (drained d) (tt_amount t)\<rparr>
      in if top_amount d < tt_amount t then d'\<lparr>top_amount := tt_amount t, top_recipient := tt_to t\<rparr> else d')"

definition drain_step ::
  "enrichment \<Rightarrow> token_transfer \<Rightarrow> ((address \<times> address) \<times> drain) list \<Rightarrow> ((address \<times> address) \<times> drain) list" where
  "drain_step e t m = (if en_pool e (tt_from t) = None then m
     else bm_update (tt_from t, tt_token t) (drain_add t) m)"

definition rugpull_evidence ::
  "b256 \<Rightarrow> address \<Rightarrow> address \<Rightarrow> drain \<Rightarrow> u256 \<Rightarrow> bps \<Rightarrow> f64 option \<Rightarrow> rugpull_detail evidence" where
  "rugpull_evidence tx pool token d reserve b usd =
     (let base = (if usd \<noteq> None then round_f64 (60 / 100) else round_f64 (50 / 100));
          over_floor = f_of_nat (unat (sat_sub b 5000));
          contrib = f_min (f_mul (round_f64 (6 / 100000)) over_floor) (round_f64 (35 / 100))
      in with_impact_usd (map_option usd_amount_new usd)
           (from_detail Rugpull [tx] (confidence_new (f_add base contrib))
             \<lparr>rd_pool = pool, rd_token = token, rd_recipient = top_recipient d, rd_drained = drained d,
              rd_reserve_before = reserve, rd_drain_bps = b, rd_drained_usd = usd\<rparr>))"

definition rugpull_check ::
  "float_env \<Rightarrow> rugpull_config \<Rightarrow> enrichment \<Rightarrow> b256 \<Rightarrow> (address \<times> address) \<times> drain \<Rightarrow> rugpull_detail evidence option" where
  "rugpull_check fe cfg e h p = (case p of ((pool, token), d) \<Rightarrow>
     do {
       ps \<leftarrow> en_pool e pool;
       reserve \<leftarrow> reserve_of ps token;
       b \<leftarrow> bps_from_ratio_u256 fe (drained d) reserve;
       if b < rc_min_drain_bps cfg then None
       else let usd = usd_value fe e token (drained d)
            in if excludes (rc_min_pool_usd cfg) usd then None
               else Some (rugpull_evidence h pool token d reserve b usd)
     })"

definition rugpull_detect_in_tx ::
  "float_env \<Rightarrow> rugpull_config \<Rightarrow> enrichment \<Rightarrow> tx_actions \<Rightarrow> rugpull_detail evidence list" where
  "rugpull_detect_in_tx fe cfg e tx =
     List.map_filter (rugpull_check fe cfg e (ta_hash tx)) (fold (drain_step e) (ta_transfers tx) [])"

definition rugpull_detect :: "float_env \<Rightarrow> rugpull_config \<Rightarrow> detection_ctx \<Rightarrow> rugpull_detail evidence list" where
  "rugpull_detect fe cfg ctx = concat (map (rugpull_detect_in_tx fe cfg (ctx_enrichment ctx)) (block_actions ctx))"

section \<open>The drains of a transaction\<close>

definition outflows :: "token_transfer list \<Rightarrow> address \<Rightarrow> address \<Rightarrow> token_transfer list" where
  "outflows ts pool token = filter (\<lambda>t. tt_from t = pool \<and> tt_token t = token) ts"

lemma drain_fold_filter:
  "fold (drain_step e) ts m =
   fold (\<lambda>t. bm_update (tt_from t, tt_token t) (drain_add t)) (filter (\<lambda>t. en_pool e (tt_from t) \<noteq> None) ts) m"
  by (induction ts arbitrary: m) (auto simp: drain_step_def)

text \<open>After any number of additions: the saturated total, and a top transfer that no other exceeds.\<close>

lemma drain_total:
  "unat (drained (fold (\<lambda>t d. drain_add t (Some d)) ts d)) = min (unat (drained d) + sum_list (map (unat \<circ> tt_amount) ts)) u256_max \<and>
   (\<forall>t\<in>set ts. tt_amount t \<le> top_amount (fold (\<lambda>t d. drain_add t (Some d)) ts d)) \<and>
   top_amount d \<le> top_amount (fold (\<lambda>t d. drain_add t (Some d)) ts d) \<and>
   ((top_amount (fold (\<lambda>t d. drain_add t (Some d)) ts d), top_recipient (fold (\<lambda>t d. drain_add t (Some d)) ts d)) =
      (top_amount d, top_recipient d) \<or>
    (\<exists>t\<in>set ts. tt_amount t = top_amount (fold (\<lambda>t d. drain_add t (Some d)) ts d) \<and>
       tt_to t = top_recipient (fold (\<lambda>t d. drain_add t (Some d)) ts d)))"
proof (induction ts arbitrary: d)
  case Nil
  then show ?case using unat_le_u256_max by simp
next
  case (Cons t ts)
  let ?d = "drain_add t (Some d)"
  have "unat (drained ?d) = min (unat (drained d) + unat (tt_amount t)) u256_max"
    "top_amount d \<le> top_amount ?d" "tt_amount t \<le> top_amount ?d"
    "(top_amount ?d, top_recipient ?d) = (top_amount d, top_recipient d) \<or> (tt_amount t = top_amount ?d \<and> tt_to t = top_recipient ?d)"
    by (auto simp: drain_add_def Let_def unat_sat_add_u256)
  with Cons[of ?d] show ?case by (auto intro: order_trans)
qed

lemma drains_get:
  "bm_sorted (fold (drain_step e) ts []) \<and>
   hm_get (fold (drain_step e) ts []) (p, tk) =
     (if en_pool e p = None \<or> outflows ts p tk = [] then None
      else Some (fold (\<lambda>t d. drain_add t (Some d)) (outflows ts p tk) drain_default))"
proof -
  let ?ts = "filter (\<lambda>t. en_pool e (tt_from t) \<noteq> None) ts"
  note g = bm_fold_group[where key = "\<lambda>t. (tt_from t, tt_token t)" and g = drain_add and ts = ?ts and m = "[]" and k = "(p, tk)"]
  have f: "filter (\<lambda>t. (tt_from t, tt_token t) = (p, tk)) ?ts = (if en_pool e p = None then [] else outflows ts p tk)"
    by (auto simp: outflows_def filter_empty_conv intro!: filter_cong)
  have d: "drain_add t None = drain_add t (Some drain_default)" for t by (simp add: drain_add_def)
  have "fold (\<lambda>t v. Some (drain_add t v)) us None = (if us = [] then None else Some (fold (\<lambda>t d. drain_add t (Some d)) us drain_default))" for us
    by (cases us) (simp_all add: fold_Some d)
  with g f show ?thesis unfolding drain_fold_filter by auto
qed


definition the_drain :: "tx_actions \<Rightarrow> address \<Rightarrow> address \<Rightarrow> drain" where
  "the_drain tx p tk = fold (\<lambda>t d. drain_add t (Some d)) (outflows (ta_transfers tx) p tk) drain_default"

lemma unat_the_drain: "unat (drained (the_drain tx p tk)) = min (sent (ta_transfers tx) tk p) u256_max"
proof -
  have "sum_list (map (unat \<circ> tt_amount) (outflows ts p tk)) = sent ts tk p" for ts
    by (induction ts) (auto simp: outflows_def sent_def)
  then show ?thesis
    using drain_total[of "outflows (ta_transfers tx) p tk" drain_default] by (simp add: the_drain_def drain_default_def)
qed

lemma rugpull_in_tx_member:
  "ev \<in> set (rugpull_detect_in_tx fe cfg e tx) \<longleftrightarrow>
   (\<exists>p tk ps r b. en_pool e p = Some ps \<and> outflows (ta_transfers tx) p tk \<noteq> [] \<and> reserve_of ps tk = Some r \<and>
      bps_from_ratio_u256 fe (drained (the_drain tx p tk)) r = Some b \<and> rc_min_drain_bps cfg \<le> b \<and>
      \<not> excludes (rc_min_pool_usd cfg) (usd_value fe e tk (drained (the_drain tx p tk))) \<and>
      ev = rugpull_evidence (ta_hash tx) p tk (the_drain tx p tk) r b (usd_value fe e tk (drained (the_drain tx p tk))))"
proof -
  let ?m = "fold (drain_step e) (ta_transfers tx) []"
  have mem: "((p, tk), d) \<in> set ?m \<longleftrightarrow> en_pool e p \<noteq> None \<and> outflows (ta_transfers tx) p tk \<noteq> [] \<and> d = the_drain tx p tk" for p tk d
  proof -
    have "hm_distinct ?m" using drains_get[of e "ta_transfers tx"] bm_sorted_distinct by blast
    from hm_in_iff[OF this, of "(p, tk)" d] drains_get[of e "ta_transfers tx" p tk] show ?thesis
      by (auto simp: the_drain_def)
  qed
  have "ev \<in> set (rugpull_detect_in_tx fe cfg e tx) \<longleftrightarrow>
      (\<exists>p tk d. ((p, tk), d) \<in> set ?m \<and> rugpull_check fe cfg e (ta_hash tx) ((p, tk), d) = Some ev)"
    by (force simp: rugpull_detect_in_tx_def map_filter_def)
  also have "\<dots> \<longleftrightarrow> (\<exists>p tk. en_pool e p \<noteq> None \<and> outflows (ta_transfers tx) p tk \<noteq> [] \<and>
      rugpull_check fe cfg e (ta_hash tx) ((p, tk), the_drain tx p tk) = Some ev)"
    unfolding mem by blast
  also have "\<dots> \<longleftrightarrow> (\<exists>p tk ps r b. en_pool e p = Some ps \<and> outflows (ta_transfers tx) p tk \<noteq> [] \<and> reserve_of ps tk = Some r \<and>
      bps_from_ratio_u256 fe (drained (the_drain tx p tk)) r = Some b \<and> rc_min_drain_bps cfg \<le> b \<and>
      \<not> excludes (rc_min_pool_usd cfg) (usd_value fe e tk (drained (the_drain tx p tk))) \<and>
      ev = rugpull_evidence (ta_hash tx) p tk (the_drain tx p tk) r b (usd_value fe e tk (drained (the_drain tx p tk))))"
    by (fastforce simp: rugpull_check_def Let_def bind_eq_Some_conv not_less split: if_splits)
  finally show ?thesis .
qed

text \<open>
  C30: A rug pull is reported for a pool and a token exactly when the pool is known, some of the token
  left it in this transaction, the share of the recorded reserve that left is at least the configured
  floor, and the amount is not priced below the configured minimum; the amount reported is the exact
  total that left the pool, as long as it fits 256 bits.
\<close>

theorem rugpull_exact:
  assumes "sent (ta_transfers tx) tk p \<le> u256_max"
  shows "(\<exists>ev\<in>set (rugpull_detect_in_tx fe cfg e tx). \<exists>d. ev_detail ev = Some d \<and> rd_pool d = p \<and> rd_token d = tk \<and>
        rd_drained d = x \<and> rd_reserve_before d = r \<and> rd_drain_bps d = b) \<longleftrightarrow>
     (\<exists>ps. en_pool e p = Some ps \<and> reserve_of ps tk = Some r) \<and>
     (\<exists>t\<in>set (ta_transfers tx). tt_from t = p \<and> tt_token t = tk) \<and>
     unat x = sent (ta_transfers tx) tk p \<and> bps_from_ratio_u256 fe x r = Some b \<and> rc_min_drain_bps cfg \<le> b \<and>
     \<not> excludes (rc_min_pool_usd cfg) (usd_value fe e tk x)" (is "?L \<longleftrightarrow> ?R")
proof -
  let ?d = "the_drain tx p tk"
  have x: "drained ?d = x \<longleftrightarrow> unat x = sent (ta_transfers tx) tk p" for x
    using unat_the_drain[of tx p tk] assms by (auto simp: word_unat_eq_iff)
  have ne: "outflows (ta_transfers tx) p tk \<noteq> [] \<longleftrightarrow> (\<exists>t\<in>set (ta_transfers tx). tt_from t = p \<and> tt_token t = tk)"
    by (auto simp: outflows_def filter_empty_conv)
  have det: "ev_detail (rugpull_evidence h p tk d r b u) = Some \<lparr>rd_pool = p, rd_token = tk, rd_recipient = top_recipient d,
      rd_drained = drained d, rd_reserve_before = r, rd_drain_bps = b, rd_drained_usd = u\<rparr>" for h p tk d r b u
    by (simp add: rugpull_evidence_def Let_def)
  show ?thesis
  proof
    assume ?L
    then obtain ev d where ev: "ev \<in> set (rugpull_detect_in_tx fe cfg e tx)" "ev_detail ev = Some d" "rd_pool d = p"
      "rd_token d = tk" "rd_drained d = x" "rd_reserve_before d = r" "rd_drain_bps d = b" by blast
    from ev(1) obtain p' tk' ps r' b' where m: "en_pool e p' = Some ps" "outflows (ta_transfers tx) p' tk' \<noteq> []"
      "reserve_of ps tk' = Some r'" "bps_from_ratio_u256 fe (drained (the_drain tx p' tk')) r' = Some b'"
      "rc_min_drain_bps cfg \<le> b'" "\<not> excludes (rc_min_pool_usd cfg) (usd_value fe e tk' (drained (the_drain tx p' tk')))"
      "ev = rugpull_evidence (ta_hash tx) p' tk' (the_drain tx p' tk') r' b' (usd_value fe e tk' (drained (the_drain tx p' tk')))"
      unfolding rugpull_in_tx_member by blast
    then have "p' = p" "tk' = tk" "r' = r" "b' = b" "drained ?d = x" using ev by (auto simp: det)
    with m ne x[of x] show ?R by auto
  next
    assume R: ?R
    then have dx: "drained ?d = x" using x by blast
    from R obtain ps where "en_pool e p = Some ps" "reserve_of ps tk = Some r" by blast
    with R dx ne have "rugpull_evidence (ta_hash tx) p tk ?d r b (usd_value fe e tk x) \<in> set (rugpull_detect_in_tx fe cfg e tx)"
      unfolding rugpull_in_tx_member
      by (intro exI[of _ p] exI[of _ tk] exI[of _ ps] exI[of _ r] exI[of _ b]) simp
    then show ?L by (rule bexI[rotated]) (simp add: det dx)
  qed
qed

lemma rugpull_evidence_ok: "tx_known ctx h \<Longrightarrow> evidence_ok ctx (rugpull_evidence h p tk d r b u)"
proof -
  assume "tx_known ctx h"
  moreover have "conf_ok (confidence_new (f_add (if u \<noteq> None then round_f64 (60 / 100) else round_f64 (50 / 100))
      (f_min (f_mul (round_f64 (6 / 100000)) (f_of_nat (unat (sat_sub b 5000)))) (round_f64 (35 / 100)))))"
    by (rule conf_ok_new_nonneg) (auto intro!: score_intros)
  ultimately show ?thesis unfolding rugpull_evidence_def Let_def evidence_ok_impact by simp
qed

interpretation rugpull: detector_plugin "rugpull_detect fe cfg"
proof
  fix ctx and ev
  assume wf: "en_wf (ctx_enrichment ctx)" and ev: "ev \<in> set (rugpull_detect fe cfg ctx)"
  then obtain tx where tx: "tx \<in> set (block_actions ctx)" "ev \<in> set (rugpull_detect_in_tx fe cfg (ctx_enrichment ctx) tx)"
    by (auto simp: rugpull_detect_def)
  from tx(2) obtain p tk d r b u where "ev = rugpull_evidence (ta_hash tx) p tk d r b u"
    unfolding rugpull_in_tx_member by blast
  with rugpull_evidence_ok[OF block_actions_known[OF wf tx(1)]] show "evidence_ok ctx ev" by simp
qed

section \<open>Who is named\<close>

definition ex_pool_env :: enrichment where
  "ex_pool_env = \<lparr>en_tokens = [], en_pools = [(9, \<lparr>ps_address = 9, ps_token0 = 1, ps_token1 = 2, ps_reserve0 = 200, ps_reserve1 = 5\<rparr>)],
     en_prices = [], en_txs = []\<rparr>"

definition ex_drain_tx :: tx_actions where
  "ex_drain_tx = (tx_actions_new 5 6 None)\<lparr>ta_transfers :=
     [\<lparr>tt_token = 1, tt_from = 9, tt_to = 40, tt_amount = 45\<rparr>, \<lparr>tt_token = 1, tt_from = 9, tt_to = 41, tt_amount = 50\<rparr>,
      \<lparr>tt_token = 1, tt_from = 9, tt_to = 40, tt_amount = 45\<rparr>]\<rparr>"

text \<open>
  The reported recipient is that of the largest single transfer, not the one with the largest
  share the detail's documentation promises: here address 40 takes 90 of 140 in two transfers and
  address 41 is named.
\<close>

theorem rugpull_names_largest_transfer:
  "top_recipient (the_drain ex_drain_tx 9 1) = 41 \<and>
   got (ta_transfers ex_drain_tx) 1 40 = 90 \<and> got (ta_transfers ex_drain_tx) 1 41 = 50"
  by (simp add: the_drain_def ex_drain_tx_def tx_actions_new_def outflows_def drain_add_def drain_default_def
      got_def word_less_nat_alt)

lemma ex_bps: "bps_from_ratio_u256 exact_env 140 200 = Some 7000"
proof -
  have "round_f64 (7 / 10) = Fin (6305039478318694 / 9007199254740992)"
    using round_f64_eqI[of "- 1" "7 / 10" "- 53" 6305039478318694] by (simp add: pow2_def power_int_def power_divide)
  moreover have "round_f64 (6305039478318694 / 9007199254740992 * 10000) = Fin 7000"
    using round_f64_eqI[of 12 "6305039478318694 / 9007199254740992 * 10000" "- 40" 7696581394432000]
    by (simp add: pow2_def power_int_def power_divide)
  ultimately show ?thesis by (simp add: bps_from_ratio_u256_def exact_env_def f64_eval)
qed

theorem rugpull_exact_witness:
  "\<exists>ev\<in>set (rugpull_detect_in_tx exact_env rugpull_default_config ex_pool_env ex_drain_tx).
     \<exists>d. ev_detail ev = Some d \<and> rd_pool d = 9 \<and> rd_token d = 1 \<and> rd_drained d = 140 \<and> rd_reserve_before d = 200 \<and> rd_drain_bps d = 7000"
proof -
  have s: "sent (ta_transfers ex_drain_tx) 1 9 = 140" by (simp add: ex_drain_tx_def tx_actions_new_def sent_def)
  have "sent (ta_transfers ex_drain_tx) 1 9 \<le> u256_max" by (simp add: s u256_max_def)
  from rugpull_exact[OF this, of exact_env rugpull_default_config ex_pool_env 140 200 7000] show ?thesis
    by (simp add: s ex_bps) (simp add: ex_pool_env_def en_pool_def reserve_of_def ex_drain_tx_def tx_actions_new_def
        rugpull_default_config_def excludes_def usd_value_def en_token_def word_le_nat_alt)
qed

end
