(* ===== verification/Poisoning_Detector.thy ===== *)
theory Poisoning_Detector
  imports Token_Flow "HOL-Library.Sublist"
begin

text \<open>
  The address-poisoning detector (\<open>crates/poisoning-detector/src/lib.rs\<close>): a zero-value transfer to a
  victim from an address that looks like one the victim moved value with in the same block.

  An address is a 160-bit word; \<open>as_slice\<close> is its 20 bytes, most significant first. A \<open>BTreeSet\<close> is an
  ascending list. The two byte-wise nibble counters are shown to compute the length of the common
  prefix and suffix of the 40 hexadecimal digits.
\<close>

unbundle bit_operations_syntax

section \<open>Model\<close>

record poisoning_config =
  min_prefix_nibbles :: u32
  min_suffix_nibbles :: u32

definition poisoning_default_config :: poisoning_config where
  "poisoning_default_config = \<lparr>min_prefix_nibbles = 4, min_suffix_nibbles = 4\<rparr>"

record poisoning_detail =
  pd_victim :: address
  pd_spoof_address :: address
  pd_mimics :: address
  pd_token :: address
  pd_amount :: u256
  pd_prefix_nibbles :: u32
  pd_suffix_nibbles :: u32

record lookalike =
  la_mimics :: address
  la_prefix :: u32
  la_suffix :: u32

definition addr_bytes :: "address \<Rightarrow> u8 list" where
  "addr_bytes a = map (\<lambda>i. ucast (drop_bit (8 * (19 - i)) a)) [0..<20]"

fun prefix_loop :: "(u8 \<times> u8) list \<Rightarrow> u32 \<Rightarrow> u32" where
  "prefix_loop [] n = n"
| "prefix_loop ((x, y) # ps) n =
     (if x = y then prefix_loop ps (n + 2)
      else if drop_bit 4 x = drop_bit 4 y then n + 1 else n)"

definition matching_prefix_nibbles :: "address \<Rightarrow> address \<Rightarrow> u32" where
  "matching_prefix_nibbles a b = prefix_loop (zip (addr_bytes a) (addr_bytes b)) 0"

fun suffix_loop :: "(u8 \<times> u8) list \<Rightarrow> u32 \<Rightarrow> u32" where
  "suffix_loop [] n = n"
| "suffix_loop ((x, y) # ps) n =
     (if x = y then suffix_loop ps (n + 2)
      else if x AND 0x0f = y AND 0x0f then n + 1 else n)"

definition matching_suffix_nibbles :: "address \<Rightarrow> address \<Rightarrow> u32" where
  "matching_suffix_nibbles a b = suffix_loop (zip (rev (addr_bytes a)) (rev (addr_bytes b))) 0"

definition set_insert :: "'a::linorder \<Rightarrow> 'a list \<Rightarrow> 'a list" where
  "set_insert x xs = (if x \<in> set xs then xs else insort x xs)"

definition add_party :: "address \<Rightarrow> address \<Rightarrow> (address \<times> address list) list \<Rightarrow> (address \<times> address list) list" where
  "add_party a b m = bm_update a (\<lambda>v. set_insert b (case v of None \<Rightarrow> [] | Some s \<Rightarrow> s)) m"

definition counterparty_step :: "token_transfer \<Rightarrow> (address \<times> address list) list \<Rightarrow> (address \<times> address list) list" where
  "counterparty_step t m =
     (if tt_amount t = 0 \<or> tt_from t = tt_to t then m
      else add_party (tt_from t) (tt_to t) (add_party (tt_to t) (tt_from t) m))"

definition value_counterparties :: "detection_ctx \<Rightarrow> (address \<times> address list) list" where
  "value_counterparties ctx = fold (\<lambda>tx m. fold counterparty_step (ta_transfers tx) m) (block_actions ctx) []"

definition lookalike_of :: "poisoning_config \<Rightarrow> address \<Rightarrow> address \<Rightarrow> lookalike option" where
  "lookalike_of cfg spoofer r =
     (let p = matching_prefix_nibbles spoofer r; s = matching_suffix_nibbles spoofer r
      in if min_prefix_nibbles cfg \<le> p \<and> min_suffix_nibbles cfg \<le> s
         then Some \<lparr>la_mimics = r, la_prefix = p, la_suffix = s\<rparr> else None)"

text \<open>\<open>max_by_key\<close>: the last of the maximal elements.\<close>

fun max_by_key :: "('a \<Rightarrow> 'b::linorder) \<Rightarrow> 'a list \<Rightarrow> 'a option" where
  "max_by_key k [] = None"
| "max_by_key k (x # xs) = (case max_by_key k xs of
      None \<Rightarrow> Some x
    | Some y \<Rightarrow> if k x \<le> k y then Some y else Some x)"

definition best_lookalike :: "poisoning_config \<Rightarrow> address \<Rightarrow> address \<Rightarrow> address list \<Rightarrow> lookalike option" where
  "best_lookalike cfg spoofer victim reals =
     max_by_key (\<lambda>l. la_prefix l + la_suffix l)
       (List.map_filter (lookalike_of cfg spoofer) (filter (\<lambda>r. r \<noteq> spoofer \<and> r \<noteq> victim) reals))"

definition poisoning_evidence ::
  "b256 \<Rightarrow> address \<Rightarrow> address \<Rightarrow> address \<Rightarrow> u256 \<Rightarrow> lookalike \<Rightarrow> poisoning_detail evidence" where
  "poisoning_evidence tx victim spoofer token amount best =
     (let extra = f_of_nat (unat (sat_sub (la_prefix best + la_suffix best) (4 + 4)));
          contrib = f_min (f_mul (round_f64 (2 / 100)) extra) (round_f64 (30 / 100))
      in from_detail AddressPoisoning [tx] (confidence_new (f_add (round_f64 (55 / 100)) contrib))
           \<lparr>pd_victim = victim, pd_spoof_address = spoofer, pd_mimics = la_mimics best, pd_token = token,
            pd_amount = amount, pd_prefix_nibbles = la_prefix best, pd_suffix_nibbles = la_suffix best\<rparr>)"

definition poisoning_check ::
  "poisoning_config \<Rightarrow> (address \<times> address list) list \<Rightarrow> b256 \<Rightarrow> token_transfer \<Rightarrow> poisoning_detail evidence option" where
  "poisoning_check cfg parties h t =
     (if tt_amount t \<noteq> 0 then None
      else do {
        reals \<leftarrow> hm_get parties (tt_to t);
        best \<leftarrow> best_lookalike cfg (tt_from t) (tt_to t) reals;
        Some (poisoning_evidence h (tt_to t) (tt_from t) (tt_token t) (tt_amount t) best)
      })"

definition poisoning_detect :: "poisoning_config \<Rightarrow> detection_ctx \<Rightarrow> poisoning_detail evidence list" where
  "poisoning_detect cfg ctx =
     (let parties = value_counterparties ctx
      in concat (map (\<lambda>tx. List.map_filter (poisoning_check cfg parties (ta_hash tx)) (ta_transfers tx)) (block_actions ctx)))"

section \<open>The nibble counters\<close>

text \<open>The reference: the hexadecimal digits of the bytes, most significant first.\<close>

definition nibbles :: "u8 list \<Rightarrow> u8 list" where
  "nibbles bs = concat (map (\<lambda>b. [drop_bit 4 b, b AND 0x0f]) bs)"

definition hex_digits :: "address \<Rightarrow> u8 list" where
  "hex_digits a = nibbles (addr_bytes a)"

lemma byte_eq_nibbles: "(x::u8) = y \<longleftrightarrow> drop_bit 4 x = drop_bit 4 y \<and> x AND 0x0f = y AND 0x0f"
proof -
  have m: "z AND 0x0f = take_bit 4 z" for z :: u8
    by (simp add: take_bit_eq_mask mask_eq_exp_minus_1)
  have "x = y" if d: "drop_bit 4 x = drop_bit 4 y" and t: "take_bit 4 x = take_bit 4 y"
  proof (rule bit_eqI)
    fix n
    show "bit x n \<longleftrightarrow> bit y n"
    proof (cases "n < 4")
      case True
      then show ?thesis using t by (metis bit_take_bit_iff)
    next
      case False
      then have "n = 4 + (n - 4)" by simp
      then show ?thesis using d by (metis bit_drop_bit_eq comp_apply)
    qed
  qed
  then show ?thesis unfolding m by auto
qed

lemma prefix_loop_spec:
  "length xs = length ys \<Longrightarrow> prefix_loop (zip xs ys) n = n + of_nat (length (longest_common_prefix (nibbles xs) (nibbles ys)))"
proof (induction xs ys arbitrary: n rule: list_induct2)
  case (Cons x xs y ys)
  show ?case
    using Cons.IH byte_eq_nibbles[of x y] by (auto simp: nibbles_def)
qed (simp add: nibbles_def)

lemma suffix_loop_spec:
  "length xs = length ys \<Longrightarrow> suffix_loop (zip xs ys) n =
   n + of_nat (length (longest_common_prefix (concat (map (\<lambda>b. [b AND 0x0f, drop_bit 4 b]) xs)) (concat (map (\<lambda>b. [b AND 0x0f, drop_bit 4 b]) ys))))"
proof (induction xs ys arbitrary: n rule: list_induct2)
  case (Cons x xs y ys)
  show ?case
    using Cons.IH byte_eq_nibbles[of x y] by auto
qed simp

lemma rev_nibbles: "rev (nibbles bs) = concat (map (\<lambda>b. [b AND 0x0f, drop_bit 4 b]) (rev bs))"
  by (induction bs) (simp_all add: nibbles_def)

lemma length_hex_digits: "length (hex_digits a) = 40"
  by (simp add: hex_digits_def nibbles_def addr_bytes_def length_concat comp_def sum_list_triv)

text \<open>
  The lookalike test counts hexadecimal digits correctly: the two byte-wise loops return the
  number of digits, out of forty, on which the two addresses agree from the front and from the back,
  stopping in the middle of a byte where they part there.
\<close>

theorem nibble_counters_exact:
  "unat (matching_prefix_nibbles a b) = length (longest_common_prefix (hex_digits a) (hex_digits b)) \<and>
   unat (matching_suffix_nibbles a b) = length (longest_common_prefix (rev (hex_digits a)) (rev (hex_digits b))) \<and>
   length (hex_digits a) = 40"
proof -
  have small: "length (longest_common_prefix xs ys) \<le> length xs" for xs ys :: "u8 list"
    by (metis longest_common_prefix_prefix1 prefix_length_le)
  have len: "length (addr_bytes a) = length (addr_bytes b)" "length (rev (addr_bytes a)) = length (rev (addr_bytes b))"
    by (simp_all add: addr_bytes_def)
  have p: "matching_prefix_nibbles a b = of_nat (length (longest_common_prefix (hex_digits a) (hex_digits b)))"
    using prefix_loop_spec[OF len(1), of 0] by (simp add: matching_prefix_nibbles_def hex_digits_def)
  have s: "matching_suffix_nibbles a b = of_nat (length (longest_common_prefix (rev (hex_digits a)) (rev (hex_digits b))))"
    using suffix_loop_spec[OF len(2), of 0] by (simp add: matching_suffix_nibbles_def hex_digits_def rev_nibbles)
  have "unat (of_nat n :: u32) = n" if "n \<le> 40" for n
    using that by (simp add: unsigned_of_nat take_bit_nat_eq_self)
  with p s small[of "hex_digits a" "hex_digits b"] small[of "rev (hex_digits a)" "rev (hex_digits b)"] show ?thesis
    by (simp add: length_hex_digits)
qed


section \<open>What is reported\<close>

lemma set_set_insert: "set (set_insert x xs) = insert x (set xs)"
  by (auto simp: set_insert_def set_insort_key)

definition party_set :: "(address \<times> address list) list \<Rightarrow> address \<Rightarrow> address set" where
  "party_set m a = (case hm_get m a of None \<Rightarrow> {} | Some s \<Rightarrow> set s)"

text \<open>Two addresses moved value between each other by a transfer.\<close>

definition deals :: "token_transfer \<Rightarrow> address \<Rightarrow> address \<Rightarrow> bool" where
  "deals t a b \<longleftrightarrow> tt_amount t \<noteq> 0 \<and> tt_from t \<noteq> tt_to t \<and>
     (tt_from t = a \<and> tt_to t = b \<or> tt_from t = b \<and> tt_to t = a)"

lemma party_set_add:
  "bm_sorted m \<Longrightarrow> bm_sorted (add_party a b m) \<and> party_set (add_party a b m) x = (if x = a then insert b (party_set m x) else party_set m x)"
  by (simp add: add_party_def party_set_def bm_get_update bm_sorted_update set_set_insert split: option.splits)

lemma counterparty_fold:
  "bm_sorted m \<Longrightarrow> bm_sorted (fold counterparty_step ts m) \<and>
   party_set (fold counterparty_step ts m) x = party_set m x \<union> {y. \<exists>t\<in>set ts. deals t x y}"
proof (induction ts arbitrary: m)
  case (Cons t ts)
  have "bm_sorted (counterparty_step t m) \<and> party_set (counterparty_step t m) x = party_set m x \<union> {y. deals t x y}"
    using Cons.prems party_set_add by (auto simp: counterparty_step_def deals_def)
  with Cons.IH[of "counterparty_step t m"] show ?case by auto
qed simp

lemma value_counterparties_spec:
  "party_set (value_counterparties ctx) x = {y. \<exists>tx\<in>set (block_actions ctx). \<exists>t\<in>set (ta_transfers tx). deals t x y}"
proof -
  have "bm_sorted m \<Longrightarrow> party_set (fold (\<lambda>tx m. fold counterparty_step (ta_transfers tx) m) txs m) x =
      party_set m x \<union> {y. \<exists>tx\<in>set txs. \<exists>t\<in>set (ta_transfers tx). deals t x y}" for txs m
  proof (induction txs arbitrary: m)
    case (Cons tx txs)
    note f = counterparty_fold[OF Cons.prems, of "ta_transfers tx" x]
    with Cons.IH[of "fold counterparty_step (ta_transfers tx) m"] show ?case by auto
  qed simp
  from this[of "[]"] show ?thesis by (simp add: value_counterparties_def party_set_def)
qed

lemma max_by_key_spec:
  "(max_by_key k xs = None \<longleftrightarrow> xs = []) \<and> (\<forall>y. max_by_key k xs = Some y \<longrightarrow> y \<in> set xs \<and> (\<forall>x\<in>set xs. k x \<le> k y))"
proof (induction xs)
  case (Cons x xs)
  show ?case
  proof (cases "max_by_key k xs")
    case None
    with Cons.IH show ?thesis by simp
  next
    case (Some y)
    with Cons.IH have y: "y \<in> set xs" "\<forall>z\<in>set xs. k z \<le> k y" by blast+
    show ?thesis
    proof (cases "k x \<le> k y")
      case True
      with Some y show ?thesis by simp
    next
      case False
      with y(2) have "\<forall>z\<in>set xs. k z \<le> k x" by (meson linear order_trans)
      with Some False show ?thesis by simp
    qed
  qed
qed simp

definition looks_like :: "poisoning_config \<Rightarrow> address \<Rightarrow> address \<Rightarrow> bool" where
  "looks_like cfg s r \<longleftrightarrow> min_prefix_nibbles cfg \<le> matching_prefix_nibbles s r \<and> min_suffix_nibbles cfg \<le> matching_suffix_nibbles s r"

text \<open>
  C31: A bait is reported exactly when it is one: a transfer is reported if and only if it moves
  nothing and its sender looks like some address, other than itself and the recipient, with which the
  recipient exchanged a non-zero transfer in this block. The address named as the mimicked one is such
  a counterparty.
\<close>

theorem poisoning_exact:
  assumes "tx \<in> set (block_actions ctx)" "t \<in> set (ta_transfers tx)"
  shows "((\<exists>ev. poisoning_check cfg (value_counterparties ctx) (ta_hash tx) t = Some ev) \<longleftrightarrow>
      tt_amount t = 0 \<and> (\<exists>r. r \<noteq> tt_from t \<and> r \<noteq> tt_to t \<and> looks_like cfg (tt_from t) r \<and>
         (\<exists>tx'\<in>set (block_actions ctx). \<exists>t'\<in>set (ta_transfers tx'). deals t' (tt_to t) r))) \<and>
    (\<forall>ev d. poisoning_check cfg (value_counterparties ctx) (ta_hash tx) t = Some ev \<longrightarrow> ev_detail ev = Some d \<longrightarrow>
      ev \<in> set (poisoning_detect cfg ctx) \<and> looks_like cfg (tt_from t) (pd_mimics d) \<and>
      (\<exists>tx'\<in>set (block_actions ctx). \<exists>t'\<in>set (ta_transfers tx'). deals t' (tt_to t) (pd_mimics d)))"
proof -
  let ?P = "value_counterparties ctx"
  let ?cand = "\<lambda>reals. List.map_filter (lookalike_of cfg (tt_from t)) (filter (\<lambda>r. r \<noteq> tt_from t \<and> r \<noteq> tt_to t) reals)"
  have cand: "l \<in> set (?cand reals) \<longleftrightarrow> (\<exists>r\<in>set reals. r \<noteq> tt_from t \<and> r \<noteq> tt_to t \<and> looks_like cfg (tt_from t) r \<and>
      l = \<lparr>la_mimics = r, la_prefix = matching_prefix_nibbles (tt_from t) r, la_suffix = matching_suffix_nibbles (tt_from t) r\<rparr>)" for l reals
    by (auto simp: map_filter_def lookalike_of_def looks_like_def Let_def split: if_splits)
  have best: "best_lookalike cfg (tt_from t) (tt_to t) reals = None \<longleftrightarrow> ?cand reals = []"
    "best_lookalike cfg (tt_from t) (tt_to t) reals = Some l \<Longrightarrow> l \<in> set (?cand reals)" for reals l
    using max_by_key_spec[of "\<lambda>l. la_prefix l + la_suffix l" "?cand reals"] by (simp_all add: best_lookalike_def)
  have ps: "r \<in> party_set ?P (tt_to t) \<longleftrightarrow> (\<exists>tx'\<in>set (block_actions ctx). \<exists>t'\<in>set (ta_transfers tx'). deals t' (tt_to t) r)" for r
    by (simp add: value_counterparties_spec)
  have iff: "(\<exists>ev. poisoning_check cfg ?P (ta_hash tx) t = Some ev) \<longleftrightarrow>
      tt_amount t = 0 \<and> (\<exists>r. r \<noteq> tt_from t \<and> r \<noteq> tt_to t \<and> looks_like cfg (tt_from t) r \<and> r \<in> party_set ?P (tt_to t))"
  proof (cases "hm_get ?P (tt_to t)")
    case None
    then show ?thesis by (simp add: poisoning_check_def party_set_def)
  next
    case (Some reals)
    have "(\<exists>ev. poisoning_check cfg ?P (ta_hash tx) t = Some ev) \<longleftrightarrow> tt_amount t = 0 \<and> ?cand reals \<noteq> []"
      using Some best(1)[of reals] by (auto simp: poisoning_check_def bind_eq_Some_conv)
    moreover have "?cand reals \<noteq> [] \<longleftrightarrow> (\<exists>l. l \<in> set (?cand reals))" by (cases "?cand reals") auto
    ultimately show ?thesis unfolding cand using Some by (auto simp: party_set_def)
  qed
  have named: "looks_like cfg (tt_from t) (pd_mimics d) \<and> pd_mimics d \<in> party_set ?P (tt_to t)"
    if "poisoning_check cfg ?P (ta_hash tx) t = Some ev" "ev_detail ev = Some d" for ev d
    using that best(2) unfolding cand
    by (fastforce simp: poisoning_check_def bind_eq_Some_conv poisoning_evidence_def Let_def party_set_def split: if_splits)
  have "ev \<in> set (poisoning_detect cfg ctx)" if "poisoning_check cfg ?P (ta_hash tx) t = Some ev" for ev
    using that assms by (force simp: poisoning_detect_def Let_def map_filter_def)
  with iff named show ?thesis unfolding ps by blast
qed

lemma poisoning_evidence_ok: "tx_known ctx h \<Longrightarrow> evidence_ok ctx (poisoning_evidence h v s tk am best)"
proof -
  assume "tx_known ctx h"
  moreover have "conf_ok (confidence_new (f_add (round_f64 (55 / 100))
      (f_min (f_mul (round_f64 (2 / 100)) (f_of_nat (unat (sat_sub (la_prefix best + la_suffix best) (4 + 4))))) (round_f64 (30 / 100)))))"
    by (rule conf_ok_new_nonneg) (auto intro!: score_intros)
  ultimately show ?thesis
    unfolding poisoning_evidence_def Let_def
    by (simp add: evidence_ok_def) (simp add: from_detail_def with_detail_def evidence_new_def)
qed

interpretation poisoning: detector_plugin "poisoning_detect cfg"
proof
  fix ctx and ev
  assume wf: "en_wf (ctx_enrichment ctx)" and ev: "ev \<in> set (poisoning_detect cfg ctx)"
  then obtain tx t where tx: "tx \<in> set (block_actions ctx)"
    "poisoning_check cfg (value_counterparties ctx) (ta_hash tx) t = Some ev"
    by (auto simp: poisoning_detect_def Let_def map_filter_def)
  from tx(2) obtain v s tk am best where "ev = poisoning_evidence (ta_hash tx) v s tk am best"
    by (auto simp: poisoning_check_def bind_eq_Some_conv split: if_splits)
  with poisoning_evidence_ok[OF block_actions_known[OF wf tx(1)]] show "evidence_ok ctx ev" by simp
qed


text \<open>
  The confidence bonus is not measured from the configured minimum, as the policy comment says,
  but from the built-in four plus four: with a configured minimum of one and one, every lookalike of
  up to eight matching digits gets the same confidence, however far it exceeds what was configured.
\<close>

theorem poisoning_bonus_ignores_config:
  assumes "unat (la_prefix l + la_suffix l) \<le> 8" "unat (la_prefix l' + la_suffix l') \<le> 8"
  shows "ev_confidence (poisoning_evidence h v s tk am l) = ev_confidence (poisoning_evidence h' v' s' tk' am' l')"
proof -
  have "sat_sub (la_prefix l + la_suffix l) (4 + 4) = 0" "sat_sub (la_prefix l' + la_suffix l') (4 + 4) = 0"
    using assms by (simp_all add: sat_sub_eq_0_iff word_le_nat_alt)
  then show ?thesis by (simp add: poisoning_evidence_def Let_def)
qed

section \<open>Witnesses\<close>

definition ex_lookalike :: "u32 \<Rightarrow> u32 \<Rightarrow> lookalike" where
  "ex_lookalike p s = \<lparr>la_mimics = 1, la_prefix = p, la_suffix = s\<rparr>"

theorem poisoning_bonus_ignores_config_witness:
  "ev_confidence (poisoning_evidence 0 0 0 0 0 (ex_lookalike 1 1)) = ev_confidence (poisoning_evidence 0 0 0 0 0 (ex_lookalike 3 4))"
  by (rule poisoning_bonus_ignores_config) (simp_all add: ex_lookalike_def)

definition ex_bait :: token_transfer where
  "ex_bait = \<lparr>tt_token = 3, tt_from = 0x1234000000000000000000000000000000005678, tt_to = 7, tt_amount = 0\<rparr>"

definition ex_pay :: token_transfer where
  "ex_pay = \<lparr>tt_token = 3, tt_from = 7, tt_to = 0x1234900000000000000000000000000000005678, tt_amount = 50\<rparr>"

definition ex_poison_tx :: tx_actions where
  "ex_poison_tx = (tx_actions_new 5 6 None)\<lparr>ta_transfers := [ex_pay, ex_bait]\<rparr>"

definition ex_poison_ctx :: detection_ctx where
  "ex_poison_ctx = \<lparr>ctx_chain = 1, ctx_block = \<lparr>br_number = 5, br_hash = 0\<rparr>, ctx_txs = [5],
     ctx_enrichment = add_tx ex_poison_tx en_default\<rparr>"

lemma ex_actions: "block_actions ex_poison_ctx = [ex_poison_tx]"
  by (simp add: block_actions_def map_filter_def ex_poison_ctx_def add_tx_def en_default_def en_tx_def ex_poison_tx_def tx_actions_new_def)

lemma ex_looks: "looks_like poisoning_default_config (tt_from ex_bait) (tt_to ex_pay)"
  by (simp add: looks_like_def poisoning_default_config_def matching_prefix_nibbles_def matching_suffix_nibbles_def
      ex_bait_def ex_pay_def addr_bytes_def upt_rec word_le_nat_alt)

theorem poisoning_exact_witness:
  "\<exists>ev. poisoning_check poisoning_default_config (value_counterparties ex_poison_ctx) (ta_hash ex_poison_tx) ex_bait = Some ev"
proof -
  have t: "ex_poison_tx \<in> set (block_actions ex_poison_ctx)" "ex_bait \<in> set (ta_transfers ex_poison_tx)" "ex_pay \<in> set (ta_transfers ex_poison_tx)"
    by (simp_all add: ex_actions ex_poison_tx_def)
  have "tt_amount ex_bait = 0" "tt_to ex_pay \<noteq> tt_from ex_bait" "tt_to ex_pay \<noteq> tt_to ex_bait" "deals ex_pay (tt_to ex_bait) (tt_to ex_pay)"
    by (simp_all add: ex_bait_def ex_pay_def deals_def)
  with poisoning_exact[OF t(1,2), of poisoning_default_config] t ex_looks show ?thesis by blast
qed

end
