(* ===== verification/Sem_Ver.thy ===== *)
theory Sem_Ver
  imports Prelude "HOL-Library.Product_Lexorder" "HOL-Library.List_Lexorder" "HOL-Library.Char_ord"
begin

text \<open>
  Detector identity (\<open>crates/detector-api/src/plugin.rs\<close>): \<open>DetectorId\<close>, \<open>SemVer\<close> with its rendering
  and its parser, and the \<open>(id, version)\<close> key whose derived order is the lexicographic one.

  A string is a list of characters; \<open>str::split('.')\<close> and \<open>u16::from_str\<close> are written out as the
  standard library defines them: splitting the empty string gives one empty part, a number may carry
  a leading plus sign, needs at least one digit and must fit 16 bits.
\<close>

type_synonym detector_id = string
type_synonym sem_ver = "u16 \<times> u16 \<times> u16"
type_synonym detector_key = "detector_id \<times> sem_ver"

section \<open>Numbers and splitting\<close>

definition digit_char :: "nat \<Rightarrow> char" where
  "digit_char n = char_of (48 + n)"

fun show_nat :: "nat \<Rightarrow> string" where
  "show_nat n = (if n < 10 then [digit_char n] else show_nat (n div 10) @ [digit_char (n mod 10)])"

declare show_nat.simps [simp del]

definition digit_of :: "char \<Rightarrow> nat option" where
  "digit_of c = (let k = of_char c in if 48 \<le> k \<and> k \<le> 57 then Some (k - 48) else None)"

fun parse_digits :: "nat \<Rightarrow> string \<Rightarrow> nat option" where
  "parse_digits acc [] = Some acc"
| "parse_digits acc (c # cs) = (case digit_of c of
      None \<Rightarrow> None
    | Some d \<Rightarrow> if acc * 10 + d < 2 ^ 16 then parse_digits (acc * 10 + d) cs else None)"

fun parse_u16 :: "string \<Rightarrow> u16 option" where
  "parse_u16 [] = None"
| "parse_u16 [c] = map_option of_nat (parse_digits 0 [c])"
| "parse_u16 (c # cs) = map_option of_nat (parse_digits 0 (if c = CHR ''+'' then cs else c # cs))"

fun split_dot :: "string \<Rightarrow> string list" where
  "split_dot [] = [[]]"
| "split_dot (c # cs) =
     (if c = CHR ''.'' then [] # split_dot cs
      else case split_dot cs of p # ps \<Rightarrow> (c # p) # ps | [] \<Rightarrow> [[c]])"

section \<open>Semantic versions\<close>

definition sem_ver_show :: "sem_ver \<Rightarrow> string" where
  "sem_ver_show v = (case v of (a, b, c) \<Rightarrow>
     show_nat (unat a) @ ''.'' @ show_nat (unat b) @ ''.'' @ show_nat (unat c))"

text \<open>The error carries the input, as \<open>SemVerParseError\<close> does.\<close>

definition next_part :: "string \<Rightarrow> string list \<Rightarrow> string + u16 \<times> string list" where
  "next_part s parts = (case parts of
      [] \<Rightarrow> Inl s
    | p # ps \<Rightarrow> (case parse_u16 p of None \<Rightarrow> Inl s | Some n \<Rightarrow> Inr (n, ps)))"

definition sem_ver_from_str :: "string \<Rightarrow> string + sem_ver" where
  "sem_ver_from_str s = (case next_part s (split_dot s) of
      Inl e \<Rightarrow> Inl e
    | Inr (a, ps) \<Rightarrow> (case next_part s ps of
        Inl e \<Rightarrow> Inl e
      | Inr (b, qs) \<Rightarrow> (case next_part s qs of
          Inl e \<Rightarrow> Inl e
        | Inr (c, rs) \<Rightarrow> if rs \<noteq> [] then Inl s else Inr (a, b, c))))"

section \<open>Round trip\<close>

lemma digit_of_char: "n < 10 \<Longrightarrow> digit_of (digit_char n) = Some n"
  by (simp add: digit_of_def digit_char_def of_char_of Let_def)

lemma digit_char_neq: "n < 10 \<Longrightarrow> digit_char n \<noteq> CHR ''.'' \<and> digit_char n \<noteq> CHR ''+''"
proof -
  assume n: "n < 10"
  then have "of_char (digit_char n) = 48 + n" by (simp add: digit_char_def of_char_of)
  moreover have "of_char (CHR ''.'') = (46::nat)" "of_char (CHR ''+'') = (43::nat)" by simp_all
  ultimately show ?thesis by auto
qed

lemma parse_digits_append:
  "parse_digits acc (xs @ [c]) = (case parse_digits acc xs of
      None \<Rightarrow> None
    | Some v \<Rightarrow> (case digit_of c of None \<Rightarrow> None | Some d \<Rightarrow> if v * 10 + d < 2 ^ 16 then Some (v * 10 + d) else None))"
  by (induction xs arbitrary: acc) (auto split: option.splits)

lemma show_nat_nonempty: "show_nat n \<noteq> []"
  by (subst show_nat.simps) simp

lemma parse_show_nat: "n < 2 ^ 16 \<Longrightarrow> parse_digits 0 (show_nat n) = Some n"
proof (induction n rule: show_nat.induct)
  case (1 n)
  show ?case
  proof (cases "n < 10")
    case True
    with 1 show ?thesis by (subst show_nat.simps) (simp add: digit_of_char)
  next
    case False
    with 1 have "parse_digits 0 (show_nat (n div 10)) = Some (n div 10)" by simp
    moreover have "n div 10 * 10 + n mod 10 = n" by simp
    ultimately show ?thesis
      using False 1(2) by (subst show_nat.simps) (simp add: parse_digits_append digit_of_char del: mult_div_mod_eq)
  qed
qed

lemma show_nat_chars: "c \<in> set (show_nat n) \<Longrightarrow> c \<noteq> CHR ''.'' \<and> c \<noteq> CHR ''+''"
proof (induction n rule: show_nat.induct)
  case (1 n)
  then show ?case using digit_char_neq[of n] digit_char_neq[of "n mod 10"]
    by (subst (asm) (2) show_nat.simps) (auto split: if_splits)
qed

lemma parse_u16_show: "parse_u16 (show_nat (unat (v::u16))) = Some v"
proof -
  have "unat v < 2 ^ LENGTH(16)" by (rule unsigned_less)
  then have p: "parse_digits 0 (show_nat (unat v)) = Some (unat v)" by (intro parse_show_nat) simp
  show ?thesis
  proof (cases "show_nat (unat v)")
    case (Cons c cs)
    then have "c \<noteq> CHR ''+''" using show_nat_chars[of c "unat v"] by simp
    with Cons p show ?thesis by (cases cs) simp_all
  qed (simp add: show_nat_nonempty)
qed

lemma split_dot_nonempty: "split_dot s \<noteq> []"
  by (induction s) (auto split: list.splits)

lemma split_dot_append: "CHR ''.'' \<notin> set p \<Longrightarrow> split_dot (p @ CHR ''.'' # s) = p # split_dot s"
  by (induction p) auto

lemma split_dot_single: "CHR ''.'' \<notin> set p \<Longrightarrow> split_dot p = [p]"
  by (induction p) auto

lemma sem_ver_parse_show: "sem_ver_from_str (sem_ver_show v) = Inr v"
proof -
  obtain a b c where v: "v = (a, b, c)" by (cases v)
  have nd: "CHR ''.'' \<notin> set (show_nat n)" for n using show_nat_chars by blast
  have "split_dot (sem_ver_show v) = [show_nat (unat a), show_nat (unat b), show_nat (unat c)]"
    by (simp add: sem_ver_show_def v split_dot_append split_dot_single nd)
  then show ?thesis
    by (simp add: sem_ver_from_str_def next_part_def parse_u16_show v)
qed

text \<open>
  A version survives its wire form: parsing the rendering of any version gives the version
  back, and the parser accepts nothing but three dot-separated parts, reporting the input otherwise.
\<close>

theorem sem_ver_roundtrip:
  "sem_ver_from_str (sem_ver_show v) = Inr v \<and>
   (\<forall>s. length (split_dot s) \<noteq> 3 \<longrightarrow> sem_ver_from_str s = Inl s)"
proof -
  have "sem_ver_from_str s = Inl s" if "length (split_dot s) \<noteq> 3" for s
    using that by (auto simp: sem_ver_from_str_def next_part_def split: sum.splits option.splits list.splits)
  with sem_ver_parse_show show ?thesis by blast
qed

theorem sem_ver_roundtrip_witness:
  "sem_ver_from_str (sem_ver_show (2, 13, 4)) = Inr (2, 13, 4) \<and> sem_ver_from_str ''1.2.3.4'' = Inl ''1.2.3.4''"
  using sem_ver_roundtrip[of "(2, 13, 4)"] by simp

end
