(* ===== verification/Measured.thy ===== *)
theory Measured
  imports Sem_Ver F64
begin

text \<open>
  The identity of a detector build and the measurements keyed on it (\<open>crates/detection/src/measured.rs\<close>
  and \<open>ConfigHash\<close> of \<open>model.rs\<close>): canonical JSON, the config hash, the typed
  \<open>(id, version, config_hash)\<close> triple with its wire form, and the store that hands a measurement out
  only for the build it was taken from.

  What belongs to third-party crates is the record \<open>codec\<close>: SHA-256 (\<open>sha2\<close>), hexadecimal encoding and
  decoding (\<open>alloy\<close>) and the rendering of a JSON scalar (\<open>serde_json\<close>). \<open>codec_ok\<close> states what their
  documentation promises. A string is the list of its UTF-8 bytes as characters, so the order of
  \<open>String\<close> is the lexicographic one.
\<close>

section \<open>JSON values and their canonical bytes\<close>

datatype json_number = PosInt nat | NegInt int | Float f64

datatype json =
    JNull
  | JBool bool
  | JNumber json_number
  | JString string
  | JArray "json list"
  | JObject "(string \<times> json) list"

record codec =
  cd_sha256 :: "string \<Rightarrow> u8 list"
  cd_hex_encode :: "u8 list \<Rightarrow> string"
  cd_hex_decode :: "string \<Rightarrow> u8 list option"
  cd_write_scalar :: "json \<Rightarrow> string"

text \<open>The loops with \<open>if i > 0\<close>: a comma before every element but the first.\<close>

fun comma_separated :: "string list \<Rightarrow> string" where
  "comma_separated [] = []"
| "comma_separated [x] = x"
| "comma_separated (x # y # zs) = x @ '','' @ comma_separated (y # zs)"

lemma size_list_entry: "(k, v) \<in> set kvs \<Longrightarrow> size v \<le> size_list (size_prod (\<lambda>x. 0) size) kvs"
  by (induction kvs) auto

lemma size_list_elem: "v \<in> set vs \<Longrightarrow> size v \<le> size_list size vs"
  by (induction vs) auto

function write_canonical :: "codec \<Rightarrow> json \<Rightarrow> string" where
  "write_canonical cd (JObject kvs) =
     ''{'' @ comma_separated (map (\<lambda>(k, v). cd_write_scalar cd (JString k) @ '':'' @ write_canonical cd v)
                                (sort_key fst kvs)) @ ''}''"
| "write_canonical cd (JArray vs) = ''['' @ comma_separated (map (write_canonical cd) vs) @ '']''"
| "write_canonical cd JNull = cd_write_scalar cd JNull"
| "write_canonical cd (JBool b) = cd_write_scalar cd (JBool b)"
| "write_canonical cd (JNumber n) = cd_write_scalar cd (JNumber n)"
| "write_canonical cd (JString s) = cd_write_scalar cd (JString s)"
  by pat_completeness auto

termination by (relation "measure (\<lambda>(cd, v). size v)") (auto simp: less_Suc_eq_le size_list_entry size_list_elem)

definition canonical_json :: "codec \<Rightarrow> json \<Rightarrow> string" where
  "canonical_json cd v = write_canonical cd v"

section \<open>The config hash\<close>

type_synonym config_hash = "u8 list"

definition newline :: string where
  "newline = [CHR 0x0A]"

definition bytes_str :: "u8 list \<Rightarrow> string" where
  "bytes_str bs = map (\<lambda>b. char_of (unat b)) bs"

text \<open>What the hasher has been fed when \<open>finalize\<close> is called.\<close>

definition build_preimage :: "detector_id \<Rightarrow> sem_ver \<Rightarrow> string \<Rightarrow> string" where
  "build_preimage i v config =
     ''config-hash/detector-build/v1'' @ newline @ i @ newline @ sem_ver_show v @ newline @ config"

definition model_preimage :: "config_hash \<Rightarrow> u8 list \<Rightarrow> string" where
  "model_preimage h digest = ''config-hash/model-artifact/v1'' @ newline @ bytes_str h @ bytes_str digest"

definition config_hash_of :: "codec \<Rightarrow> json \<Rightarrow> config_hash" where
  "config_hash_of cd config = cd_sha256 cd (canonical_json cd config)"

definition for_build :: "codec \<Rightarrow> detector_id \<Rightarrow> sem_ver \<Rightarrow> json \<Rightarrow> config_hash" where
  "for_build cd i v config = cd_sha256 cd (build_preimage i v (canonical_json cd config))"

definition with_model_artifact :: "codec \<Rightarrow> u8 list \<Rightarrow> config_hash \<Rightarrow> config_hash" where
  "with_model_artifact cd digest h = cd_sha256 cd (model_preimage h digest)"

definition config_hash_to_hex :: "codec \<Rightarrow> config_hash \<Rightarrow> string" where
  "config_hash_to_hex cd h = cd_hex_encode cd h"

datatype config_hash_parse_error = NotHex | WrongLength nat

definition config_hash_from_str :: "codec \<Rightarrow> string \<Rightarrow> config_hash_parse_error + config_hash" where
  "config_hash_from_str cd s = (case cd_hex_decode cd s of
      None \<Rightarrow> Inl NotHex
    | Some bs \<Rightarrow> if length bs = 32 then Inr bs else Inl (WrongLength (length bs)))"

definition codec_ok :: "codec \<Rightarrow> bool" where
  "codec_ok cd \<longleftrightarrow> (\<forall>s. length (cd_sha256 cd s) = 32) \<and> (\<forall>bs. cd_hex_decode cd (cd_hex_encode cd bs) = Some bs)"

section \<open>Builds\<close>

record detector_ref =
  dr_id :: string
  dr_version :: string
  dr_config_hash :: string

record build =
  bd_id :: string
  bd_version :: sem_ver
  bd_config_hash :: config_hash

datatype build_parse_error =
    VersionError string string
  | ConfigHashError string config_hash_parse_error

definition build_new :: "string \<Rightarrow> sem_ver \<Rightarrow> config_hash \<Rightarrow> build" where
  "build_new i v h = \<lparr>bd_id = i, bd_version = v, bd_config_hash = h\<rparr>"

definition build_from_ref :: "codec \<Rightarrow> detector_ref \<Rightarrow> build_parse_error + build" where
  "build_from_ref cd r = (case sem_ver_from_str (dr_version r) of
      Inl e \<Rightarrow> Inl (VersionError (dr_id r) e)
    | Inr v \<Rightarrow> (case config_hash_from_str cd (dr_config_hash r) of
        Inl e \<Rightarrow> Inl (ConfigHashError (dr_id r) e)
      | Inr h \<Rightarrow> Inr (build_new (dr_id r) v h)))"

definition build_to_ref :: "codec \<Rightarrow> build \<Rightarrow> detector_ref" where
  "build_to_ref cd b =
     \<lparr>dr_id = bd_id b, dr_version = sem_ver_show (bd_version b), dr_config_hash = config_hash_to_hex cd (bd_config_hash b)\<rparr>"

definition build_show :: "codec \<Rightarrow> build \<Rightarrow> string" where
  "build_show cd b = ''v'' @ sem_ver_show (bd_version b) @ '' cfg '' @ take 12 (config_hash_to_hex cd (bd_config_hash b))"

section \<open>Measurements keyed on builds\<close>

record 't measured =
  ms_version :: sem_ver
  ms_config_hash :: config_hash
  ms_metrics :: 't

datatype 't measured_lookup = Current_build 't | Stale build | Missing

record stale_measurement =
  sm_running :: build
  sm_measured :: build

type_synonym 't build_keyed = "(string \<times> 't measured) list"

definition measured_build :: "string \<Rightarrow> 't measured \<Rightarrow> build" where
  "measured_build i m = build_new i (ms_version m) (ms_config_hash m)"

definition describes :: "'t measured \<Rightarrow> build \<Rightarrow> bool" where
  "describes m running \<longleftrightarrow> ms_version m = bd_version running \<and> ms_config_hash m = bd_config_hash running"

definition bk_new :: "'t build_keyed" where
  "bk_new = []"

definition bk_insert :: "build \<Rightarrow> 't \<Rightarrow> 't build_keyed \<Rightarrow> 't build_keyed" where
  "bk_insert b t s = bm_update (bd_id b)
     (\<lambda>_. \<lparr>ms_version = bd_version b, ms_config_hash = bd_config_hash b, ms_metrics = t\<rparr>) s"

definition bk_get :: "'t build_keyed \<Rightarrow> string \<Rightarrow> 't measured option" where
  "bk_get s i = hm_get s i"

definition bk_lookup :: "'t build_keyed \<Rightarrow> build \<Rightarrow> 't measured_lookup" where
  "bk_lookup s running = (case hm_get s (bd_id running) of
      Some m \<Rightarrow> if describes m running then Current_build (ms_metrics m) else Stale (measured_build (bd_id running) m)
    | None \<Rightarrow> Missing)"

definition stale_against :: "'t build_keyed \<Rightarrow> build list \<Rightarrow> stale_measurement list" where
  "stale_against s running = List.map_filter (\<lambda>b. case bk_lookup s b of
      Stale m \<Rightarrow> Some \<lparr>sm_running = b, sm_measured = m\<rparr>
    | Current_build t \<Rightarrow> None
    | Missing \<Rightarrow> None) running"

definition bk_from_iter :: "(build \<times> 't) list \<Rightarrow> 't build_keyed" where
  "bk_from_iter xs = fold (\<lambda>(b, t). bk_insert b t) xs bk_new"

section \<open>Canonical JSON does not see the order of keys\<close>

text \<open>
  \<open>json_same v w\<close>: the two values are the same data, written with the members of their objects in
  possibly different orders. An object has each key once, as a \<open>serde_json::Map\<close> has.
\<close>

inductive json_same :: "json \<Rightarrow> json \<Rightarrow> bool" where
  same_null: "json_same JNull JNull"
| same_bool: "json_same (JBool b) (JBool b)"
| same_number: "json_same (JNumber n) (JNumber n)"
| same_string: "json_same (JString s) (JString s)"
| same_array: "list_all2 json_same vs ws \<Longrightarrow> json_same (JArray vs) (JArray ws)"
| same_object: "\<lbrakk>distinct (map fst kvs); distinct (map fst lws); fst ` set kvs = fst ` set lws;
     \<And>k v w. (k, v) \<in> set kvs \<Longrightarrow> (k, w) \<in> set lws \<Longrightarrow> json_same v w\<rbrakk> \<Longrightarrow> json_same (JObject kvs) (JObject lws)"

text \<open>Sorting the members of an object lists the values in key order.\<close>

lemma sort_entries:
  assumes "distinct (map fst kvs)"
  shows "sort_key fst kvs = map (\<lambda>k. (k, the (map_of kvs k))) (sorted_list_of_set (fst ` set kvs))"
proof -
  let ?ys = "sort_key fst kvs"
  have "distinct (map fst ?ys)" using assms by (simp add: distinct_map)
  then have k: "map fst ?ys = sorted_list_of_set (fst ` set kvs)"
    by (intro sorted_distinct_set_unique) simp_all
  have "map (\<lambda>k. (k, the (map_of kvs k))) (map fst ?ys) = map id ?ys"
    unfolding map_map by (rule map_cong) (use assms in auto)
  then show ?thesis by (simp add: k)
qed

lemma write_canonical_same: "json_same v w \<Longrightarrow> write_canonical cd v = write_canonical cd w"
proof (induction rule: json_same.induct)
  case (same_array vs ws)
  then have "map (write_canonical cd) vs = map (write_canonical cd) ws"
    by (induction rule: list_all2_induct) auto
  then show ?case by simp
next
  case (same_object kvs lws)
  let ?line = "\<lambda>(k, v). cd_write_scalar cd (JString k) @ '':'' @ write_canonical cd v"
  have "write_canonical cd (the (map_of kvs k)) = write_canonical cd (the (map_of lws k))"
    if "k \<in> fst ` set kvs" for k
  proof -
    from that obtain v where v: "(k, v) \<in> set kvs" by force
    from that same_object.hyps(3) obtain w where w: "(k, w) \<in> set lws" by force
    from same_object v w show ?thesis by simp
  qed
  then have "map ?line (sort_key fst kvs) = map ?line (sort_key fst lws)"
    using same_object.hyps(3) by (simp add: sort_entries[OF same_object.hyps(1)] sort_entries[OF same_object.hyps(2)])
  then show ?case by simp
qed simp_all

section \<open>The preimages of the config hash\<close>

lemma split_at_newline:
  assumes "CHR 0x0A \<notin> set a" "CHR 0x0A \<notin> set b" "a @ CHR 0x0A # x = b @ CHR 0x0A # y"
  shows "a = b \<and> x = y"
  using assms(3,1,2)
proof (induction a arbitrary: b)
  case Nil
  then show ?case by (cases b) auto
next
  case (Cons c a)
  then show ?case by (cases b) auto
qed

lemma show_nat_no_newline: "CHR 0x0A \<notin> set (show_nat n)"
proof -
  have d: "digit_char k \<noteq> CHR 0x0A" if "k < 10" for k
  proof -
    have "of_char (digit_char k) = 48 + k" using that by (simp add: digit_char_def of_char_of)
    moreover have "of_char (CHR 0x0A) = (10::nat)" by simp
    ultimately show ?thesis by auto
  qed
  show ?thesis
  proof (induction n rule: show_nat.induct)
    case (1 n)
    then show ?case using d[of n] d[of "n mod 10"] by (subst show_nat.simps) auto
  qed
qed

lemma sem_ver_show_no_newline: "CHR 0x0A \<notin> set (sem_ver_show v)"
  by (cases v) (simp add: sem_ver_show_def show_nat_no_newline)

lemma sem_ver_show_inject: "sem_ver_show v = sem_ver_show w \<longleftrightarrow> v = w"
  by (metis sem_ver_parse_show sum.inject(2))

lemma build_preimage_inject:
  assumes "CHR 0x0A \<notin> set i" "CHR 0x0A \<notin> set j"
  shows "build_preimage i v c = build_preimage j w d \<longleftrightarrow> i = j \<and> v = w \<and> c = d"
proof
  assume "build_preimage i v c = build_preimage j w d"
  then have "i @ CHR 0x0A # (sem_ver_show v @ CHR 0x0A # c) = j @ CHR 0x0A # (sem_ver_show w @ CHR 0x0A # d)"
    by (simp add: build_preimage_def newline_def)
  from split_at_newline[OF assms this] have "i = j"
    "sem_ver_show v @ CHR 0x0A # c = sem_ver_show w @ CHR 0x0A # d" by auto
  with split_at_newline[OF sem_ver_show_no_newline sem_ver_show_no_newline this(2)]
  show "i = j \<and> v = w \<and> c = d" by (simp add: sem_ver_show_inject)
qed simp

lemma bytes_str_inject: "bytes_str a = bytes_str b \<longleftrightarrow> a = b"
proof -
  have "inj (\<lambda>b::u8. char_of (unat b) :: char)"
  proof (rule injI)
    fix x y :: u8 assume "(char_of (unat x) :: char) = char_of (unat y)"
    then have "(of_char (char_of (unat x) :: char) :: nat) = of_char (char_of (unat y) :: char)" by simp
    moreover have "unat x < 256" "unat y < 256" using unsigned_less[of x] unsigned_less[of y] by simp_all
    ultimately show "x = y" by (simp add: of_char_of word_unat_eq_iff)
  qed
  then show ?thesis by (simp add: bytes_str_def inj_map_eq_map)
qed

text \<open>
  The config hash identifies the build. Two builds feed the hasher the same bytes only if they agree
  on id, version and canonical configuration, whatever characters the configuration contains (ids have
  no newline, being compile-time names); the bytes never coincide with those of a model fold, which in
  turn determine both the folded hash and the model digest. So up to collisions of SHA-256 itself, two
  different triples never share a hash.
\<close>

theorem config_hash_preimages:
  assumes "CHR 0x0A \<notin> set i" "CHR 0x0A \<notin> set j" "length h = 32" "length h' = 32"
  shows "(build_preimage i v c = build_preimage j w d \<longleftrightarrow> i = j \<and> v = w \<and> c = d) \<and>
    build_preimage i v c \<noteq> model_preimage h g \<and>
    (model_preimage h g = model_preimage h' g' \<longleftrightarrow> h = h' \<and> g = g')"
proof -
  have "length (bytes_str h) = length (bytes_str h')" using assms by (simp add: bytes_str_def)
  then have "model_preimage h g = model_preimage h' g' \<longleftrightarrow> h = h' \<and> g = g'"
    by (simp add: model_preimage_def bytes_str_inject)
  then show ?thesis
    using build_preimage_inject[OF assms(1,2)] by (simp add: build_preimage_def model_preimage_def)
qed

text \<open>
  Canonical JSON does not see the order of keys: two values that are the same data with the members
  of their objects in any order, at any depth, are written as the same bytes and so hash alike, both
  plainly and as the configuration of a build.
\<close>

theorem canonical_json_key_order:
  assumes "json_same v w"
  shows "canonical_json cd v = canonical_json cd w \<and> config_hash_of cd v = config_hash_of cd w \<and>
    for_build cd i s v = for_build cd i s w"
  using write_canonical_same[OF assms] by (simp add: canonical_json_def config_hash_of_def for_build_def)

section \<open>Builds and their wire form\<close>

lemma build_ref_roundtrip:
  assumes "codec_ok cd" "length (bd_config_hash b) = 32"
  shows "build_from_ref cd (build_to_ref cd b) = Inr b"
proof -
  have "sem_ver_from_str (sem_ver_show (bd_version b)) = Inr (bd_version b)" by (rule sem_ver_parse_show)
  with assms show ?thesis
    by (simp add: build_from_ref_def build_to_ref_def config_hash_from_str_def config_hash_to_hex_def
        codec_ok_def build_new_def)
qed

text \<open>
  A build survives its wire form, which is injective: parsing the reference stamped on an event
  gives the build back. A reference that does parse names a 32-byte hash, and the error otherwise names
  the detector and the first component at fault.
\<close>

theorem build_roundtrip:
  assumes "codec_ok cd"
  shows "(length (bd_config_hash b) = 32 \<longrightarrow> build_from_ref cd (build_to_ref cd b) = Inr b) \<and>
    (case build_from_ref cd r of
       Inr b \<Rightarrow> bd_id b = dr_id r \<and> sem_ver_from_str (dr_version r) = Inr (bd_version b) \<and>
         cd_hex_decode cd (dr_config_hash r) = Some (bd_config_hash b) \<and> length (bd_config_hash b) = 32
     | Inl (VersionError i s) \<Rightarrow> i = dr_id r \<and> sem_ver_from_str (dr_version r) = Inl s
     | Inl (ConfigHashError i e) \<Rightarrow> i = dr_id r \<and> config_hash_from_str cd (dr_config_hash r) = Inl e \<and>
         (\<exists>v. sem_ver_from_str (dr_version r) = Inr v))"
  using build_ref_roundtrip[OF assms]
  by (auto simp: build_from_ref_def build_new_def config_hash_from_str_def split: sum.splits option.splits if_splits)

section \<open>The store\<close>

lemma bk_from_iter_snoc: "bk_from_iter (xs @ [(b, t)]) = bk_insert b t (bk_from_iter xs)"
  by (simp add: bk_from_iter_def)

lemma bk_from_iter_get:
  "bm_sorted (bk_from_iter xs) \<and>
   hm_get (bk_from_iter xs) i = map_option (\<lambda>(b, t). \<lparr>ms_version = bd_version b, ms_config_hash = bd_config_hash b, ms_metrics = t\<rparr>)
     (find (\<lambda>(b, t). bd_id b = i) (rev xs))"
proof (induction xs rule: rev_induct)
  case Nil
  then show ?case by (simp add: bk_from_iter_def bk_new_def)
next
  case (snoc x xs)
  obtain b t where x: "x = (b, t)" by fastforce
  have s: "bm_sorted (bk_from_iter xs)" using snoc by blast
  with snoc show ?case
    by (simp add: x bk_from_iter_snoc bk_insert_def bm_sorted_update bm_get_update[OF s])
qed

lemma bk_lookup_last:
  "bk_lookup (bk_from_iter xs) c = (case find (\<lambda>(d, _). bd_id d = bd_id c) (rev xs) of
      None \<Rightarrow> Missing | Some (d, u) \<Rightarrow> if d = c then Current_build u else Stale d)"
proof (cases "find (\<lambda>(d, _). bd_id d = bd_id c) (rev xs)")
  case (Some p)
  obtain d u where p: "p = (d, u)" by fastforce
  from find_Some_split[OF Some] p have "bd_id d = bd_id c" by auto
  with Some p bk_from_iter_get[of xs "bd_id c"] show ?thesis
    by (auto simp: bk_lookup_def describes_def measured_build_def build_new_def)
qed (use bk_from_iter_get[of xs "bd_id c"] in \<open>simp add: bk_lookup_def\<close>)

text \<open>
  A measurement is handed out for exactly the build it was taken on. Among any recorded measurements
  the last one of a detector counts: the lookup of a running build gives its metrics if and only if it
  was taken on that same triple, reports the other build as stale if it was taken on a different one,
  and is missing only if the detector was never measured; the stale report of a roster is exactly the
  running builds whose last measurement names another build.
\<close>

theorem store_lookup_exact:
  "(bk_lookup (bk_from_iter xs) b = Current_build t \<longleftrightarrow> find (\<lambda>(c, _). bd_id c = bd_id b) (rev xs) = Some (b, t)) \<and>
   (bk_lookup (bk_from_iter xs) b = Stale m \<longleftrightarrow>
      (\<exists>u. find (\<lambda>(c, _). bd_id c = bd_id b) (rev xs) = Some (m, u)) \<and> m \<noteq> b) \<and>
   (bk_lookup (bk_from_iter xs) b = Missing \<longleftrightarrow> bd_id b \<notin> bd_id ` fst ` set xs) \<and>
   set (stale_against (bk_from_iter xs) bs) =
     {\<lparr>sm_running = c, sm_measured = d\<rparr> | c d. c \<in> set bs \<and> d \<noteq> c \<and>
        (\<exists>u. find (\<lambda>(e, _). bd_id e = bd_id c) (rev xs) = Some (d, u))}"
proof -
  let ?last = "\<lambda>c. find (\<lambda>(d, _). bd_id d = bd_id c) (rev xs)"
  note l = bk_lookup_last[of xs]
  have m: "?last b = None \<longleftrightarrow> bd_id b \<notin> bd_id ` fst ` set xs"
    by (force simp: find_None_iff image_iff)
  have st: "bk_lookup (bk_from_iter xs) c = Stale d \<longleftrightarrow> (\<exists>u. ?last c = Some (d, u)) \<and> d \<noteq> c" for c d
    unfolding l by (cases "?last c") (auto split: if_splits)
  have "set (stale_against (bk_from_iter xs) bs) =
      {\<lparr>sm_running = c, sm_measured = d\<rparr> | c d. c \<in> set bs \<and> bk_lookup (bk_from_iter xs) c = Stale d}"
    by (induction bs) (auto simp: stale_against_def map_filter_simps split: measured_lookup.splits)
  then have s: "set (stale_against (bk_from_iter xs) bs) =
     {\<lparr>sm_running = c, sm_measured = d\<rparr> | c d. c \<in> set bs \<and> d \<noteq> c \<and> (\<exists>u. ?last c = Some (d, u))}"
    unfolding st by auto
  have n: "bk_lookup (bk_from_iter xs) b = Missing \<longleftrightarrow> bd_id b \<notin> bd_id ` fst ` set xs"
    unfolding l m[symmetric] by (cases "?last b") (auto split: if_splits)
  have c: "bk_lookup (bk_from_iter xs) b = Current_build t \<longleftrightarrow> ?last b = Some (b, t)"
    unfolding l by (simp split: option.split)
  show ?thesis by (intro conjI c st n s)
qed

section \<open>Witnesses\<close>

text \<open>A concrete codec: a constant digest, and two base-16 letters per byte.\<close>

definition ex_hex :: "u8 \<Rightarrow> string" where
  "ex_hex b = [char_of (97 + unat b div 16), char_of (97 + unat b mod 16)]"

fun ex_unhex :: "string \<Rightarrow> u8 list option" where
  "ex_unhex [] = Some []"
| "ex_unhex [c] = None"
| "ex_unhex (c # d # s) = map_option (\<lambda>bs. of_nat ((of_char c - 97) * 16 + (of_char d - 97)) # bs) (ex_unhex s)"

definition ex_codec :: codec where
  "ex_codec = \<lparr>cd_sha256 = (\<lambda>_. replicate 32 0), cd_hex_encode = (\<lambda>bs. concat (map ex_hex bs)),
     cd_hex_decode = ex_unhex, cd_write_scalar = (\<lambda>_. ''x'')\<rparr>"

lemma ex_codec_ok: "codec_ok ex_codec"
proof -
  have "ex_unhex (ex_hex b @ s) = map_option (\<lambda>bs. b # bs) (ex_unhex s)" for b s
  proof -
    have b: "unat b < 256" using unsigned_less[of b] by simp
    then have "97 + unat b div 16 < 256" "97 + unat b mod 16 < 256" by auto
    moreover have "unat b div 16 * 16 + unat b mod 16 = unat b" by simp
    ultimately show ?thesis by (simp add: ex_hex_def of_char_of)
  qed
  then have "ex_unhex (concat (map ex_hex bs)) = Some bs" for bs
    by (induction bs) (simp_all)
  then show ?thesis by (simp add: codec_ok_def ex_codec_def)
qed

definition ex_build :: build where
  "ex_build = build_new ''arb'' (1, 0, 0) (replicate 32 7)"

theorem config_hash_preimages_witness:
  "build_preimage ''arb'' (1, 0, 0) ''{}'' \<noteq> model_preimage (replicate 32 0) (replicate 32 1)"
  using config_hash_preimages[of "''arb''" "''arb''" "replicate 32 0" "replicate 32 0" "(1, 0, 0)" "''{}''"
      "(1, 0, 0)" "''{}''" "replicate 32 1" "replicate 32 1"] by simp

theorem canonical_json_key_order_witness:
  "canonical_json ex_codec (JObject [(''b'', JNull), (''a'', JBool True)]) =
   canonical_json ex_codec (JObject [(''a'', JBool True), (''b'', JNull)])"
proof -
  have "json_same (JObject [(''b'', JNull), (''a'', JBool True)]) (JObject [(''a'', JBool True), (''b'', JNull)])"
    by (rule same_object) (auto intro: json_same.intros)
  from canonical_json_key_order[OF this] show ?thesis by blast
qed

theorem build_roundtrip_witness:
  "build_from_ref ex_codec (build_to_ref ex_codec ex_build) = Inr ex_build"
  using build_roundtrip[OF ex_codec_ok, of ex_build] by (simp add: ex_build_def build_new_def)

end
