(* ===== verification/Model_Registry.thy ===== *)
theory Model_Registry
  imports Detector_Api Measured
begin

text \<open>
  What the detection service knows of its detectors: feature flags (\<open>crates/detection/src/flags.rs\<close>), the
  rollout policy, model cards and the model registry (\<open>model.rs\<close>), and the live registry of plugins
  (\<open>registry.rs\<close>).

  A \<open>BTreeMap\<close> is an ascending association list. An environment variable is ASCII text, so that
  \<open>str::trim\<close> strips the characters 9 to 13 and the space. A point in time is a number of nanoseconds;
  \<open>Utc::now()\<close> is the argument \<open>now\<close>. Reading and writing the performance store as a file is left out.
\<close>

section \<open>Flags and rollout\<close>

record feature_flags =
  default_enabled :: bool
  ff_overrides :: "(detector_id \<times> bool) list"

definition flags_with_default :: "bool \<Rightarrow> feature_flags" where
  "flags_with_default d = \<lparr>default_enabled = d, ff_overrides = []\<rparr>"

definition flags_set :: "detector_id \<Rightarrow> bool \<Rightarrow> feature_flags \<Rightarrow> feature_flags" where
  "flags_set i b f = f\<lparr>ff_overrides := bm_update i (\<lambda>_. b) (ff_overrides f)\<rparr>"

definition is_enabled :: "feature_flags \<Rightarrow> detector_id \<Rightarrow> bool" where
  "is_enabled f i = (case hm_get (ff_overrides f) i of Some b \<Rightarrow> b | None \<Rightarrow> default_enabled f)"

definition all_enabled :: feature_flags where
  "all_enabled = flags_with_default True"

definition all_disabled :: feature_flags where
  "all_disabled = flags_with_default False"

definition flags_enable :: "detector_id \<Rightarrow> feature_flags \<Rightarrow> feature_flags" where
  "flags_enable i f = flags_set i True f"

definition flags_disable :: "detector_id \<Rightarrow> feature_flags \<Rightarrow> feature_flags" where
  "flags_disable i f = flags_set i False f"

fun split_comma :: "string \<Rightarrow> string list" where
  "split_comma [] = [[]]"
| "split_comma (c # cs) =
     (if c = CHR '','' then [] # split_comma cs
      else case split_comma cs of p # ps \<Rightarrow> (c # p) # ps | [] \<Rightarrow> [[c]])"

definition csv_ids :: "string \<Rightarrow> detector_id list" where
  "csv_ids raw = filter (\<lambda>i. i \<noteq> []) (map str_trim (split_comma raw))"

definition disabling :: "string \<Rightarrow> feature_flags \<Rightarrow> feature_flags" where
  "disabling raw f = fold (\<lambda>i. flags_set i False) (csv_ids raw) f"

definition flags_from_env :: "string option \<Rightarrow> feature_flags" where
  "flags_from_env var = (case var of Some raw \<Rightarrow> disabling raw all_enabled | None \<Rightarrow> all_enabled)"

datatype lifecycle_status = Active | Shadow | Deprecated

type_synonym rollout_policy = "(detector_id \<times> lifecycle_status) list"

definition rollout_shadow :: "detector_id \<Rightarrow> rollout_policy \<Rightarrow> rollout_policy" where
  "rollout_shadow i p = bm_update i (\<lambda>_. Shadow) p"

definition rollout_deprecated :: "detector_id \<Rightarrow> rollout_policy \<Rightarrow> rollout_policy" where
  "rollout_deprecated i p = bm_update i (\<lambda>_. Deprecated) p"

definition status_of :: "rollout_policy \<Rightarrow> detector_id \<Rightarrow> lifecycle_status" where
  "status_of p i = (case hm_get p i of Some s \<Rightarrow> s | None \<Rightarrow> Active)"

definition status_of_name :: "rollout_policy \<Rightarrow> string \<Rightarrow> lifecycle_status" where
  "status_of_name p i = (case find (\<lambda>(key, _). key = i) p of Some (_, s) \<Rightarrow> s | None \<Rightarrow> Active)"

definition staged :: "rollout_policy \<Rightarrow> (detector_id \<times> lifecycle_status) list" where
  "staged p = p"

definition with_demotions :: "string \<Rightarrow> rollout_policy \<Rightarrow> rollout_policy" where
  "with_demotions raw p = fold (\<lambda>i. bm_update i (\<lambda>_. Shadow)) (csv_ids raw) p"

definition with_env_demotions :: "string option \<Rightarrow> rollout_policy \<Rightarrow> rollout_policy" where
  "with_env_demotions var p = (case var of Some raw \<Rightarrow> with_demotions raw p | None \<Rightarrow> p)"

definition rollout_builtin :: rollout_policy where
  "rollout_builtin = rollout_shadow ''anomaly'' (rollout_shadow ''address-poisoning''
     (rollout_shadow ''wash-trading'' (rollout_shadow ''rugpull'' (rollout_shadow ''liquidation''
       (rollout_shadow ''flashloan'' [])))))"

section \<open>Registries\<close>

datatype model_kind = Rule | Ml | Hybrid

datatype scope = Block_scope | Cross_block_scope u32

record 'd plugin =
  pl_id :: detector_id
  pl_version :: sem_ver
  pl_kind :: model_kind
  pl_scope :: scope
  pl_config_value :: json
  pl_model_digest :: "u8 list option"
  pl_detect :: "detection_ctx \<Rightarrow> 'd evidence list"

definition plugin_key :: "'d plugin \<Rightarrow> detector_key" where
  "plugin_key p = (pl_id p, pl_version p)"

text \<open>\<open>RegistryError::Duplicate\<close> and \<open>ModelRegistryError::Duplicate\<close> carry the key.\<close>

fun keyed_build :: "('v \<Rightarrow> 'k::linorder) \<Rightarrow> ('k \<times> 'v) list \<Rightarrow> 'v list \<Rightarrow> 'k + ('k \<times> 'v) list" where
  "keyed_build key m [] = Inr m"
| "keyed_build key m (v # vs) =
     (if hm_contains m (key v) then Inl (key v)
      else keyed_build key (bm_update (key v) (\<lambda>_. v) m) vs)"

definition registry_build :: "'d plugin list \<Rightarrow> detector_key + (detector_key \<times> 'd plugin) list" where
  "registry_build registered = keyed_build plugin_key [] registered"

definition registry_get :: "(detector_key \<times> 'd plugin) list \<Rightarrow> detector_id \<Rightarrow> sem_ver \<Rightarrow> 'd plugin option" where
  "registry_get r i v = hm_get r (i, v)"

definition registry_detectors :: "(detector_key \<times> 'd plugin) list \<Rightarrow> 'd plugin list" where
  "registry_detectors r = map snd r"

section \<open>Measured performance\<close>

record performance_record =
  pr_precision :: confidence
  pr_recall :: confidence
  pr_hit_rate :: confidence
  pr_sample_size :: nat
  pr_measured_at :: nat

datatype performance = Unmeasured | Measured_perf confidence confidence confidence nat nat

type_synonym performance_store = "performance_record build_keyed"

definition is_measured :: "performance \<Rightarrow> bool" where
  "is_measured p = (case p of Unmeasured \<Rightarrow> False | Measured_perf a b c n t \<Rightarrow> True)"

definition record_try_new :: "f64 \<Rightarrow> f64 \<Rightarrow> f64 \<Rightarrow> nat \<Rightarrow> nat \<Rightarrow> f64 + performance_record" where
  "record_try_new p r h n t = (case confidence_try_new p of
      Inl e \<Rightarrow> Inl e
    | Inr p' \<Rightarrow> (case confidence_try_new r of
        Inl e \<Rightarrow> Inl e
      | Inr r' \<Rightarrow> (case confidence_try_new h of
          Inl e \<Rightarrow> Inl e
        | Inr h' \<Rightarrow> Inr \<lparr>pr_precision = p', pr_recall = r', pr_hit_rate = h', pr_sample_size = n, pr_measured_at = t\<rparr>)))"

definition record_performance :: "performance_record \<Rightarrow> performance" where
  "record_performance r = Measured_perf (pr_precision r) (pr_recall r) (pr_hit_rate r) (pr_sample_size r) (pr_measured_at r)"

section \<open>Model cards\<close>

record model_card =
  mc_id :: detector_id
  mc_version :: sem_ver
  mc_kind :: model_kind
  mc_scope :: scope
  mc_config_hash :: config_hash
  mc_deployed_at :: nat
  mc_performance :: performance
  mc_status :: lifecycle_status

definition card_new :: "detector_id \<Rightarrow> sem_ver \<Rightarrow> model_kind \<Rightarrow> scope \<Rightarrow> config_hash \<Rightarrow> nat \<Rightarrow> model_card" where
  "card_new i v k s h now = \<lparr>mc_id = i, mc_version = v, mc_kind = k, mc_scope = s, mc_config_hash = h,
     mc_deployed_at = now, mc_performance = Unmeasured, mc_status = Active\<rparr>"

definition card_for_plugin :: "'d plugin \<Rightarrow> config_hash \<Rightarrow> nat \<Rightarrow> model_card" where
  "card_for_plugin p h now = card_new (pl_id p) (pl_version p) (pl_kind p) (pl_scope p) h now"

definition with_status :: "lifecycle_status \<Rightarrow> model_card \<Rightarrow> model_card" where
  "with_status s c = c\<lparr>mc_status := s\<rparr>"

definition with_performance :: "performance \<Rightarrow> model_card \<Rightarrow> model_card" where
  "with_performance p c = c\<lparr>mc_performance := p\<rparr>"

definition card_key :: "model_card \<Rightarrow> detector_key" where
  "card_key c = (mc_id c, mc_version c)"

definition model_registry_build :: "model_card list \<Rightarrow> detector_key + (detector_key \<times> model_card) list" where
  "model_registry_build cards = keyed_build card_key [] cards"

definition card_build :: "model_card \<Rightarrow> build" where
  "card_build c = build_new (mc_id c) (mc_version c) (mc_config_hash c)"

definition card_ref :: "codec \<Rightarrow> model_card \<Rightarrow> detector_ref" where
  "card_ref cd c = build_to_ref cd (card_build c)"

definition registry_card :: "(detector_key \<times> model_card) list \<Rightarrow> detector_id \<Rightarrow> sem_ver \<Rightarrow> model_card option" where
  "registry_card r i v = hm_get r (i, v)"

definition registry_detector_ref ::
  "codec \<Rightarrow> (detector_key \<times> model_card) list \<Rightarrow> detector_id \<Rightarrow> sem_ver \<Rightarrow> detector_ref option" where
  "registry_detector_ref cd r i v = map_option (card_ref cd) (registry_card r i v)"

text \<open>\<open>BTreeMap::range(lo..)\<close> is the entries from the first key at or above \<open>lo\<close> on.\<close>

definition versions_of :: "(detector_key \<times> model_card) list \<Rightarrow> detector_id \<Rightarrow> model_card list" where
  "versions_of r i = map snd (takeWhile (\<lambda>((card_id, _), _). card_id = i)
     (dropWhile (\<lambda>(k, _). k < (i, (0, 0, 0))) r))"

definition card_for ::
  "codec \<Rightarrow> nat \<Rightarrow> detector_id \<Rightarrow> sem_ver \<Rightarrow> model_kind \<Rightarrow> scope \<Rightarrow> json \<Rightarrow> u8 list option \<Rightarrow> rollout_policy
    \<Rightarrow> performance_store \<Rightarrow> model_card" where
  "card_for cd now i v k s config digest rollout store =
     (let h0 = for_build cd i v config;
          h = (case digest of Some g \<Rightarrow> with_model_artifact cd g h0 | None \<Rightarrow> h0);
          card = with_status (status_of rollout i) (card_new i v k s h now)
      in case bk_lookup store (card_build card) of
           Current_build r \<Rightarrow> with_performance (record_performance r) card
         | Stale b \<Rightarrow> card
         | Missing \<Rightarrow> card)"

section \<open>The registries\<close>

lemma keyed_build_spec:
  "bm_sorted m \<Longrightarrow> keyed_build key m vs = Inr r \<Longrightarrow>
   bm_sorted r \<and> distinct (map key vs) \<and> (\<forall>v\<in>set vs. hm_get m (key v) = None) \<and>
   (\<forall>k. hm_get r k = (case hm_get m k of Some v \<Rightarrow> Some v | None \<Rightarrow> find (\<lambda>v. key v = k) vs))"
proof (induction vs arbitrary: m)
  case Nil
  then show ?case by (auto split: option.splits)
next
  case (Cons v vs)
  from Cons.prems have n: "hm_get m (key v) = None"
    and b: "keyed_build key (bm_update (key v) (\<lambda>_. v) m) vs = Inr r" by (auto split: if_splits)
  note IH = Cons.IH[OF bm_sorted_update[OF Cons.prems(1)] b]
  have g: "hm_get (bm_update (key v) (\<lambda>_. v) m) k = (if k = key v then Some v else hm_get m k)" for k
    by (rule bm_get_update[OF Cons.prems(1)])
  have "distinct (map key (v # vs)) \<and> (\<forall>w\<in>set (v # vs). hm_get m (key w) = None)"
    using IH n unfolding g by (auto split: if_splits)
  moreover have "hm_get r k = (case hm_get m k of Some v \<Rightarrow> Some v | None \<Rightarrow> find (\<lambda>v. key v = k) (v # vs))" for k
    using IH n unfolding g by (auto split: option.splits if_splits)
  ultimately show ?case using IH by blast
qed

lemma keyed_build_error:
  "bm_sorted m \<Longrightarrow> keyed_build key m vs = Inl k \<Longrightarrow>
   \<not> (distinct (map key vs) \<and> (\<forall>v\<in>set vs. hm_get m (key v) = None))"
proof (induction vs arbitrary: m)
  case (Cons v vs)
  show ?case
  proof (cases "hm_get m (key v)")
    case None
    with Cons.prems have b: "keyed_build key (bm_update (key v) (\<lambda>_. v) m) vs = Inl k" by simp
    have g: "hm_get (bm_update (key v) (\<lambda>_. v) m) k = (if k = key v then Some v else hm_get m k)" for k
      by (rule bm_get_update[OF Cons.prems(1)])
    from Cons.IH[OF bm_sorted_update[OF Cons.prems(1)] b] show ?thesis
      unfolding g by (metis distinct.simps(2) image_eqI list.set_intros(2) list.simps(9) set_map)
  qed auto
qed simp

text \<open>
  The registry is a faithful index of what was registered. The build fails exactly when two
  registrations share an \<open>(id, version)\<close>; otherwise iteration is in ascending key order and looking up
  a registered plugin's key returns that plugin and no other key resolves.
\<close>

theorem registry_build_spec:
  "((\<exists>k. registry_build ps = Inl k) \<longleftrightarrow> \<not> distinct (map plugin_key ps)) \<and>
   (\<forall>r. registry_build ps = Inr r \<longrightarrow> sorted_wrt (<) (map fst r) \<and>
      (\<forall>k p. hm_get r k = Some p \<longleftrightarrow> p \<in> set ps \<and> plugin_key p = k))"
proof (cases "registry_build ps")
  case (Inl k)
  then show ?thesis
    using keyed_build_error[of "[]" plugin_key ps k] unfolding registry_build_def
    by (metis bm_sorted_Nil map_of.simps(1) Inl_Inr_False)
next
  case (Inr r)
  note s = keyed_build_spec[OF bm_sorted_Nil Inr[unfolded registry_build_def]]
  then have d: "distinct (map plugin_key ps)" "bm_sorted r"
    and g: "hm_get r k = find (\<lambda>v. plugin_key v = k) ps" for k by (blast, blast, simp del: split_paired_All)
  have "find (\<lambda>v. plugin_key v = k) qs = Some p \<longleftrightarrow> p \<in> set qs \<and> plugin_key p = k"
    if "distinct (map plugin_key qs)" for k p and qs :: "'a plugin list"
    using that by (induction qs) (auto simp: image_iff)
  from this[OF d(1)] have "hm_get r k = Some p \<longleftrightarrow> p \<in> set ps \<and> plugin_key p = k" for k p
    by (simp only: g)
  with d Inr show ?thesis by (simp add: bm_sorted_def del: split_paired_All split_paired_Ex)
qed

section \<open>The switches of an operator\<close>

lemma bm_fold_const:
  "bm_sorted m \<Longrightarrow> bm_sorted (fold (\<lambda>k. bm_update k (\<lambda>_. c)) ks m) \<and>
   hm_get (fold (\<lambda>k. bm_update k (\<lambda>_. c)) ks m) i = (if i \<in> set ks then Some c else hm_get m i)"
proof (induction ks arbitrary: m)
  case (Cons k ks)
  from Cons.IH[OF bm_sorted_update[OF Cons.prems, of k "\<lambda>_. c"]] show ?case
    by (simp add: bm_get_update[OF Cons.prems])
qed simp

lemma status_with_demotions:
  assumes "bm_sorted p"
  shows "status_of (with_demotions raw p) i = (if i \<in> set (csv_ids raw) then Shadow else status_of p i)"
  using bm_fold_const[OF assms, of Shadow "csv_ids raw" i] by (simp add: with_demotions_def status_of_def)

lemma disabling_fold: "fold (\<lambda>i. flags_set i False) ks f = f\<lparr>ff_overrides := fold (\<lambda>k. bm_update k (\<lambda>_. False)) ks (ff_overrides f)\<rparr>"
  by (induction ks arbitrary: f) (simp_all add: flags_set_def)

lemma enabled_disabling:
  assumes "bm_sorted (ff_overrides f)"
  shows "is_enabled (disabling raw f) i \<longleftrightarrow> is_enabled f i \<and> i \<notin> set (csv_ids raw)"
  using bm_fold_const[OF assms, of False "csv_ids raw" i]
  by (auto simp: disabling_def disabling_fold is_enabled_def split: option.splits)

lemma status_of_name_eq: "bm_sorted p \<Longrightarrow> status_of_name p i = status_of p i"
proof -
  have "find (\<lambda>(key, _). key = i) p = map_option (\<lambda>s. (i, s)) (map_of p i)" by (induction p) auto
  then show ?thesis by (simp add: status_of_name_def status_of_def split: option.split)
qed

lemma sorted_rollout_builtin: "bm_sorted rollout_builtin"
  unfolding rollout_builtin_def rollout_shadow_def by (intro bm_sorted_update bm_sorted_Nil)

lemma split_comma_append: "CHR '','' \<notin> set p \<Longrightarrow> split_comma (p @ CHR '','' # s) = p # split_comma s"
  by (induction p) auto

lemma split_comma_single: "CHR '','' \<notin> set p \<Longrightarrow> split_comma p = [p]"
  by (induction p) auto

text \<open>A detector name as an operator writes it: not empty, no comma, no space at either end.\<close>

definition plain_id :: "string \<Rightarrow> bool" where
  "plain_id i \<longleftrightarrow> i \<noteq> [] \<and> CHR '','' \<notin> set i \<and> \<not> is_space (hd i) \<and> \<not> is_space (last i)"

definition spaces :: "nat \<Rightarrow> string" where
  "spaces n = replicate n (CHR '' '')"

lemma is_space_space: "is_space (CHR '' '')"
  by (simp add: is_space_def)

lemma drop_spaces: "s = [] \<or> \<not> is_space (hd s) \<Longrightarrow> dropWhile is_space (spaces n @ s) = s"
proof -
  assume s: "s = [] \<or> \<not> is_space (hd s)"
  have "dropWhile is_space (spaces n @ s) = dropWhile is_space s"
    by (induction n) (simp_all add: spaces_def is_space_space)
  with s show ?thesis by (cases s) auto
qed

lemma trim_padded: "plain_id i \<Longrightarrow> str_trim (spaces m @ i @ spaces n) = i"
proof -
  assume i: "plain_id i"
  then have "hd (i @ spaces n) = hd i" by (simp add: plain_id_def)
  with i have "dropWhile is_space (spaces m @ i @ spaces n) = i @ spaces n"
    by (intro drop_spaces) (simp add: plain_id_def)
  moreover have "rev (i @ spaces n) = spaces n @ rev i" by (simp add: spaces_def)
  moreover have "dropWhile is_space (spaces n @ rev i) = rev i"
    using i by (intro drop_spaces) (simp add: plain_id_def hd_rev)
  ultimately show ?thesis by (simp add: str_trim_def)
qed

lemma csv_ids_padded:
  "\<forall>i\<in>set ids. plain_id i \<Longrightarrow>
   csv_ids (comma_separated (map (\<lambda>i. spaces m @ i @ spaces n) ids)) = ids"
proof (induction ids rule: comma_separated.induct)
  case 1
  then show ?case by (simp add: csv_ids_def str_trim_def)
next
  case (2 x)
  have "CHR '','' \<notin> set (spaces m @ x @ spaces n)" using 2 by (simp add: plain_id_def spaces_def)
  from split_comma_single[OF this] 2 show ?case by (simp add: csv_ids_def trim_padded) (simp add: plain_id_def)
next
  case (3 x y zs)
  have c: "CHR '','' \<notin> set (spaces m @ x @ spaces n)" using 3 by (simp add: plain_id_def spaces_def)
  have x: "plain_id x" "x \<noteq> []" using 3 by (simp_all add: plain_id_def)
  from 3 have "csv_ids (comma_separated (map (\<lambda>i. spaces m @ i @ spaces n) (y # zs))) = y # zs" by simp
  then show ?case using split_comma_append[OF c] x trim_padded[OF x(1)] by (simp add: csv_ids_def)
qed

text \<open>
  The emergency switches can only make the system quieter. Whatever an operator writes into the two
  variables, a detector named in the shadow list is shadowed and every other keeps its status, so none
  becomes active that was not; a detector named in the disable list is off and every other stays as it
  was, so none is turned on. Names may be padded with spaces and are recovered exactly.
\<close>

theorem switches_only_quiet:
  assumes "bm_sorted p" "bm_sorted (ff_overrides f)"
  shows "(\<forall>i. status_of (with_demotions raw p) i = (if i \<in> set (csv_ids raw) then Shadow else status_of p i)) \<and>
    (\<forall>i. status_of (with_demotions raw p) i = Active \<longrightarrow> status_of p i = Active) \<and>
    (\<forall>i. is_enabled (disabling raw f) i \<longleftrightarrow> is_enabled f i \<and> i \<notin> set (csv_ids raw)) \<and>
    (\<forall>i. status_of_name p i = status_of p i) \<and>
    (\<forall>ids m n. (\<forall>i\<in>set ids. plain_id i) \<longrightarrow>
       csv_ids (comma_separated (map (\<lambda>i. spaces m @ i @ spaces n) ids)) = ids)"
  using status_with_demotions[OF assms(1)] enabled_disabling[OF assms(2)] status_of_name_eq[OF assms(1)] csv_ids_padded
  by auto

section \<open>Model cards\<close>

lemma keyed_build_entries:
  assumes "keyed_build key [] vs = Inr r"
  shows "bm_sorted r \<and> distinct (map key vs) \<and> (\<forall>k v. (k, v) \<in> set r \<longleftrightarrow> v \<in> set vs \<and> key v = k)"
proof -
  note s = keyed_build_spec[OF bm_sorted_Nil assms]
  have d: "distinct (map key vs)" and r: "bm_sorted r" using s by blast+
  have g: "hm_get r k = find (\<lambda>v. key v = k) vs" for k using s by (simp del: split_paired_All)
  have "find (\<lambda>v. key v = k) vs = Some v \<longleftrightarrow> v \<in> set vs \<and> key v = k" for k v
    using d by (induction vs) (auto simp: image_iff)
  then have "(k, v) \<in> set r \<longleftrightarrow> v \<in> set vs \<and> key v = k" for k v
    unfolding hm_in_iff[OF bm_sorted_distinct[OF r]] g .
  with d r show ?thesis by blast
qed

lemma version_zero_le: "(0, 0, 0) \<le> (v::sem_ver)"
  by (cases v) (simp add: less_eq_prod_def word_le_nat_alt word_less_nat_alt word_unat_eq_iff)

lemma range_takeWhile:
  fixes r :: "(detector_key \<times> 'v) list"
  assumes "bm_sorted r"
  shows "takeWhile (\<lambda>((c, _), _). c = i) (dropWhile (\<lambda>(k, _). k < (i, (0, 0, 0))) r) = filter (\<lambda>((c, _), _). c = i) r"
  using assms
proof (induction r)
  case (Cons e r)
  obtain j v c where e: "e = ((j, v), c)" by (metis prod_cases3 surj_pair)
  have s: "bm_sorted r" and lt: "\<forall>x\<in>set r. (j, v) < fst x" using Cons.prems by (auto simp: bm_sorted_def e)
  have k: "((j, v) < (i, (0, 0, 0))) = (j < i)" using version_zero_le[of v] by (auto simp: less_prod_def leD)
  show ?case
  proof (cases "j < i")
    case True
    with Cons.IH[OF s] show ?thesis by (simp add: e k less_prod_def)
  next
    case False
    show ?thesis
    proof (cases "j = i")
      case True
      have "dropWhile (\<lambda>(k, _). k < (i, (0, 0, 0))) r = r"
        using lt version_zero_le True by (cases r) (fastforce simp: less_prod_def)+
      with Cons.IH[OF s] True show ?thesis using version_zero_le[of v] by (simp add: e leD)
    next
      case False
      with \<open>\<not> j < i\<close> lt have "\<forall>x\<in>set r. fst (fst x) \<noteq> i" by (fastforce simp: less_prod_def)
      then have "filter (\<lambda>((c, _), _). c = i) r = []" by (auto simp: filter_empty_conv)
      with False \<open>\<not> j < i\<close> show ?thesis by (simp add: e k)
    qed
  qed
qed simp

text \<open>
  The rollout view of a detector is complete and in order. When the catalogue builds, the versions
  listed for an id are exactly the recorded cards of that id, by ascending version, and an exact lookup
  recovers each card and nothing else.
\<close>

theorem versions_of_spec:
  assumes "model_registry_build cards = Inr r"
  shows "set (versions_of r i) = {c \<in> set cards. mc_id c = i} \<and>
    sorted_wrt (<) (map mc_version (versions_of r i)) \<and>
    (registry_card r i v = Some c \<longleftrightarrow> c \<in> set cards \<and> card_key c = (i, v))"
proof -
  note e = keyed_build_entries[OF assms[unfolded model_registry_build_def]]
  then have srt: "bm_sorted r" and m: "(k, c) \<in> set r \<longleftrightarrow> c \<in> set cards \<and> card_key c = k" for k c by blast+
  have v: "versions_of r i = map snd (filter (\<lambda>((c, _), _). c = i) r)"
    by (simp only: versions_of_def range_takeWhile[OF srt])
  have "set (versions_of r i) = {c \<in> set cards. mc_id c = i}"
    unfolding v by (force simp: m card_key_def image_iff)
  moreover have "sorted_wrt (<) (map mc_version (versions_of r i))"
  proof -
    have "sorted_wrt (\<lambda>x y. fst x < fst y) (filter (\<lambda>((c, _), _). c = i) r)"
      using srt by (simp add: bm_sorted_def sorted_wrt_map sorted_wrt_filter)
    then have "sorted_wrt (\<lambda>x y. mc_version (snd x) < mc_version (snd y)) (filter (\<lambda>((c, _), _). c = i) r)"
      by (rule sorted_wrt_mono_rel[rotated]) (auto simp: m card_key_def less_prod_def)
    then show ?thesis by (simp add: v sorted_wrt_map)
  qed
  moreover have "registry_card r i v = Some c \<longleftrightarrow> c \<in> set cards \<and> card_key c = (i, v)"
    using m[of "(i, v)" c] hm_in_iff[OF bm_sorted_distinct[OF srt]] by (simp add: registry_card_def)
  ultimately show ?thesis by blast
qed

lemma card_for_fields:
  "mc_id (card_for cd now i v k s config g rollout store) = i \<and>
   mc_version (card_for cd now i v k s config g rollout store) = v \<and>
   mc_status (card_for cd now i v k s config g rollout store) = status_of rollout i \<and>
   mc_config_hash (card_for cd now i v k s config g rollout store) =
     (case g of None \<Rightarrow> for_build cd i v config | Some d \<Rightarrow> with_model_artifact cd d (for_build cd i v config))"
  by (simp add: card_for_def card_new_def with_status_def with_performance_def Let_def split: measured_lookup.split)

lemma card_for_performance:
  "mc_performance (card_for cd now i v k s config g rollout store) =
     (case bk_lookup store (card_build (card_for cd now i v k s config g rollout store)) of
        Current_build r \<Rightarrow> record_performance r | _ \<Rightarrow> Unmeasured)"
proof -
  let ?c0 = "with_status (status_of rollout i) (card_new i v k s
     (case g of Some d \<Rightarrow> with_model_artifact cd d (for_build cd i v config) | None \<Rightarrow> for_build cd i v config) now)"
  have "card_build (card_for cd now i v k s config g rollout store) = card_build ?c0"
    using card_for_fields[of cd now i v k s config g rollout store]
    by (simp add: card_build_def with_status_def card_new_def split: option.split)
  then show ?thesis
    by (simp add: card_for_def Let_def with_status_def card_new_def with_performance_def split: measured_lookup.split)
qed

text \<open>
  A card never advertises a number that was measured on another build. The card of a detector shows
  the last measurement recorded for its id if that was taken on the card's own triple, and is
  unmeasured otherwise; its status is the policy's, its hash has 32 bytes, and the reference it stamps
  on events parses back to the card's build.
\<close>

theorem card_for_spec:
  assumes "codec_ok cd" and c_def: "c = card_for cd now i v k s config g rollout (bk_from_iter xs)"
  shows "mc_performance c = (case find (\<lambda>(d, _). bd_id d = i) (rev xs) of
            Some (d, r) \<Rightarrow> if d = card_build c then record_performance r else Unmeasured
          | None \<Rightarrow> Unmeasured) \<and>
    mc_status c = status_of rollout i \<and> length (mc_config_hash c) = 32 \<and>
    build_from_ref cd (card_ref cd c) = Inr (card_build c)"
proof -
  have i: "bd_id (card_build c) = i" and h: "length (bd_config_hash (card_build c)) = 32"
    using card_for_fields[of cd now i v k s config g rollout "bk_from_iter xs"] assms(1)
    by (auto simp: c_def card_build_def build_new_def codec_ok_def for_build_def with_model_artifact_def split: option.split)
  have "mc_performance c = (case bk_lookup (bk_from_iter xs) (card_build c) of
        Current_build r \<Rightarrow> record_performance r | _ \<Rightarrow> Unmeasured)" unfolding c_def by (rule card_for_performance)
  also have "\<dots> = (case find (\<lambda>(d, _). bd_id d = i) (rev xs) of
            Some (d, r) \<Rightarrow> if d = card_build c then record_performance r else Unmeasured
          | None \<Rightarrow> Unmeasured)" by (simp add: bk_lookup_last i split: option.split)
  finally show ?thesis
    using card_for_fields[of cd now i v k s config g rollout "bk_from_iter xs"] build_ref_roundtrip[OF assms(1) h] h
    by (simp add: c_def card_ref_def card_build_def build_new_def)
qed

text \<open>
  A stored record has all three rates in the unit interval; otherwise the first rate out of range is
  the error.
\<close>

lemma record_try_new_spec:
  "(record_try_new p r h n t = Inr pr \<longleftrightarrow>
     confidence_try_new p = Inr p \<and> confidence_try_new r = Inr r \<and> confidence_try_new h = Inr h \<and>
     pr = \<lparr>pr_precision = p, pr_recall = r, pr_hit_rate = h, pr_sample_size = n, pr_measured_at = t\<rparr>) \<and>
   (record_try_new p r h n t = Inl e \<longleftrightarrow>
     find (\<lambda>x. confidence_try_new x = Inl x) [p, r, h] = Some e)"
  by (auto simp: record_try_new_def confidence_try_new_def)

section \<open>Witnesses\<close>

definition ex_plugin :: "nat plugin" where
  "ex_plugin = \<lparr>pl_id = ''arb'', pl_version = (1, 0, 0), pl_kind = Rule, pl_scope = Block_scope,
     pl_config_value = JNull, pl_model_digest = None, pl_detect = (\<lambda>_. [])\<rparr>"

definition ex_card :: model_card where
  "ex_card = with_status Shadow (card_new ''arb'' (1, 0, 0) Rule Block_scope (replicate 32 0) 0)"

theorem registry_build_spec_witness:
  "\<exists>r. registry_build [ex_plugin] = Inr r \<and> hm_get r (''arb'', (1, 0, 0)) = Some ex_plugin"
proof -
  have k: "plugin_key ex_plugin = (''arb'', (1, 0, 0))" by (simp add: plugin_key_def ex_plugin_def)
  have "\<not> (\<exists>k. registry_build [ex_plugin] = Inl k)" using registry_build_spec[of "[ex_plugin]"] by simp
  then obtain r where r: "registry_build [ex_plugin] = Inr r" by (cases "registry_build [ex_plugin]") blast+
  with registry_build_spec[of "[ex_plugin]"] have "hm_get r (plugin_key ex_plugin) = Some ex_plugin"
    by (metis list.set_intros(1))
  with r k show ?thesis by auto
qed

theorem switches_only_quiet_witness:
  "status_of (with_demotions ''arb, sandwich'' rollout_builtin) ''sandwich'' = Shadow \<and>
   is_enabled (disabling ''arb, sandwich'' all_enabled) ''flashloan''"
proof -
  have f: "bm_sorted (ff_overrides all_enabled)" by (simp add: all_enabled_def flags_with_default_def)
  have "set (csv_ids ''arb, sandwich'') = {''arb'', ''sandwich''}" by code_simp
  then show ?thesis
    using switches_only_quiet[OF sorted_rollout_builtin f, of "''arb, sandwich''"]
    by (simp add: is_enabled_def all_enabled_def flags_with_default_def)
qed

theorem versions_of_spec_witness:
  "\<exists>r. model_registry_build [ex_card] = Inr r \<and> set (versions_of r ''arb'') = {ex_card}"
proof -
  have r: "model_registry_build [ex_card] = Inr [(card_key ex_card, ex_card)]" by (simp add: model_registry_build_def)
  have "set (versions_of [(card_key ex_card, ex_card)] ''arb'') = {c \<in> set [ex_card]. mc_id c = ''arb''}"
    by (rule conjunct1[OF versions_of_spec[OF r]])
  moreover have "mc_id ex_card = ''arb''" by (simp add: ex_card_def with_status_def card_new_def)
  ultimately have "set (versions_of [(card_key ex_card, ex_card)] ''arb'') = {ex_card}" by auto
  with r show ?thesis by (intro exI[of _ "[(card_key ex_card, ex_card)]"] conjI)
qed

theorem card_for_spec_witness:
  "mc_performance (card_for ex_codec 0 ''arb'' (1, 0, 0) Rule Block_scope JNull None rollout_builtin
     (bk_from_iter [(build_new ''arb'' (1, 0, 0) (replicate 32 0),
        \<lparr>pr_precision = Fin 1, pr_recall = Fin 1, pr_hit_rate = Fin 0, pr_sample_size = 3, pr_measured_at = 7\<rparr>)])) =
   Measured_perf (Fin 1) (Fin 1) (Fin 0) 3 7"
proof -
  let ?r = "\<lparr>pr_precision = Fin 1, pr_recall = Fin 1, pr_hit_rate = Fin 0, pr_sample_size = 3, pr_measured_at = 7\<rparr>"
  let ?xs = "[(build_new ''arb'' (1, 0, 0) (replicate 32 0), ?r)]"
  let ?c = "card_for ex_codec 0 ''arb'' (1, 0, 0) Rule Block_scope JNull None rollout_builtin (bk_from_iter ?xs)"
  have "card_build ?c = build_new ''arb'' (1, 0, 0) (replicate 32 0)"
    using card_for_fields[of ex_codec 0 "''arb''" "(1, 0, 0)" Rule Block_scope JNull None rollout_builtin "bk_from_iter ?xs"]
    by (simp add: card_build_def for_build_def ex_codec_def)
  with card_for_spec[OF ex_codec_ok, of ?c 0 "''arb''" "(1, 0, 0)" Rule Block_scope JNull None rollout_builtin ?xs]
  show ?thesis by (simp add: record_performance_def build_new_def)
qed

end
