(* ===== verification/Emit.thy ===== *)
theory Emit
  imports Model_Registry
begin

text \<open>
  The emission path of the detection service: the linking of the live roster to its model cards and the
  mapping of evidence to wire events (\<open>crates/detection/src/emit.rs\<close>).

  \<open>AlertId::new()\<close> draws a random identifier; the definitions take the stream of draws as an argument
  and a counter into it. Metrics and logging are left out.
\<close>

section \<open>Events\<close>

record 'd detector_triggered =
  dt_detector :: detector_ref
  dt_block :: block_ref
  dt_txs :: "b256 list"
  dt_raw_confidence :: confidence
  dt_evidence :: "'d option"

record preliminary_alert_created =
  pa_alert_id :: uuid
  pa_detector :: detector_ref
  pa_addresses :: "address list"
  pa_kind :: alert_kind
  pa_confidence :: confidence
  pa_provisional :: bool
  pa_impact_usd :: "usd_amount option"
  pa_severity :: severity
  pa_suggested_action :: suggested_action

datatype 'd domain_event = Triggered "'d detector_triggered" | AlertCreated preliminary_alert_created

definition detector_triggered_of :: "detector_ref \<Rightarrow> block_ref \<Rightarrow> 'd evidence \<Rightarrow> 'd detector_triggered" where
  "detector_triggered_of d b ev =
     \<lparr>dt_detector = d, dt_block = b, dt_txs = ev_txs ev, dt_raw_confidence = ev_confidence ev, dt_evidence = ev_detail ev\<rparr>"

definition preliminary_alert ::
  "uuid \<Rightarrow> detector_ref \<Rightarrow> alert_kind \<Rightarrow> address list \<Rightarrow> confidence \<Rightarrow> usd_amount option \<Rightarrow> preliminary_alert_created" where
  "preliminary_alert i d k addrs c impact =
     (let s = severity_band impact c
      in \<lparr>pa_alert_id = i, pa_detector = d, pa_addresses = addrs, pa_kind = k, pa_confidence = c,
          pa_provisional = True, pa_impact_usd = impact, pa_severity = s,
          pa_suggested_action = suggested_action_for s\<rparr>)"

definition push_new :: "'a \<Rightarrow> 'a list \<Rightarrow> 'a list" where
  "push_new a xs = (if a \<in> set xs then xs else xs @ [a])"

fun implicated_loop :: "enrichment \<Rightarrow> b256 list \<Rightarrow> address list \<Rightarrow> address list" where
  "implicated_loop e [] acc = acc"
| "implicated_loop e (h # hs) acc = (case en_tx e h of
      None \<Rightarrow> implicated_loop e hs acc
    | Some t \<Rightarrow> implicated_loop e hs
        (fold push_new (ta_from t # (case ta_to t of None \<Rightarrow> [] | Some a \<Rightarrow> [a])) acc))"

definition implicated_addresses :: "enrichment \<Rightarrow> b256 list \<Rightarrow> address list" where
  "implicated_addresses e txs = implicated_loop e txs []"

definition sum_transfer :: "float_env \<Rightarrow> enrichment \<Rightarrow> token_transfer \<Rightarrow> f64 \<times> bool \<Rightarrow> f64 \<times> bool" where
  "sum_transfer fe e t acc = (case usd_value fe e (tt_token t) (tt_amount t) of
      None \<Rightarrow> acc
    | Some v \<Rightarrow> (f_add (fst acc) v, True))"

definition sum_tx :: "float_env \<Rightarrow> enrichment \<Rightarrow> b256 \<Rightarrow> f64 \<times> bool \<Rightarrow> f64 \<times> bool" where
  "sum_tx fe e h acc = (case en_tx e h of
      None \<Rightarrow> acc
    | Some t \<Rightarrow> fold (sum_transfer fe e) (ta_transfers t) acc)"

definition impact_from_transfers :: "float_env \<Rightarrow> enrichment \<Rightarrow> b256 list \<Rightarrow> usd_amount option" where
  "impact_from_transfers fe e txs =
     (let (total, priced_any) = fold (sum_tx fe e) txs (Fin 0, False)
      in if priced_any then Some (usd_amount_new total) else None)"

definition impact_usd :: "float_env \<Rightarrow> 'd evidence \<Rightarrow> enrichment \<Rightarrow> usd_amount option" where
  "impact_usd fe ev e = (case ev_impact_usd ev of
      Some i \<Rightarrow> Some i
    | None \<Rightarrow> impact_from_transfers fe e (ev_txs ev))"

text \<open>The second component is how many alert ids were drawn.\<close>

definition evidence_events ::
  "float_env \<Rightarrow> (nat \<Rightarrow> uuid) \<Rightarrow> nat \<Rightarrow> detector_ref \<Rightarrow> lifecycle_status \<Rightarrow> block_ref \<Rightarrow> enrichment \<Rightarrow> 'd evidence
    \<Rightarrow> 'd domain_event list \<times> nat" where
  "evidence_events fe ids n d status b e ev =
     (let trigger = Triggered (detector_triggered_of d b ev)
      in if status = Active then
           ([trigger, AlertCreated (preliminary_alert (ids n) d (ev_kind ev)
              (implicated_addresses e (ev_txs ev)) (ev_confidence ev) (impact_usd fe ev e))], n + 1)
         else ([trigger], n))"

section \<open>The detection plan\<close>

record 'd linked_detector =
  ld_plugin :: "'d plugin"
  ld_ref :: detector_ref
  ld_status :: lifecycle_status

text \<open>\<open>UnlinkedDetector\<close> carries the key of the first uncatalogued detector.\<close>

fun link_loop :: "codec \<Rightarrow> (detector_key \<times> model_card) list \<Rightarrow> 'd plugin list \<Rightarrow> detector_key + 'd linked_detector list" where
  "link_loop cd models [] = Inr []"
| "link_loop cd models (p # ps) = (case hm_get models (plugin_key p) of
      None \<Rightarrow> Inl (plugin_key p)
    | Some c \<Rightarrow> (case link_loop cd models ps of
        Inl e \<Rightarrow> Inl e
      | Inr ls \<Rightarrow> Inr (\<lparr>ld_plugin = p, ld_ref = card_ref cd c, ld_status = mc_status c\<rparr> # ls)))"

definition plan_link ::
  "codec \<Rightarrow> (detector_key \<times> 'd plugin) list \<Rightarrow> (detector_key \<times> model_card) list \<Rightarrow> detector_key + 'd linked_detector list" where
  "plan_link cd registry models = link_loop cd models (map snd registry)"

definition plan_detector_ref :: "'d linked_detector list \<Rightarrow> detector_id \<Rightarrow> detector_ref option" where
  "plan_detector_ref plan i = map_option ld_ref (find (\<lambda>l. dr_id (ld_ref l) = i) plan)"

fun emit_all ::
  "float_env \<Rightarrow> (nat \<Rightarrow> uuid) \<Rightarrow> nat \<Rightarrow> 'd linked_detector \<Rightarrow> detection_ctx \<Rightarrow> 'd evidence list \<Rightarrow> 'd domain_event list \<times> nat" where
  "emit_all fe ids n l ctx [] = ([], n)"
| "emit_all fe ids n l ctx (ev # evs) =
     (let (es, n') = evidence_events fe ids n (ld_ref l) (ld_status l) (ctx_block ctx) (ctx_enrichment ctx) ev;
          (es', n'') = emit_all fe ids n' l ctx evs
      in (es @ es', n''))"

fun detection_events_from ::
  "float_env \<Rightarrow> (nat \<Rightarrow> uuid) \<Rightarrow> nat \<Rightarrow> 'd linked_detector list \<Rightarrow> detection_ctx \<Rightarrow> 'd domain_event list" where
  "detection_events_from fe ids n [] ctx = []"
| "detection_events_from fe ids n (l # ls) ctx =
     (let (es, n') = emit_all fe ids n l ctx (pl_detect (ld_plugin l) ctx)
      in es @ detection_events_from fe ids n' ls ctx)"

definition detection_events ::
  "float_env \<Rightarrow> (nat \<Rightarrow> uuid) \<Rightarrow> 'd linked_detector list \<Rightarrow> detection_ctx \<Rightarrow> 'd domain_event list" where
  "detection_events fe ids plan ctx = detection_events_from fe ids 0 plan ctx"

text \<open>
  The rayon path: the detectors run concurrently and the results are collected in roster order. The
  identifiers a detector draws are its own, \<open>ids l\<close>.
\<close>

definition detection_events_parallel ::
  "float_env \<Rightarrow> ('d linked_detector \<Rightarrow> nat \<Rightarrow> uuid) \<Rightarrow> 'd linked_detector list \<Rightarrow> detection_ctx \<Rightarrow> 'd domain_event list" where
  "detection_events_parallel fe ids plan ctx =
     concat (map (\<lambda>l. fst (emit_all fe (ids l) 0 l ctx (pl_detect (ld_plugin l) ctx))) plan)"


section \<open>Linking\<close>

lemma link_loop_ok:
  "link_loop cd models ps = Inr plan \<Longrightarrow> map ld_plugin plan = ps \<and>
   (\<forall>l\<in>set plan. \<exists>c. hm_get models (plugin_key (ld_plugin l)) = Some c \<and>
      ld_ref l = card_ref cd c \<and> ld_status l = mc_status c)"
  by (induction ps arbitrary: plan) (auto split: option.splits sum.splits)

lemma link_loop_error:
  "link_loop cd models ps = Inl k \<longleftrightarrow>
   map_option plugin_key (find (\<lambda>p. hm_get models (plugin_key p) = None) ps) = Some k"
proof (induction ps)
  case (Cons p ps)
  show ?case
  proof (cases "hm_get models (plugin_key p)")
    case (Some c)
    then have "link_loop cd models (p # ps) = Inl k \<longleftrightarrow> link_loop cd models ps = Inl k"
      by (cases "link_loop cd models ps") simp_all
    with Cons Some show ?thesis by simp
  qed simp
qed simp

text \<open>
  The plan links every live detector or none. Linking succeeds exactly when each registered
  plugin has a model card; the plan then runs the plugins in registry order, each stamped with the
  triple and the status of its own card. It fails with the first uncatalogued plugin.
\<close>

theorem plan_link_spec:
  "(\<forall>plan. plan_link cd reg models = Inr plan \<longrightarrow> map ld_plugin plan = map snd reg \<and>
      (\<forall>l\<in>set plan. \<exists>c. hm_get models (plugin_key (ld_plugin l)) = Some c \<and>
         ld_ref l = card_ref cd c \<and> ld_status l = mc_status c)) \<and>
   (\<forall>k. plan_link cd reg models = Inl k \<longleftrightarrow>
      map_option plugin_key (find (\<lambda>p. hm_get models (plugin_key p) = None) (map snd reg)) = Some k)"
  unfolding plan_link_def using link_loop_ok link_loop_error by blast

section \<open>What the emission path emits\<close>

lemma set_push_new: "set (push_new a xs) = insert a (set xs)"
  by (auto simp: push_new_def)

lemma distinct_push_new: "distinct xs \<Longrightarrow> distinct (push_new a xs)"
  by (auto simp: push_new_def)

text \<open>The sender and, if any, the recipient of a transaction.\<close>

definition parties :: "tx_actions \<Rightarrow> address list" where
  "parties t = ta_from t # (case ta_to t of None \<Rightarrow> [] | Some a \<Rightarrow> [a])"

lemma fold_push_new: "set (fold push_new as xs) = set as \<union> set xs \<and> (distinct xs \<longrightarrow> distinct (fold push_new as xs))"
  by (induction as arbitrary: xs) (auto simp: set_push_new distinct_push_new)

lemma implicated_loop_spec:
  "set (implicated_loop e hs acc) = set acc \<union> {a. \<exists>h\<in>set hs. \<exists>t. en_tx e h = Some t \<and> a \<in> set (parties t)} \<and>
   (distinct acc \<longrightarrow> distinct (implicated_loop e hs acc))"
proof (induction hs arbitrary: acc)
  case (Cons h hs)
  show ?case
  proof (cases "en_tx e h")
    case None
    with Cons show ?thesis by auto
  next
    case (Some t)
    let ?acc = "fold push_new (parties t) acc"
    have "implicated_loop e (h # hs) acc = implicated_loop e hs ?acc" using Some by (simp add: parties_def)
    with Cons[of ?acc] fold_push_new[of "parties t" acc] Some show ?thesis by auto
  qed
qed simp

text \<open>
  The addresses of an alert are exactly the senders and recipients of its decoded transactions,
  each listed once.
\<close>

theorem implicated_addresses_spec:
  "set (implicated_addresses e txs) = {a. \<exists>h\<in>set txs. \<exists>t. en_tx e h = Some t \<and> (a = ta_from t \<or> ta_to t = Some a)} \<and>
   distinct (implicated_addresses e txs)"
proof -
  have "a \<in> set (parties t) \<longleftrightarrow> a = ta_from t \<or> ta_to t = Some a" for a t
    by (auto simp: parties_def split: option.splits)
  then show ?thesis using implicated_loop_spec[of e txs "[]"] by (simp add: implicated_addresses_def)
qed

lemma sum_loop_nonneg:
  assumes "env_ok fe" "\<forall>a p. en_price e a = Some p \<longrightarrow> usd_ok p" "f_nonneg (fst acc)"
  shows "f_nonneg (fst (fold (sum_tx fe e) txs acc))"
proof -
  have tr: "f_nonneg (fst (fold (sum_transfer fe e) ts acc))" if "f_nonneg (fst acc)" for ts acc
    using that
  proof (induction ts arbitrary: acc)
    case (Cons t ts)
    have "f_nonneg (fst (sum_transfer fe e t acc))"
    proof (cases "usd_value fe e (tt_token t) (tt_amount t)")
      case (Some v)
      from usd_value_wf[OF assms(1,2) this] have "f_nonneg v" by (auto simp: usd_ok_def)
      with Some Cons.prems show ?thesis by (simp add: sum_transfer_def f_nonneg_add)
    qed (use Cons in \<open>simp add: sum_transfer_def\<close>)
    then show ?case using Cons by simp
  qed simp
  show ?thesis
    using assms(3)
  proof (induction txs arbitrary: acc)
    case (Cons h txs)
    have "f_nonneg (fst (sum_tx fe e h acc))"
      using Cons.prems tr by (auto simp: sum_tx_def split: option.splits)
    then show ?case using Cons by simp
  qed simp
qed

lemma sum_loop_priced:
  "snd (fold (sum_tx fe e) txs acc) \<longleftrightarrow> snd acc \<or>
     (\<exists>h\<in>set txs. \<exists>t. en_tx e h = Some t \<and> (\<exists>x\<in>set (ta_transfers t). usd_value fe e (tt_token x) (tt_amount x) \<noteq> None))"
proof -
  have tr: "snd (fold (sum_transfer fe e) ts acc) \<longleftrightarrow> snd acc \<or> (\<exists>x\<in>set ts. usd_value fe e (tt_token x) (tt_amount x) \<noteq> None)" for ts acc
    by (induction ts arbitrary: acc) (auto simp: sum_transfer_def split: option.splits)
  show ?thesis
  proof (induction txs arbitrary: acc)
    case (Cons h txs)
    have "snd (sum_tx fe e h acc) \<longleftrightarrow> snd acc \<or>
        (\<exists>t. en_tx e h = Some t \<and> (\<exists>x\<in>set (ta_transfers t). usd_value fe e (tt_token x) (tt_amount x) \<noteq> None))"
      by (auto simp: sum_tx_def tr split: option.splits)
    with Cons[of "sum_tx fe e h acc"] show ?case by auto
  qed simp
qed

text \<open>
  The fallback estimate is honest about what it knows: it is absent exactly when none of the
  implicated transactions has a transfer that can be priced, when present it is a finite non-negative
  amount, and with validated prices it is the running float total itself unless that overflowed.
\<close>

theorem impact_from_transfers_spec:
  "(impact_from_transfers fe e txs = None \<longleftrightarrow>
      \<not> (\<exists>h\<in>set txs. \<exists>t. en_tx e h = Some t \<and>
           (\<exists>x\<in>set (ta_transfers t). usd_value fe e (tt_token x) (tt_amount x) \<noteq> None))) \<and>
   (\<forall>i. impact_from_transfers fe e txs = Some i \<longrightarrow> usd_ok i \<and>
      (env_ok fe \<and> (\<forall>a p. en_price e a = Some p \<longrightarrow> usd_ok p) \<and>
       fst (fold (sum_tx fe e) txs (Fin 0, False)) \<noteq> PInf \<longrightarrow> i = fst (fold (sum_tx fe e) txs (Fin 0, False))))"
proof -
  let ?total = "fst (fold (sum_tx fe e) txs (Fin 0, False))"
  have "usd_amount_new ?total = ?total"
    if "env_ok fe" "\<forall>a p. en_price e a = Some p \<longrightarrow> usd_ok p" "?total \<noteq> PInf"
  proof -
    have "f_nonneg ?total" using sum_loop_nonneg[OF that(1,2), of "(Fin 0, False)"] by simp
    with that(3) show ?thesis by (cases ?total) (auto simp: usd_amount_new_def f_max_def)
  qed
  then show ?thesis
    using sum_loop_priced[of fe e txs "(Fin 0, False)"]
    by (auto simp: impact_from_transfers_def case_prod_beta split: if_splits)
qed

lemma round_f64_pow2:
  "- 1022 \<le> k \<Longrightarrow> k \<le> 1023 \<Longrightarrow> round_f64 (pow2 k) = Fin (pow2 k)"
  "1024 \<le> k \<Longrightarrow> round_f64 (pow2 k) = PInf"
proof -
  have l: "ilog2 (pow2 k) = k" by (rule ilog2_eq) (simp_all add: pow2_less)
  have mag: "f_mag (pow2 k) = pow2 k" if "- 1022 \<le> k"
  proof -
    have e: "f_exp (pow2 k) = k - 52" using that by (simp add: f_exp_def l)
    have "pow2 k / pow2 (k - 52) = of_int (2 ^ 52)" using pow2_of_nat[of 52] by (simp add: pow2_diff)
    then have "round_even (pow2 k / pow2 (k - 52)) = 2 ^ 52" by (simp only: round_even_of_int)
    then show ?thesis using pow2_of_nat[of 52] by (simp add: f_mag_def e pow2_diff)
  qed
  show "- 1022 \<le> k \<Longrightarrow> k \<le> 1023 \<Longrightarrow> round_f64 (pow2 k) = Fin (pow2 k)"
    using mag by (simp add: round_f64_pos pow2_le)
  show "1024 \<le> k \<Longrightarrow> round_f64 (pow2 k) = PInf"
    using mag by (simp add: round_f64_pos pow2_le)
qed

definition ex_huge :: enrichment where
  "ex_huge = add_tx (tx_actions_new 1 2 (Some 3))
     \<lparr>en_tokens = [(7, \<lparr>tm_address = 7, tm_symbol = None, tm_decimals = 0\<rparr>)], en_pools = [],
      en_prices = [(7, Fin (pow2 1023))], en_txs = []\<rparr>"

definition ex_transfer :: token_transfer where
  "ex_transfer = \<lparr>tt_token = 7, tt_from = 2, tt_to = 3, tt_amount = 1\<rparr>"

definition ex_huge_twice :: enrichment where
  "ex_huge_twice = add_tx ((tx_actions_new 1 2 (Some 3))\<lparr>ta_transfers := [ex_transfer, ex_transfer]\<rparr>) ex_huge"

text \<open>
  The sanitizing constructor is not the no-op its comment claims: when two finite transfer values
  overflow in the sum, the estimate is a known impact of zero dollars, so the largest movement the
  system can see is banded as the least severe.
\<close>

theorem impact_overflow_reads_zero:
  "usd_value exact_env ex_huge_twice 7 1 = Some (Fin (pow2 1023)) \<and>
   impact_from_transfers exact_env ex_huge_twice [1] = Some (Fin 0) \<and>
   severity_band (impact_from_transfers exact_env ex_huge_twice [1]) confidence_certain = Low"
proof -
  have one: "round_f64 1 = Fin 1" using round_f64_int[of 1] by simp
  have r: "round_f64 (pow2 1023) = Fin (pow2 1023)" "round_f64 (pow2 1024) = PInf"
    by (simp_all add: round_f64_pow2)
  have d: "pow2 1023 + pow2 1023 = pow2 1024" using pow2_add[of 1023 1] by simp
  have v: "usd_value exact_env ex_huge_twice 7 1 = Some (Fin (pow2 1023))"
    by (simp add: usd_value_def ex_huge_twice_def ex_huge_def add_tx_def en_token_def en_price_def to_whole_def
        exact_env_def f_of_nat_def one r)
  have "en_tx ex_huge_twice 1 = Some ((tx_actions_new 1 2 (Some 3))\<lparr>ta_transfers := [ex_transfer, ex_transfer]\<rparr>)"
    by (simp add: ex_huge_twice_def add_tx_def en_tx_def tx_actions_new_def hm_get_insert)
  then have i: "impact_from_transfers exact_env ex_huge_twice [1] = Some (Fin 0)"
    by (simp add: impact_from_transfers_def sum_tx_def sum_transfer_def ex_transfer_def v r d usd_amount_new_def)
  have "severity_band (Some (Fin 0)) confidence_certain = Low"
    by (simp add: severity_band_def confidence_certain_def round_f64_def)
  with v i show ?thesis by simp
qed

fun erase_id :: "'d domain_event \<Rightarrow> 'd domain_event" where
  "erase_id (AlertCreated a) = AlertCreated (a\<lparr>pa_alert_id := 0\<rparr>)"
| "erase_id (Triggered d) = Triggered d"

lemma emit_all_erase:
  "map erase_id (fst (emit_all fe ids n l ctx evs)) = map erase_id (fst (emit_all fe ids' m l ctx evs))"
proof (induction evs arbitrary: n m)
  case (Cons ev evs)
  have "map erase_id (fst (evidence_events fe ids n d s b e ev)) = map erase_id (fst (evidence_events fe ids' m d s b e ev))" for d s b e
    by (simp add: evidence_events_def Let_def preliminary_alert_def)
  then show ?case by (simp add: case_prod_beta Let_def) (metis Cons.IH)
qed simp

text \<open>
  The parallel fast path is the sequential one: whatever identifiers the two draw, they emit the
  same events in the same order up to the alert ids.
\<close>

theorem detection_parallel_equiv:
  "map erase_id (detection_events_parallel fe pids plan ctx) = map erase_id (detection_events fe ids plan ctx)"
proof -
  have "map erase_id (detection_events_parallel fe pids plan ctx) = map erase_id (detection_events_from fe ids n plan ctx)" for n
  proof (induction plan arbitrary: n)
    case (Cons l plan)
    obtain es n' where e: "emit_all fe ids n l ctx (pl_detect (ld_plugin l) ctx) = (es, n')" by fastforce
    have "map erase_id (fst (emit_all fe (pids l) 0 l ctx (pl_detect (ld_plugin l) ctx))) = map erase_id es"
      using emit_all_erase[of fe "pids l" 0 l ctx _ ids n] e by (metis fst_conv)
    with Cons[of n'] e show ?case by (simp add: detection_events_parallel_def)
  qed (simp add: detection_events_parallel_def)
  then show ?thesis by (simp add: detection_events_def)
qed


lemma emit_all_member:
  "x \<in> set (fst (emit_all fe ids n l ctx evs)) \<Longrightarrow>
   \<exists>ev\<in>set evs. \<exists>k. x \<in> set (fst (evidence_events fe ids k (ld_ref l) (ld_status l) (ctx_block ctx) (ctx_enrichment ctx) ev))"
  by (induction evs arbitrary: n) (fastforce simp: case_prod_beta Let_def)+

lemma detection_events_member:
  "x \<in> set (detection_events fe ids plan ctx) \<Longrightarrow>
   \<exists>l\<in>set plan. \<exists>ev\<in>set (pl_detect (ld_plugin l) ctx).
     \<exists>k. x \<in> set (fst (evidence_events fe ids k (ld_ref l) (ld_status l) (ctx_block ctx) (ctx_enrichment ctx) ev))"
proof -
  have "x \<in> set (detection_events_from fe ids n plan ctx) \<Longrightarrow>
   \<exists>l\<in>set plan. \<exists>ev\<in>set (pl_detect (ld_plugin l) ctx).
     \<exists>k. x \<in> set (fst (evidence_events fe ids k (ld_ref l) (ld_status l) (ctx_block ctx) (ctx_enrichment ctx) ev))" for n
    by (induction plan arbitrary: n) (use emit_all_member in \<open>fastforce simp: case_prod_beta Let_def\<close>)+
  then show "x \<in> set (detection_events fe ids plan ctx) \<Longrightarrow> ?thesis" by (simp add: detection_events_def)
qed

text \<open>Every alert directly follows the trigger of the same detector.\<close>

fun paired :: "'d domain_event list \<Rightarrow> bool" where
  "paired (Triggered d # AlertCreated a # es) \<longleftrightarrow> dt_detector d = pa_detector a \<and> dt_raw_confidence d = pa_confidence a \<and> paired es"
| "paired (Triggered d # es) \<longleftrightarrow> paired es"
| "paired (AlertCreated a # es) \<longleftrightarrow> False"
| "paired [] \<longleftrightarrow> True"

lemma paired_trigger: "paired ys \<Longrightarrow> paired (Triggered d # ys)"
  by (cases ys rule: paired.cases) auto

lemma paired_append: "paired xs \<Longrightarrow> paired ys \<Longrightarrow> paired (xs @ ys)"
  by (induction xs rule: paired.induct) (auto intro: paired_trigger)

lemma paired_evidence: "paired (fst (evidence_events fe ids n d s b e ev))"
  by (simp add: evidence_events_def Let_def detector_triggered_of_def preliminary_alert_def)

lemma paired_detection: "paired (detection_events fe ids plan ctx)"
proof -
  have e: "paired (fst (emit_all fe ids n l ctx evs))" for n evs l
    by (induction evs arbitrary: n) (simp_all add: case_prod_beta Let_def paired_append paired_evidence)
  have "paired (detection_events_from fe ids n plan ctx)" for n
    by (induction plan arbitrary: n) (simp_all add: case_prod_beta Let_def paired_append e)
  then show ?thesis by (simp add: detection_events_def)
qed

text \<open>
  Everything the fast path publishes is backed by the block. For a roster of detectors that meet
  the plugin contract: a trigger names this block, carries the triple of a linked detector, and
  implicates at least one transaction, all of them in this block; an alert is provisional, stems from
  an Active detector, has the severity of its impact and confidence and the matching action, and
  names only parties of transactions of this block; and every alert directly follows its trigger.
\<close>

lemma detection_events_contract:
  assumes "en_wf (ctx_enrichment ctx)" "\<forall>l\<in>set plan. detector_plugin (pl_detect (ld_plugin l))"
  shows "paired (detection_events fe ids plan ctx) \<and>
    (\<forall>d. Triggered d \<in> set (detection_events fe ids plan ctx) \<longrightarrow>
       dt_block d = ctx_block ctx \<and> dt_detector d \<in> ld_ref ` set plan \<and> dt_txs d \<noteq> [] \<and>
       set (dt_txs d) \<subseteq> set (ctx_txs ctx) \<and> conf_ok (dt_raw_confidence d)) \<and>
    (\<forall>a. AlertCreated a \<in> set (detection_events fe ids plan ctx) \<longrightarrow>
       pa_provisional a \<and> (\<exists>l\<in>set plan. ld_status l = Active \<and> pa_detector a = ld_ref l) \<and>
       pa_severity a = severity_band (pa_impact_usd a) (pa_confidence a) \<and>
       pa_suggested_action a = suggested_action_for (pa_severity a) \<and>
       (\<forall>x\<in>set (pa_addresses a). \<exists>t. en_tx (ctx_enrichment ctx) (ta_hash t) = Some t \<and>
          ta_hash t \<in> set (ctx_txs ctx) \<and> (x = ta_from t \<or> ta_to t = Some x)))"
proof (intro conjI allI impI)
  show "paired (detection_events fe ids plan ctx)" by (rule paired_detection)
next
  fix d assume "Triggered d \<in> set (detection_events fe ids plan ctx)"
  from detection_events_member[OF this] obtain l ev where l: "l \<in> set plan" "ev \<in> set (pl_detect (ld_plugin l) ctx)"
    "d = detector_triggered_of (ld_ref l) (ctx_block ctx) ev"
    by (auto simp: evidence_events_def Let_def split: if_splits)
  from assms l have "evidence_ok ctx ev" by (auto intro: detector_plugin.evidence_wf)
  with l show "dt_block d = ctx_block ctx" "dt_detector d \<in> ld_ref ` set plan" "dt_txs d \<noteq> []"
    "set (dt_txs d) \<subseteq> set (ctx_txs ctx)" "conf_ok (dt_raw_confidence d)"
    by (auto simp: detector_triggered_of_def evidence_ok_def tx_known_def)
next
  fix a assume "AlertCreated a \<in> set (detection_events fe ids plan ctx)"
  from detection_events_member[OF this] obtain l ev i where l: "l \<in> set plan" "ev \<in> set (pl_detect (ld_plugin l) ctx)"
    "ld_status l = Active"
    and a: "a = preliminary_alert i (ld_ref l) (ev_kind ev)
      (implicated_addresses (ctx_enrichment ctx) (ev_txs ev)) (ev_confidence ev) (impact_usd fe ev (ctx_enrichment ctx))"
    by (auto simp: evidence_events_def Let_def split: if_splits)
  from assms l have "detector_plugin (pl_detect (ld_plugin l))" by blast
  note tx = detector_plugin.evidence_tx_enriched[OF this assms(1) l(2)]
  show "pa_provisional a" "\<exists>l\<in>set plan. ld_status l = Active \<and> pa_detector a = ld_ref l"
    "pa_severity a = severity_band (pa_impact_usd a) (pa_confidence a)"
    "pa_suggested_action a = suggested_action_for (pa_severity a)"
    using l by (auto simp: a preliminary_alert_def Let_def)
  show "\<forall>x\<in>set (pa_addresses a). \<exists>t. en_tx (ctx_enrichment ctx) (ta_hash t) = Some t \<and>
          ta_hash t \<in> set (ctx_txs ctx) \<and> (x = ta_from t \<or> ta_to t = Some x)"
  proof
    fix x assume "x \<in> set (pa_addresses a)"
    then have "x \<in> set (implicated_loop (ctx_enrichment ctx) (ev_txs ev) [])"
      by (simp add: a preliminary_alert_def Let_def implicated_addresses_def)
    then obtain h t where ht: "h \<in> set (ev_txs ev)" "en_tx (ctx_enrichment ctx) h = Some t" "x \<in> set (parties t)"
      using implicated_loop_spec[of "ctx_enrichment ctx" "ev_txs ev" "[]"] by auto
    from tx[OF ht(1)] ht(2) have "ta_hash t = h" "h \<in> set (ctx_txs ctx)" by auto
    with ht show "\<exists>t. en_tx (ctx_enrichment ctx) (ta_hash t) = Some t \<and>
          ta_hash t \<in> set (ctx_txs ctx) \<and> (x = ta_from t \<or> ta_to t = Some x)"
      by (auto simp: parties_def split: option.splits)
  qed
qed

section \<open>Witnesses\<close>

theorem plan_link_spec_witness:
  "map ld_plugin [\<lparr>ld_plugin = ex_plugin, ld_ref = card_ref ex_codec ex_card, ld_status = Shadow\<rparr>] = [ex_plugin] \<and>
   plan_link ex_codec [(plugin_key ex_plugin, ex_plugin)] [(plugin_key ex_plugin, ex_card)] =
     Inr [\<lparr>ld_plugin = ex_plugin, ld_ref = card_ref ex_codec ex_card, ld_status = Shadow\<rparr>]"
proof -
  have "plan_link ex_codec [(plugin_key ex_plugin, ex_plugin)] [(plugin_key ex_plugin, ex_card)] =
     Inr [\<lparr>ld_plugin = ex_plugin, ld_ref = card_ref ex_codec ex_card, ld_status = Shadow\<rparr>]"
    by (simp add: plan_link_def ex_card_def with_status_def)
  with plan_link_spec[of ex_codec "[(plugin_key ex_plugin, ex_plugin)]" "[(plugin_key ex_plugin, ex_card)]"]
  show ?thesis by auto
qed

theorem impact_from_transfers_spec_witness:
  "impact_from_transfers exact_env en_default [1] = None"
  using impact_from_transfers_spec[of exact_env en_default "[1]"] by (simp add: en_tx_def en_default_def)

end
