(* ===== verification/Wash_Trading_Detector.thy ===== *)
theory Wash_Trading_Detector
  imports Token_Flow Emit
begin

text \<open>
  The wash-trading detector (\<open>crates/washtrading-detector/src/lib.rs\<close>), the cross-block detector of the
  roster: \<open>observe\<close> folds a block's swaps into a sliding window and \<open>detect\<close> evaluates, over the whole
  window, the \<open>(trader, pool)\<close> pairs that traded in the current block.

  The \<open>VecDeque\<close> of blocks is a list, oldest first. Counters are \<open>u32\<close> and wrap, as they do in a
  release build; the characterisation asks for windows of fewer than \<open>2^32\<close> swaps per pair.
\<close>

section \<open>Configuration and state\<close>

record wash_config =
  wc_window_blocks :: u32
  wc_min_swaps :: u32
  wc_max_net_bps :: bps

definition wash_default_config :: wash_config where
  "wash_default_config = \<lparr>wc_window_blocks = 100, wc_min_swaps = 4, wc_max_net_bps = 1000\<rparr>"

record wash_swap =
  ws_tx :: b256
  ws_trader :: address
  ws_pool :: address
  ws_token_in :: address
  ws_token_out :: address
  ws_amount_in :: u256
  ws_amount_out :: u256

record block_activity =
  ba_number :: nat
  ba_swaps :: "wash_swap list"

type_synonym wash_state = "block_activity list"

record agg =
  ag_token_a :: address
  ag_token_b :: address
  ag_swap_count :: u32
  ag_buy_count :: u32
  ag_sell_count :: u32
  ag_gross :: u256
  ag_recv :: u256
  ag_spent :: u256
  ag_txs :: "b256 list"

record wash_detail =
  wd_trader :: address
  wd_pool :: address
  wd_token_a :: address
  wd_token_b :: address
  wd_swap_count :: u32
  wd_buy_count :: u32
  wd_sell_count :: u32
  wd_gross_volume_a :: u256
  wd_net_bps :: bps
  wd_volume_usd :: "f64 option"
  wd_window_blocks :: u32

section \<open>The aggregate of a pair\<close>

definition canonical_pair :: "address \<Rightarrow> address \<Rightarrow> address \<times> address" where
  "canonical_pair i out = (if i \<le> out then (i, out) else (out, i))"

definition agg_new :: "address \<times> address \<Rightarrow> agg" where
  "agg_new p = \<lparr>ag_token_a = fst p, ag_token_b = snd p, ag_swap_count = 0, ag_buy_count = 0, ag_sell_count = 0,
     ag_gross = 0, ag_recv = 0, ag_spent = 0, ag_txs = []\<rparr>"

definition agg_push_tx :: "b256 \<Rightarrow> agg \<Rightarrow> agg" where
  "agg_push_tx h g = (if ag_txs g \<noteq> [] \<and> last (ag_txs g) = h then g else g\<lparr>ag_txs := ag_txs g @ [h]\<rparr>)"

definition agg_fold :: "wash_swap \<Rightarrow> agg \<Rightarrow> agg" where
  "agg_fold s g =
     (let g1 = g\<lparr>ag_swap_count := ag_swap_count g + 1\<rparr>;
          g2 = (if ws_token_out s = ag_token_a g
                then g1\<lparr>ag_buy_count := ag_buy_count g + 1, ag_recv := sat_add (ag_recv g) (ws_amount_out s),
                        ag_gross := sat_add (ag_gross g) (ws_amount_out s)\<rparr>
                else g1\<lparr>ag_sell_count := ag_sell_count g + 1, ag_spent := sat_add (ag_spent g) (ws_amount_in s),
                        ag_gross := sat_add (ag_gross g) (ws_amount_in s)\<rparr>)
      in agg_push_tx (ws_tx s) g2)"

definition net_bps :: "float_env \<Rightarrow> agg \<Rightarrow> bps option" where
  "net_bps fe g =
     (let net = (if ag_spent g \<le> ag_recv g then ag_recv g - ag_spent g else ag_spent g - ag_recv g)
      in bps_from_ratio_u256 fe net (ag_gross g))"

section \<open>Observing and detecting\<close>

definition wash_swaps_of :: "detection_ctx \<Rightarrow> wash_swap list" where
  "wash_swaps_of ctx = concat (map (\<lambda>tx. map (\<lambda>s.
      \<lparr>ws_tx = ta_hash tx, ws_trader = ta_from tx, ws_pool = sw_pool s, ws_token_in = token_in s,
       ws_token_out = token_out s, ws_amount_in = amount_in s, ws_amount_out = amount_out s\<rparr>) (ta_swaps tx))
     (block_actions ctx))"

definition wash_init_state :: wash_state where
  "wash_init_state = []"

definition wash_observe :: "wash_config \<Rightarrow> detection_ctx \<Rightarrow> wash_state \<Rightarrow> wash_state" where
  "wash_observe cfg ctx st =
     (let number = br_number (ctx_block ctx);
          cutoff = number - unat (wc_window_blocks cfg)
      in dropWhile (\<lambda>b. ba_number b \<le> cutoff) (st @ [\<lparr>ba_number = number, ba_swaps = wash_swaps_of ctx\<rparr>]))"

definition wash_confidence_for :: "u32 \<Rightarrow> u32 \<Rightarrow> bps \<Rightarrow> confidence" where
  "wash_confidence_for swap_count min_swaps b =
     (let extra = min (sat_sub swap_count min_swaps) 7;
          score = f_add (round_f64 (55 / 100)) (f_mul (round_f64 (3 / 100)) (f_of_nat (unat extra)))
      in confidence_new (if b < 100 then f_add score (round_f64 (10 / 100)) else score))"

definition wash_evidence_for ::
  "float_env \<Rightarrow> wash_config \<Rightarrow> enrichment \<Rightarrow> address \<Rightarrow> address \<Rightarrow> agg \<Rightarrow> wash_detail evidence option" where
  "wash_evidence_for fe cfg e trader pool g =
     (if ag_swap_count g < wc_min_swaps cfg \<or> ag_buy_count g = 0 \<or> ag_sell_count g = 0 then None
      else case net_bps fe g of
          None \<Rightarrow> None
        | Some b \<Rightarrow>
            if wc_max_net_bps cfg < b then None
            else let volume_usd = usd_value fe e (ag_token_a g) (ag_gross g)
                 in Some (with_impact_usd (map_option usd_amount_new volume_usd)
                      (from_detail WashTrading (ag_txs g) (wash_confidence_for (ag_swap_count g) (wc_min_swaps cfg) b)
                        \<lparr>wd_trader = trader, wd_pool = pool, wd_token_a = ag_token_a g, wd_token_b = ag_token_b g,
                         wd_swap_count = ag_swap_count g, wd_buy_count = ag_buy_count g, wd_sell_count = ag_sell_count g,
                         wd_gross_volume_a = ag_gross g, wd_net_bps = b, wd_volume_usd = volume_usd,
                         wd_window_blocks = wc_window_blocks cfg\<rparr>)))"

definition pair_of :: "wash_swap \<Rightarrow> address \<times> address" where
  "pair_of s = (ws_trader s, ws_pool s)"

definition active_pairs :: "nat \<Rightarrow> wash_state \<Rightarrow> (address \<times> address) list" where
  "active_pairs current st = map pair_of (concat (map ba_swaps (filter (\<lambda>b. ba_number b = current) st)))"

definition agg_entry :: "wash_swap \<Rightarrow> agg option \<Rightarrow> agg" where
  "agg_entry s v = agg_fold s (case v of None \<Rightarrow> agg_new (canonical_pair (ws_token_in s) (ws_token_out s)) | Some g \<Rightarrow> g)"

definition wash_aggs :: "(address \<times> address) list \<Rightarrow> wash_state \<Rightarrow> ((address \<times> address) \<times> agg) list" where
  "wash_aggs active st = fold (\<lambda>b m. fold (\<lambda>s m.
      if pair_of s \<in> set active then bm_update (pair_of s) (agg_entry s) m else m) (ba_swaps b) m) st []"

definition wash_detect ::
  "float_env \<Rightarrow> wash_config \<Rightarrow> detection_ctx \<Rightarrow> wash_state \<Rightarrow> wash_detail evidence list" where
  "wash_detect fe cfg ctx st =
     (let active = active_pairs (br_number (ctx_block ctx)) st
      in if active = [] then []
         else List.map_filter (\<lambda>((trader, pool), g). wash_evidence_for fe cfg (ctx_enrichment ctx) trader pool g)
           (wash_aggs active st))"

section \<open>The window\<close>

definition activity_of :: "detection_ctx \<Rightarrow> block_activity" where
  "activity_of ctx = \<lparr>ba_number = br_number (ctx_block ctx), ba_swaps = wash_swaps_of ctx\<rparr>"

lemma dropWhile_le_filter:
  assumes "sorted_wrt (\<lambda>a b. ba_number a < ba_number b) bs"
  shows "dropWhile (\<lambda>b. ba_number b \<le> c) bs = filter (\<lambda>b. c < ba_number b) bs"
  using assms
proof (induction bs)
  case (Cons b bs)
  show ?case
  proof (cases "ba_number b \<le> c")
    case False
    with Cons.prems have "filter (\<lambda>b. c < ba_number b) bs = bs" by (auto simp: filter_id_conv)
    with False show ?thesis by simp
  qed (use Cons in auto)
qed simp

lemma wash_observe_act:
  "wash_observe cfg c st =
     dropWhile (\<lambda>b. ba_number b \<le> br_number (ctx_block c) - unat (wc_window_blocks cfg)) (st @ [activity_of c])"
  by (simp add: wash_observe_def activity_of_def Let_def)

lemma wash_observe_window:
  assumes "sorted_wrt (\<lambda>a b. br_number (ctx_block a) < br_number (ctx_block b)) (cs @ [c])"
  shows "fold (wash_observe cfg) (cs @ [c]) wash_init_state =
    filter (\<lambda>b. br_number (ctx_block c) - unat (wc_window_blocks cfg) < ba_number b) (map activity_of (cs @ [c]))"
  using assms
proof (induction cs arbitrary: c rule: rev_induct)
  case Nil
  then show ?case by (simp add: wash_observe_def wash_init_state_def activity_of_def Let_def)
next
  case (snoc d cs)
  let ?n = "\<lambda>c. br_number (ctx_block c)" and ?w = "unat (wc_window_blocks cfg)"
  let ?st = "filter (\<lambda>b. ?n d - ?w < ba_number b) (map activity_of (cs @ [d]))"
  from snoc.prems have s: "sorted_wrt (\<lambda>a b. ?n a < ?n b) (cs @ [d])" "?n d < ?n c"
    by (auto simp: sorted_wrt_append)
  have asc: "sorted_wrt (\<lambda>a b. ba_number a < ba_number b) (map activity_of ((cs @ [d]) @ [c]))"
    using snoc.prems unfolding sorted_wrt_map by (simp add: activity_of_def)
  have "sorted_wrt (\<lambda>a b. ba_number a < ba_number b) (?st @ [activity_of c])"
    using asc sorted_wrt_filter by (auto simp: sorted_wrt_append simp flip: filter_append)
  then have "wash_observe cfg c ?st = filter (\<lambda>b. ?n c - ?w < ba_number b) (?st @ [activity_of c])"
    unfolding wash_observe_act by (rule dropWhile_le_filter)
  moreover have "fold (wash_observe cfg) ((cs @ [d]) @ [c]) wash_init_state = wash_observe cfg c ?st"
  proof -
    have "fold f (ys @ [c]) z = f c (fold f ys z)" for f ys and z :: wash_state by simp
    from this[of "wash_observe cfg" "cs @ [d]"] show ?thesis by (simp only: snoc.IH[OF s(1)])
  qed
  ultimately have "fold (wash_observe cfg) ((cs @ [d]) @ [c]) wash_init_state =
      filter (\<lambda>b. ?n c - ?w < ba_number b) (?st @ [activity_of c])" by simp
  also have "filter (\<lambda>b. ?n c - ?w < ba_number b) ?st = filter (\<lambda>b. ?n c - ?w < ba_number b) (map activity_of (cs @ [d]))"
    using s(2) unfolding filter_filter by (intro filter_cong) auto
  then have "filter (\<lambda>b. ?n c - ?w < ba_number b) (?st @ [activity_of c]) =
      filter (\<lambda>b. ?n c - ?w < ba_number b) (map activity_of ((cs @ [d]) @ [c]))"
    by (simp only: filter_append map_append list.map)
  finally show ?case .
qed

section \<open>The aggregates\<close>

definition window_swaps :: "wash_state \<Rightarrow> wash_swap list" where
  "window_swaps st = concat (map ba_swaps st)"

definition pair_swaps :: "address \<times> address \<Rightarrow> wash_state \<Rightarrow> wash_swap list" where
  "pair_swaps k st = filter (\<lambda>s. pair_of s = k) (window_swaps st)"

definition the_agg :: "wash_swap list \<Rightarrow> agg" where
  "the_agg ss = fold agg_fold ss (agg_new (canonical_pair (ws_token_in (hd ss)) (ws_token_out (hd ss))))"

lemma wash_aggs_flat:
  "wash_aggs active st = fold (\<lambda>s. bm_update (pair_of s) (agg_entry s))
     (filter (\<lambda>s. pair_of s \<in> set active) (window_swaps st)) []"
proof -
  have inner: "fold (\<lambda>s m. if P s then f s m else m) xs m = fold f (filter P xs) m" for P xs m and f :: "wash_swap \<Rightarrow> 'm \<Rightarrow> 'm"
    by (induction xs arbitrary: m) auto
  have "fold (\<lambda>b m. fold (\<lambda>s m. if pair_of s \<in> set active then bm_update (pair_of s) (agg_entry s) m else m) (ba_swaps b) m) bs m =
      fold (\<lambda>s. bm_update (pair_of s) (agg_entry s)) (filter (\<lambda>s. pair_of s \<in> set active) (window_swaps bs)) m" for bs m
    by (induction bs arbitrary: m) (simp_all add: window_swaps_def inner)
  then show ?thesis by (simp add: wash_aggs_def)
qed

lemma agg_entry_group: "ss \<noteq> [] \<Longrightarrow> fold (\<lambda>s v. Some (agg_entry s v)) ss None = Some (the_agg ss)"
proof -
  assume "ss \<noteq> []"
  then obtain s ts where ss: "ss = s # ts" by (cases ss) auto
  have "(\<lambda>t x. agg_entry t (Some x)) = agg_fold" by (simp add: fun_eq_iff agg_entry_def)
  then show ?thesis by (simp add: ss fold_Some the_agg_def agg_entry_def)
qed

lemma wash_aggs_in:
  "(k, g) \<in> set (wash_aggs active st) \<longleftrightarrow> k \<in> set active \<and> pair_swaps k st \<noteq> [] \<and> g = the_agg (pair_swaps k st)"
proof -
  let ?m = "wash_aggs active st"
  note grp = bm_fold_group[OF bm_sorted_Nil, of pair_of agg_entry "filter (\<lambda>s. pair_of s \<in> set active) (window_swaps st)" k,
      folded wash_aggs_flat]
  have "(k, g) \<in> set ?m \<longleftrightarrow> hm_get ?m k = Some g"
    using grp by (intro hm_in_iff bm_sorted_distinct) simp
  also have "filter (\<lambda>s. pair_of s = k) (filter (\<lambda>s. pair_of s \<in> set active) (window_swaps st)) =
      (if k \<in> set active then pair_swaps k st else [])"
    by (cases "k \<in> set active") (auto simp: pair_swaps_def filter_empty_conv intro!: filter_cong)
  then have "hm_get ?m k = fold (\<lambda>s v. Some (agg_entry s v)) (if k \<in> set active then pair_swaps k st else []) None"
    using grp by simp
  finally show ?thesis
    by (cases "k \<in> set active \<and> pair_swaps k st \<noteq> []") (auto simp: agg_entry_group split: if_splits)
qed

text \<open>What the swaps of a pair acquire of the reference token, and what the others put in, exactly.\<close>

definition bought :: "address \<Rightarrow> wash_swap list \<Rightarrow> nat" where
  "bought a ss = sum_list (map (\<lambda>s. if ws_token_out s = a then unat (ws_amount_out s) else 0) ss)"

definition sold :: "address \<Rightarrow> wash_swap list \<Rightarrow> nat" where
  "sold a ss = sum_list (map (\<lambda>s. if ws_token_out s = a then 0 else unat (ws_amount_in s)) ss)"

lemma agg_push_tx_sel [simp]:
  "ag_token_a (agg_push_tx h g) = ag_token_a g" "ag_token_b (agg_push_tx h g) = ag_token_b g"
  "ag_swap_count (agg_push_tx h g) = ag_swap_count g" "ag_buy_count (agg_push_tx h g) = ag_buy_count g"
  "ag_sell_count (agg_push_tx h g) = ag_sell_count g" "ag_recv (agg_push_tx h g) = ag_recv g"
  "ag_spent (agg_push_tx h g) = ag_spent g" "ag_gross (agg_push_tx h g) = ag_gross g"
  "set (ag_txs (agg_push_tx h g)) = insert h (set (ag_txs g))"
  using last_in_set[of "ag_txs g"] by (auto simp: agg_push_tx_def)

lemma agg_fold_totals:
  "let g' = fold agg_fold ss g; a = ag_token_a g in
     ag_token_a g' = a \<and> ag_token_b g' = ag_token_b g \<and>
     ag_swap_count g' = ag_swap_count g + of_nat (length ss) \<and>
     ag_buy_count g' = ag_buy_count g + of_nat (length (filter (\<lambda>s. ws_token_out s = a) ss)) \<and>
     ag_sell_count g' = ag_sell_count g + of_nat (length (filter (\<lambda>s. ws_token_out s \<noteq> a) ss)) \<and>
     unat (ag_recv g') = min (unat (ag_recv g) + bought a ss) u256_max \<and>
     unat (ag_spent g') = min (unat (ag_spent g) + sold a ss) u256_max \<and>
     unat (ag_gross g') = min (unat (ag_gross g) + bought a ss + sold a ss) u256_max \<and>
     set (ag_txs g') = set (ag_txs g) \<union> ws_tx ` set ss"
proof (induction ss arbitrary: g)
  case Nil
  then show ?case
    using unat_le_u256_max[of "ag_recv g"] unat_le_u256_max[of "ag_spent g"] unat_le_u256_max[of "ag_gross g"]
    by (simp add: bought_def sold_def)
next
  case (Cons s ss)
  let ?g = "agg_fold s g" and ?a = "ag_token_a g"
  have sat: "min (min x M + y) M = min (x + y) M" for x y M :: nat by (simp add: min_def)
  show ?case
  proof (cases "ws_token_out s = ?a")
    case True
    then have "ag_token_a ?g = ?a" "ag_token_b ?g = ag_token_b g" "ag_swap_count ?g = ag_swap_count g + 1"
      "ag_buy_count ?g = ag_buy_count g + 1" "ag_sell_count ?g = ag_sell_count g"
      "unat (ag_recv ?g) = min (unat (ag_recv g) + unat (ws_amount_out s)) u256_max" "ag_spent ?g = ag_spent g"
      "unat (ag_gross ?g) = min (unat (ag_gross g) + unat (ws_amount_out s)) u256_max"
      "set (ag_txs ?g) = insert (ws_tx s) (set (ag_txs g))"
      by (simp_all add: agg_fold_def Let_def unat_sat_add_u256)
    with Cons.IH[of ?g] True show ?thesis by (simp add: Let_def bought_def sold_def sat add.assoc)
  next
    case False
    then have "ag_token_a ?g = ?a" "ag_token_b ?g = ag_token_b g" "ag_swap_count ?g = ag_swap_count g + 1"
      "ag_buy_count ?g = ag_buy_count g" "ag_sell_count ?g = ag_sell_count g + 1" "ag_recv ?g = ag_recv g"
      "unat (ag_spent ?g) = min (unat (ag_spent g) + unat (ws_amount_in s)) u256_max"
      "unat (ag_gross ?g) = min (unat (ag_gross g) + unat (ws_amount_in s)) u256_max"
      "set (ag_txs ?g) = insert (ws_tx s) (set (ag_txs g))"
      by (simp_all add: agg_fold_def Let_def unat_sat_add_u256)
    with Cons.IH[of ?g] False show ?thesis by (simp add: Let_def bought_def sold_def sat add.assoc add.left_commute)
  qed
qed


lemma the_agg_totals:
  assumes "a = fst (canonical_pair (ws_token_in (hd ss)) (ws_token_out (hd ss)))"
    and "length ss < 2 ^ 32" "bought a ss + sold a ss \<le> u256_max"
  shows "ag_token_a (the_agg ss) = a" "unat (ag_swap_count (the_agg ss)) = length ss"
    "ag_buy_count (the_agg ss) = 0 \<longleftrightarrow> \<not> (\<exists>s\<in>set ss. ws_token_out s = a)"
    "ag_sell_count (the_agg ss) = 0 \<longleftrightarrow> \<not> (\<exists>s\<in>set ss. ws_token_out s \<noteq> a)"
    "ag_recv (the_agg ss) = of_nat (bought a ss)" "ag_spent (the_agg ss) = of_nat (sold a ss)"
    "ag_gross (the_agg ss) = of_nat (bought a ss + sold a ss)"
    "unat (ag_gross (the_agg ss)) = bought a ss + sold a ss"
    "set (ag_txs (the_agg ss)) = ws_tx ` set ss"
proof -
  let ?g = "agg_new (canonical_pair (ws_token_in (hd ss)) (ws_token_out (hd ss)))"
  have g: "ag_token_a ?g = a" "ag_swap_count ?g = 0" "ag_buy_count ?g = 0" "ag_sell_count ?g = 0" "ag_recv ?g = 0"
    "ag_spent ?g = 0" "ag_gross ?g = 0" "ag_txs ?g = []" by (simp_all add: agg_new_def assms(1))
  note t = agg_fold_totals[of ss ?g, folded the_agg_def, unfolded Let_def g]
  from t show "ag_token_a (the_agg ss) = a" "set (ag_txs (the_agg ss)) = ws_tx ` set ss" by simp_all
  have small: "unat (of_nat n :: u32) = n" if "n \<le> length ss" for n
    using that assms(2) by (simp add: unsigned_of_nat take_bit_nat_eq_self)
  have zero: "(of_nat n :: u32) = 0 \<longleftrightarrow> n = 0" if "n \<le> length ss" for n
  proof
    assume "(of_nat n :: u32) = 0"
    then have "unat (of_nat n :: u32) = 0" by (simp only: unat_0)
    with small[OF that] show "n = 0" by simp
  qed simp
  from t small show "unat (ag_swap_count (the_agg ss)) = length ss" by simp
  from t zero[OF length_filter_le[of "\<lambda>s. ws_token_out s = a" ss]] zero[OF length_filter_le[of "\<lambda>s. ws_token_out s \<noteq> a" ss]]
  show "ag_buy_count (the_agg ss) = 0 \<longleftrightarrow> \<not> (\<exists>s\<in>set ss. ws_token_out s = a)"
    "ag_sell_count (the_agg ss) = 0 \<longleftrightarrow> \<not> (\<exists>s\<in>set ss. ws_token_out s \<noteq> a)"
    by (auto simp: filter_empty_conv)
  have un: "unat (ag_recv (the_agg ss)) = bought a ss" "unat (ag_spent (the_agg ss)) = sold a ss"
    "unat (ag_gross (the_agg ss)) = bought a ss + sold a ss"
    using t assms(3) by simp_all
  have back_to: "x = of_nat n" if "unat x = n" for x :: u256 and n
    unfolding that[symmetric] by simp
  from un show "ag_recv (the_agg ss) = of_nat (bought a ss)" "ag_spent (the_agg ss) = of_nat (sold a ss)"
    "ag_gross (the_agg ss) = of_nat (bought a ss + sold a ss)" "unat (ag_gross (the_agg ss)) = bought a ss + sold a ss"
    by (blast intro: back_to)+
qed

text \<open>A pair churned: enough swaps in the window, in both directions, for next to no net position.\<close>

definition wash_reference :: "wash_swap list \<Rightarrow> address" where
  "wash_reference ss = fst (canonical_pair (ws_token_in (hd ss)) (ws_token_out (hd ss)))"

definition wash_fits :: "wash_swap list \<Rightarrow> bool" where
  "wash_fits ss \<longleftrightarrow> length ss < 2 ^ 32 \<and> bought (wash_reference ss) ss + sold (wash_reference ss) ss \<le> u256_max"

definition churned :: "float_env \<Rightarrow> wash_config \<Rightarrow> wash_swap list \<Rightarrow> bps \<Rightarrow> bool" where
  "churned fe cfg ss b \<longleftrightarrow>
     (let a = wash_reference ss; r = bought a ss; p = sold a ss
      in unat (wc_min_swaps cfg) \<le> length ss \<and> (\<exists>s\<in>set ss. ws_token_out s = a) \<and> (\<exists>s\<in>set ss. ws_token_out s \<noteq> a) \<and>
         bps_from_ratio_u256 fe (of_nat (max r p - min r p)) (of_nat (r + p)) = Some b \<and> b \<le> wc_max_net_bps cfg)"

lemma net_bps_exact:
  assumes "wash_fits ss"
  shows "net_bps fe (the_agg ss) = (let r = bought (wash_reference ss) ss; p = sold (wash_reference ss) ss
    in bps_from_ratio_u256 fe (of_nat (max r p - min r p)) (of_nat (r + p)))"
proof -
  let ?r = "bought (wash_reference ss) ss" and ?p = "sold (wash_reference ss) ss"
  have f: "length ss < 2 ^ 32" "?r + ?p \<le> u256_max" using assms by (simp_all add: wash_fits_def)
  note tt = the_agg_totals[OF wash_reference_def f]
  have small: "unat (of_nat n :: u256) = n" if "n \<le> u256_max" for n
    using that by (simp add: unsigned_of_nat take_bit_nat_eq_self u256_max_def)
  have le: "(of_nat ?p :: u256) \<le> of_nat ?r \<longleftrightarrow> ?p \<le> ?r"
    using f small[of ?p] small[of ?r] by (simp add: word_le_nat_alt)
  have "(if ag_spent (the_agg ss) \<le> ag_recv (the_agg ss) then ag_recv (the_agg ss) - ag_spent (the_agg ss)
      else ag_spent (the_agg ss) - ag_recv (the_agg ss)) = of_nat (max ?r ?p - min ?r ?p)"
    using le by (auto simp: tt(5,6) max_def min_def of_nat_diff)
  then show ?thesis by (simp add: net_bps_def Let_def tt(7))
qed

lemma wash_evidence_for_iff:
  assumes "wash_fits ss" "ss \<noteq> []"
  shows "(\<exists>ev d. wash_evidence_for fe cfg e t p (the_agg ss) = Some ev \<and> ev_detail ev = Some d \<and>
      wd_trader d = t' \<and> wd_pool d = p' \<and> wd_net_bps d = b) \<longleftrightarrow> t' = t \<and> p' = p \<and> churned fe cfg ss b"
proof -
  have f: "length ss < 2 ^ 32" "bought (wash_reference ss) ss + sold (wash_reference ss) ss \<le> u256_max"
    using assms by (simp_all add: wash_fits_def)
  note tt = the_agg_totals[OF wash_reference_def f]
  have "ag_swap_count (the_agg ss) < wc_min_swaps cfg \<longleftrightarrow> length ss < unat (wc_min_swaps cfg)"
    by (simp add: word_less_nat_alt tt(2))
  then show ?thesis
    unfolding wash_evidence_for_def churned_def net_bps_exact[OF assms(1)] Let_def tt(3,4)
    by (auto split: option.splits)
qed

lemma active_pairs_window: "k \<in> set (active_pairs n st) \<Longrightarrow> pair_swaps k st \<noteq> []"
  by (auto simp: active_pairs_def pair_swaps_def window_swaps_def filter_empty_conv)

lemma wash_detect_member:
  "ev \<in> set (wash_detect fe cfg ctx st) \<longleftrightarrow> (\<exists>t p. (t, p) \<in> set (active_pairs (br_number (ctx_block ctx)) st) \<and>
     wash_evidence_for fe cfg (ctx_enrichment ctx) t p (the_agg (pair_swaps (t, p) st)) = Some ev)"
proof -
  let ?act = "active_pairs (br_number (ctx_block ctx)) st"
  have "ev \<in> set (wash_detect fe cfg ctx st) \<longleftrightarrow> (\<exists>t p g. ((t, p), g) \<in> set (wash_aggs ?act st) \<and> ?act \<noteq> [] \<and>
      wash_evidence_for fe cfg (ctx_enrichment ctx) t p g = Some ev)"
    by (force simp: wash_detect_def Let_def map_filter_def)
  then show ?thesis unfolding wash_aggs_in using active_pairs_window by fastforce
qed

text \<open>The swaps of the blocks a detector still holds after the feed \<open>cs @ [c]\<close>.\<close>

definition recent_swaps :: "wash_config \<Rightarrow> detection_ctx list \<Rightarrow> detection_ctx \<Rightarrow> wash_swap list" where
  "recent_swaps cfg cs c = concat (map wash_swaps_of
     (filter (\<lambda>x. br_number (ctx_block c) - unat (wc_window_blocks cfg) < br_number (ctx_block x)) (cs @ [c])))"

lemma window_swaps_observed:
  assumes "sorted_wrt (\<lambda>a b. br_number (ctx_block a) < br_number (ctx_block b)) (cs @ [c])"
  shows "window_swaps (fold (wash_observe cfg) (cs @ [c]) wash_init_state) = recent_swaps cfg cs c"
  unfolding wash_observe_window[OF assms] window_swaps_def recent_swaps_def
  by (simp add: filter_map comp_def activity_of_def)

lemma active_observed:
  assumes "sorted_wrt (\<lambda>a b. br_number (ctx_block a) < br_number (ctx_block b)) (cs @ [c])"
  shows "set (active_pairs (br_number (ctx_block c)) (fold (wash_observe cfg) (cs @ [c]) wash_init_state)) =
    (if br_number (ctx_block c) - unat (wc_window_blocks cfg) < br_number (ctx_block c) then pair_of ` set (wash_swaps_of c) else {})"
proof -
  have "\<forall>x\<in>set cs. br_number (ctx_block x) < br_number (ctx_block c)" using assms by (simp add: sorted_wrt_append)
  then show ?thesis
    unfolding wash_observe_window[OF assms] active_pairs_def by (auto simp: activity_of_def)
qed

lemma wash_detect_iff:
  assumes "sorted_wrt (\<lambda>a b. br_number (ctx_block a) < br_number (ctx_block b)) (cs @ [c])"
    and "st = fold (wash_observe cfg) (cs @ [c]) wash_init_state"
    and "ss = filter (\<lambda>s. pair_of s = (t, p)) (recent_swaps cfg cs c)" "wash_fits ss"
  shows "(\<exists>ev\<in>set (wash_detect fe cfg c st). \<exists>d. ev_detail ev = Some d \<and> wd_trader d = t \<and> wd_pool d = p \<and> wd_net_bps d = b) \<longleftrightarrow>
    br_number (ctx_block c) - unat (wc_window_blocks cfg) < br_number (ctx_block c) \<and>
    (\<exists>s\<in>set (wash_swaps_of c). pair_of s = (t, p)) \<and> churned fe cfg ss b"
proof -
  let ?act = "active_pairs (br_number (ctx_block c)) st"
  have ss: "pair_swaps (t, p) st = ss"
    by (simp add: pair_swaps_def assms(2,3) window_swaps_observed[OF assms(1)] del: fold_append)
  have act: "(t, p) \<in> set ?act \<longleftrightarrow> br_number (ctx_block c) - unat (wc_window_blocks cfg) < br_number (ctx_block c) \<and>
      (\<exists>s\<in>set (wash_swaps_of c). pair_of s = (t, p))"
    unfolding assms(2) active_observed[OF assms(1)] by (auto simp: image_iff) metis+
  have own: "wd_trader d = t' \<and> wd_pool d = p'"
    if "wash_evidence_for fe cfg e t' p' g = Some ev" "ev_detail ev = Some d" for e t' p' g ev d
    using that by (auto simp: wash_evidence_for_def Let_def split: if_splits option.splits)
  have "(\<exists>ev\<in>set (wash_detect fe cfg c st). \<exists>d. ev_detail ev = Some d \<and> wd_trader d = t \<and> wd_pool d = p \<and> wd_net_bps d = b) \<longleftrightarrow>
    (t, p) \<in> set ?act \<and> (\<exists>ev d. wash_evidence_for fe cfg (ctx_enrichment c) t p (the_agg ss) = Some ev \<and> ev_detail ev = Some d \<and>
      wd_trader d = t \<and> wd_pool d = p \<and> wd_net_bps d = b)" (is "?L \<longleftrightarrow> ?R")
  proof
    assume ?L
    then obtain ev d where ev: "ev \<in> set (wash_detect fe cfg c st)" "ev_detail ev = Some d" "wd_trader d = t" "wd_pool d = p"
      "wd_net_bps d = b" by blast
    from ev(1) obtain t' p' where tp: "(t', p') \<in> set ?act"
      "wash_evidence_for fe cfg (ctx_enrichment c) t' p' (the_agg (pair_swaps (t', p') st)) = Some ev"
      unfolding wash_detect_member by blast
    have eq: "t' = t" "p' = p" using own[OF tp(2) ev(2)] ev(3,4) by simp_all
    from tp(1) have 1: "(t, p) \<in> set ?act" unfolding eq .
    from tp(2) have 2: "wash_evidence_for fe cfg (ctx_enrichment c) t p (the_agg ss) = Some ev" unfolding eq ss .
    from 1 2 ev show ?R by blast
  next
    assume ?R
    then obtain ev d where ev: "(t, p) \<in> set ?act" "wash_evidence_for fe cfg (ctx_enrichment c) t p (the_agg ss) = Some ev"
      "ev_detail ev = Some d" "wd_trader d = t" "wd_pool d = p" "wd_net_bps d = b" by blast
    from ev(1,2) have "ev \<in> set (wash_detect fe cfg c st)" unfolding wash_detect_member ss[symmetric] by blast
    with ev show ?L by blast
  qed
  also have "\<dots> \<longleftrightarrow> (t, p) \<in> set ?act \<and> churned fe cfg ss b"
  proof (rule conj_cong[OF refl])
    assume "(t, p) \<in> set ?act"
    then have "ss \<noteq> []" using active_pairs_window ss by blast
    from wash_evidence_for_iff[OF assms(4) this, of fe cfg "ctx_enrichment c" t p t p b]
    show "(\<exists>ev d. wash_evidence_for fe cfg (ctx_enrichment c) t p (the_agg ss) = Some ev \<and> ev_detail ev = Some d \<and>
      wd_trader d = t \<and> wd_pool d = p \<and> wd_net_bps d = b) \<longleftrightarrow> churned fe cfg ss b" by simp
  qed
  finally show ?thesis using act by simp
qed


lemma wash_confidence_ok: "conf_ok (wash_confidence_for n m b)"
  unfolding wash_confidence_for_def Let_def by (rule conf_ok_new_nonneg) (auto intro!: score_intros)

lemma wash_evidence_shape:
  "wash_evidence_for fe cfg e t p g = Some ev \<Longrightarrow>
     ev_txs ev = ag_txs g \<and> conf_ok (ev_confidence ev) \<and> (case ev_impact_usd ev of None \<Rightarrow> True | Some i \<Rightarrow> usd_ok i)"
  by (auto simp: wash_evidence_for_def Let_def wash_confidence_ok split: if_splits option.splits)

lemma the_agg_txs: "set (ag_txs (the_agg ss)) = ws_tx ` set ss"
  using agg_fold_totals[of ss "agg_new (canonical_pair (ws_token_in (hd ss)) (ws_token_out (hd ss)))", folded the_agg_def]
  by (simp add: agg_new_def Let_def)

definition wash_below :: "nat \<Rightarrow> wash_state \<Rightarrow> bool" where
  "wash_below n st \<longleftrightarrow> (\<forall>b\<in>set st. ba_number b < n)"

lemma wash_active_current:
  assumes "wash_below (br_number (ctx_block ctx)) st" "k \<in> set (active_pairs (br_number (ctx_block ctx)) (wash_observe cfg ctx st))"
  shows "\<exists>s\<in>set (wash_swaps_of ctx). pair_of s = k \<and> s \<in> set (pair_swaps k (wash_observe cfg ctx st))"
proof -
  from assms(2) obtain b s where b: "b \<in> set (wash_observe cfg ctx st)" "ba_number b = br_number (ctx_block ctx)"
    "s \<in> set (ba_swaps b)" "pair_of s = k" by (auto simp: active_pairs_def)
  then have "b \<in> set st \<or> b = activity_of ctx" unfolding wash_observe_act by (auto dest: set_dropWhileD)
  with assms(1) b(2) have "b = activity_of ctx" by (auto simp: wash_below_def)
  moreover have "s \<in> set (pair_swaps k (wash_observe cfg ctx st))" using b by (auto simp: pair_swaps_def window_swaps_def)
  ultimately show ?thesis using b by (auto simp: activity_of_def)
qed

interpretation wash: cross_block_detector wash_init_state "wash_observe cfg" "wash_detect fe cfg" wash_below
proof
  fix n show "wash_below n wash_init_state" by (simp add: wash_below_def wash_init_state_def)
next
  fix ctx :: detection_ctx and st n
  assume "wash_below (br_number (ctx_block ctx)) st" "br_number (ctx_block ctx) < n"
  then show "wash_below n (wash_observe cfg ctx st)"
    unfolding wash_observe_act wash_below_def
    by (auto simp: activity_of_def dest!: set_dropWhileD) (meson less_trans)
next
  fix ctx :: detection_ctx and st ev
  assume wf: "en_wf (ctx_enrichment ctx)" and low: "wash_below (br_number (ctx_block ctx)) st"
    and ev: "ev \<in> set (wash_detect fe cfg ctx (wash_observe cfg ctx st))"
  then obtain t p where tp: "(t, p) \<in> set (active_pairs (br_number (ctx_block ctx)) (wash_observe cfg ctx st))"
    "wash_evidence_for fe cfg (ctx_enrichment ctx) t p (the_agg (pair_swaps (t, p) (wash_observe cfg ctx st))) = Some ev"
    unfolding wash_detect_member by blast
  obtain s where s: "s \<in> set (wash_swaps_of ctx)" "s \<in> set (pair_swaps (t, p) (wash_observe cfg ctx st))"
    using wash_active_current[OF low tp(1)] by blast
  then have "ws_tx s \<in> set (ev_txs ev)" using wash_evidence_shape[OF tp(2)] by (simp add: the_agg_txs)
  moreover have "tx_known ctx (ws_tx s)"
    using s(1) block_actions_known[OF wf] by (auto simp: wash_swaps_of_def)
  ultimately show "cross_evidence_ok ctx ev"
    using wash_evidence_shape[OF tp(2)] by (auto simp: cross_evidence_ok_def)
qed

section \<open>Pools with more than two tokens\<close>

definition ex_wash_swap :: "address \<Rightarrow> address \<Rightarrow> swap" where
  "ex_wash_swap i out = \<lparr>sw_pool = 9, token_in = i, token_out = out, amount_in = 100, amount_out = 100\<rparr>"

definition ex_wash_ctx :: "swap list \<Rightarrow> detection_ctx" where
  "ex_wash_ctx ss = \<lparr>ctx_chain = 1, ctx_block = \<lparr>br_number = 5, br_hash = 50\<rparr>, ctx_txs = [7],
     ctx_enrichment = add_tx ((tx_actions_new 7 3 None)\<lparr>ta_swaps := ss\<rparr>) en_default\<rparr>"

lemma ex_wash_swaps: "wash_swaps_of (ex_wash_ctx ss) = map (\<lambda>s. \<lparr>ws_tx = 7, ws_trader = 3, ws_pool = sw_pool s,
    ws_token_in = token_in s, ws_token_out = token_out s, ws_amount_in = amount_in s, ws_amount_out = amount_out s\<rparr>) ss"
  by (simp add: wash_swaps_of_def block_actions_def map_filter_def ex_wash_ctx_def add_tx_def en_default_def en_tx_def
      tx_actions_new_def)

lemma ex_zero_bps: "bps_from_ratio_u256 exact_env 0 400 = Some 0"
proof -
  have "f_of_nat 400 = Fin 400" "f_of_nat 0 = Fin 0" "f_of_nat 4294967295 = Fin 4294967295" "round_f64 0 = Fin 0"
    using f_of_nat_int[of 400] f_of_nat_int[of 4294967295] by (simp_all add: f_of_nat_def round_f64_def)
  then show ?thesis by (simp add: bps_from_ratio_u256_def exact_env_def Let_def f_min_def)
qed

definition ex_churn :: "address \<Rightarrow> address \<Rightarrow> detection_ctx" where
  "ex_churn i out = ex_wash_ctx [ex_wash_swap 11 10, ex_wash_swap 11 10, ex_wash_swap i out, ex_wash_swap i out]"

lemma ex_churned:
  assumes "out \<noteq> 10"
  shows "churned exact_env wash_default_config (wash_swaps_of (ex_churn i out)) 0"
  using assms ex_zero_bps
  by (simp add: churned_def Let_def ex_churn_def ex_wash_swaps ex_wash_swap_def wash_reference_def canonical_pair_def
      bought_def sold_def wash_default_config_def word_le_nat_alt)

lemma ex_churn_recent:
  "filter (\<lambda>s. pair_of s = (3, 9)) (recent_swaps wash_default_config [] (ex_churn i out)) = wash_swaps_of (ex_churn i out)"
  by (simp add: recent_swaps_def ex_churn_def ex_wash_swaps pair_of_def ex_wash_swap_def wash_default_config_def) (simp add: ex_wash_ctx_def)

lemma ex_churn_fits: "out \<noteq> 10 \<Longrightarrow> wash_fits (wash_swaps_of (ex_churn i out))"
  by (simp add: wash_fits_def ex_churn_def ex_wash_swaps ex_wash_swap_def wash_reference_def canonical_pair_def
      bought_def sold_def u256_max_def word_le_nat_alt)

lemma ex_churn_active: "br_number (ctx_block (ex_churn i out)) - unat (wc_window_blocks wash_default_config) < br_number (ctx_block (ex_churn i out))"
  "\<exists>s\<in>set (wash_swaps_of (ex_churn i out)). pair_of s = (3, 9)"
  by (simp_all add: ex_churn_def ex_wash_swaps pair_of_def ex_wash_swap_def wash_default_config_def) (simp add: ex_wash_ctx_def)

text \<open>
  A swap that does not touch the reference token counts as a sale of it. In a pool of four tokens, a
  trader who buys token 10 twice and then exchanges 12 for 13 twice is reported as round-tripping token
  10 with a net position of zero, although no swap ever spends it: \<open>Agg::fold\<close> takes every swap that does
  not return the reference token for one that disposes of it.
\<close>

theorem wash_foreign_swap_is_a_sale:
  "10 \<notin> ws_token_in ` set (wash_swaps_of (ex_churn 12 13)) \<and>
   (\<exists>ev\<in>set (wash_detect exact_env wash_default_config (ex_churn 12 13)
       (wash_observe wash_default_config (ex_churn 12 13) wash_init_state)).
     \<exists>d. ev_detail ev = Some d \<and> wd_trader d = 3 \<and> wd_pool d = 9 \<and> wd_net_bps d = 0)"
proof
  show "10 \<notin> ws_token_in ` set (wash_swaps_of (ex_churn 12 13))"
    by (simp add: ex_churn_def ex_wash_swaps ex_wash_swap_def)
next
  show "\<exists>ev\<in>set (wash_detect exact_env wash_default_config (ex_churn 12 13)
       (wash_observe wash_default_config (ex_churn 12 13) wash_init_state)).
     \<exists>d. ev_detail ev = Some d \<and> wd_trader d = 3 \<and> wd_pool d = 9 \<and> wd_net_bps d = 0"
    by (subst wash_detect_iff[where cs = "[]", OF _ _ ex_churn_recent[symmetric]])
       (use ex_churn_active ex_churn_fits ex_churned in auto)
qed

section \<open>Witness\<close>


end
