(* ===== verification/Detection_Reorg.thy ===== *)
theory Detection_Reorg
  imports Emit Cross_Block_State Wash_Trading_Detector
begin

text \<open>
  The cross-block half of the detection service (\<open>crates/detection/src/reorg.rs\<close>): the slot that
  reunites a cross-block detector with its snapshot stack, and the roster \<open>CrossBlockStates\<close> that runs
  all slots over each canonical block and rewinds them together on a reorg.

  A \<open>CrossBlockDetector\<close> is the record of its methods. The sources erase the state type of a slot
  behind a trait object; the slots of a roster share one state type here, which for several
  detectors is the sum of theirs. The \<open>expect\<close> in \<open>observe_and_detect\<close> is the value \<open>None\<close>.
\<close>

section \<open>Slots\<close>

record ('s, 'd) cross_detector =
  cd_id :: detector_id
  cd_version :: sem_ver
  cd_window_blocks :: u32
  cd_init_state :: 's
  cd_observe :: "detection_ctx \<Rightarrow> 's \<Rightarrow> 's"
  cd_detect :: "detection_ctx \<Rightarrow> 's \<Rightarrow> 'd evidence list"

record ('s, 'd) slot =
  sl_detector :: "('s, 'd) cross_detector"
  sl_detector_ref :: detector_ref
  sl_status :: lifecycle_status
  sl_state :: "'s cross_block_state"

definition slot_revert_tip :: "block_ref \<Rightarrow> ('s, 'd) slot \<Rightarrow> bool \<times> ('s, 'd) slot" where
  "slot_revert_tip b sl = (let (hit, st) = revert_tip b (sl_state sl) in (hit, sl\<lparr>sl_state := st\<rparr>))"

definition slot_rewind_to :: "nat \<Rightarrow> ('s, 'd) slot \<Rightarrow> ('s, 'd) slot" where
  "slot_rewind_to a sl = sl\<lparr>sl_state := rewind_to a (sl_state sl)\<rparr>"

fun slot_emit ::
  "float_env \<Rightarrow> (nat \<Rightarrow> uuid) \<Rightarrow> nat \<Rightarrow> ('s, 'd) slot \<Rightarrow> detection_ctx \<Rightarrow> 'd evidence list \<Rightarrow> 'd domain_event list \<times> nat" where
  "slot_emit fe ids n sl ctx [] = ([], n)"
| "slot_emit fe ids n sl ctx (ev # evs) =
     (let (es, n') = evidence_events fe ids n (sl_detector_ref sl) (sl_status sl) (ctx_block ctx) (ctx_enrichment ctx) ev;
          (es', n'') = slot_emit fe ids n' sl ctx evs
      in (es @ es', n''))"

definition slot_fold :: "detection_ctx \<Rightarrow> ('s, 'd) slot \<Rightarrow> ('s, 'd) slot" where
  "slot_fold ctx sl =
     (let d = sl_detector sl;
          tip_state = (case current (sl_state sl) of Some s \<Rightarrow> s | None \<Rightarrow> cd_init_state d)
      in sl\<lparr>sl_state := apply_block (ctx_block ctx) (cd_observe d ctx tip_state) (sl_state sl)\<rparr>)"

definition slot_observe_and_detect ::
  "float_env \<Rightarrow> (nat \<Rightarrow> uuid) \<Rightarrow> nat \<Rightarrow> detection_ctx \<Rightarrow> ('s, 'd) slot \<Rightarrow> (('d domain_event list \<times> nat) \<times> ('s, 'd) slot) option" where
  "slot_observe_and_detect fe ids n ctx sl =
     (let sl' = slot_fold ctx sl
      in case current (sl_state sl') of
          None \<Rightarrow> None
        | Some snapshot \<Rightarrow> Some (slot_emit fe ids n sl' ctx (cd_detect (sl_detector sl') ctx snapshot), sl'))"

section \<open>The roster\<close>

type_synonym ('s, 'd) cross_block_states = "(detector_key \<times> ('s, 'd) slot) list"

record roster_rewind =
  rr_rewound :: nat
  rr_popped :: nat

definition roster_insert_detector ::
  "detector_ref \<Rightarrow> lifecycle_status \<Rightarrow> ('s, 'd) cross_detector \<Rightarrow> ('s, 'd) cross_block_states \<Rightarrow> ('s, 'd) cross_block_states" where
  "roster_insert_detector r status d ros =
     bm_update (cd_id d, cd_version d)
       (\<lambda>_. \<lparr>sl_detector = d, sl_detector_ref = r, sl_status = status, sl_state = cbs_new (cd_window_blocks d)\<rparr>) ros"

definition roster_len :: "('s, 'd) cross_block_states \<Rightarrow> nat" where
  "roster_len ros = length ros"

definition roster_ids :: "('s, 'd) cross_block_states \<Rightarrow> detector_id list" where
  "roster_ids ros = map (\<lambda>(k, _). fst k) ros"

definition roster_detector_refs :: "('s, 'd) cross_block_states \<Rightarrow> detector_ref list" where
  "roster_detector_refs ros = map (\<lambda>(_, sl). sl_detector_ref sl) ros"

definition roster_contains :: "detector_key \<Rightarrow> ('s, 'd) cross_block_states \<Rightarrow> bool" where
  "roster_contains k ros = hm_contains ros k"

fun roster_observe_from ::
  "float_env \<Rightarrow> (nat \<Rightarrow> uuid) \<Rightarrow> nat \<Rightarrow> detection_ctx \<Rightarrow> ('s, 'd) cross_block_states \<Rightarrow>
    ('d domain_event list \<times> ('s, 'd) cross_block_states) option" where
  "roster_observe_from fe ids n ctx [] = Some ([], [])"
| "roster_observe_from fe ids n ctx ((k, sl) # ros) =
     do {
       ((es, n'), sl') \<leftarrow> slot_observe_and_detect fe ids n ctx sl;
       (es', ros') \<leftarrow> roster_observe_from fe ids n' ctx ros;
       Some (es @ es', (k, sl') # ros')
     }"

definition roster_observe_and_detect ::
  "float_env \<Rightarrow> (nat \<Rightarrow> uuid) \<Rightarrow> detection_ctx \<Rightarrow> ('s, 'd) cross_block_states \<Rightarrow>
    ('d domain_event list \<times> ('s, 'd) cross_block_states) option" where
  "roster_observe_and_detect fe ids ctx ros = roster_observe_from fe ids 0 ctx ros"

fun roster_replay_from ::
  "roster_rewind \<Rightarrow> block_reverted list \<Rightarrow> ('s, 'd) cross_block_states \<Rightarrow> roster_rewind \<times> ('s, 'd) cross_block_states" where
  "roster_replay_from out es [] = (out, [])"
| "roster_replay_from out es ((k, sl) # ros) =
     (let (rewind, sl') = replay slot_revert_tip es sl;
          out1 = (if rewind_changed rewind then out\<lparr>rr_rewound := rr_rewound out + 1\<rparr> else out);
          out2 = out1\<lparr>rr_popped := rr_popped out1 + popped rewind\<rparr>;
          (out', ros') = roster_replay_from out2 es ros
      in (out', (k, sl') # ros'))"

definition roster_apply_reverts ::
  "block_reverted list \<Rightarrow> ('s, 'd) cross_block_states \<Rightarrow> roster_rewind \<times> ('s, 'd) cross_block_states" where
  "roster_apply_reverts es ros = roster_replay_from \<lparr>rr_rewound = 0, rr_popped = 0\<rparr> es ros"

definition roster_changed :: "roster_rewind \<Rightarrow> bool" where
  "roster_changed r \<longleftrightarrow> 0 < rr_rewound r"

section \<open>A slot is rewindable\<close>

interpretation slot: rewindable slot_revert_tip slot_rewind_to "\<lambda>sl. versions (sl_state sl)" ver_block
proof unfold_locales
  fix r :: "('a, 'b) slot" and vs v
  assume "versions (sl_state r) = vs @ [v]"
  from stack.revert_hit[OF this] show "\<exists>r'. slot_revert_tip (ver_block v) r = (True, r') \<and> versions (sl_state r') = vs"
    by (auto simp: slot_revert_tip_def)
next
  fix r :: "('a, 'b) slot" and b
  assume "versions (sl_state r) = [] \<or> ver_block (last (versions (sl_state r))) \<noteq> b"
  from stack.revert_miss[OF this] show "slot_revert_tip b r = (False, r)"
    by (simp add: slot_revert_tip_def)
next
  fix a and r :: "('a, 'b) slot"
  show "versions (sl_state (slot_rewind_to a r)) =
    rev (dropWhile (\<lambda>v. a < br_number (ver_block v)) (rev (versions (sl_state r))))"
    by (simp add: slot_rewind_to_def versions_rewind)
qed
section \<open>A slot tracks the canonical chain\<close>

text \<open>The snapshots a chain of blocks produces: one per block, of everything observed so far.\<close>

fun snapshots :: "(detection_ctx \<Rightarrow> 's \<Rightarrow> 's) \<Rightarrow> 's \<Rightarrow> detection_ctx list \<Rightarrow> 's version list" where
  "snapshots f s [] = []"
| "snapshots f s (c # cs) = \<lparr>ver_block = ctx_block c, ver_state = f c s\<rparr> # snapshots f (f c s) cs"

lemma snapshots_append: "snapshots f s (cs @ os) = snapshots f s cs @ snapshots f (fold f cs s) os"
  by (induction cs arbitrary: s) auto

lemma ver_block_snapshots: "map ver_block (snapshots f s cs) = map ctx_block cs"
  by (induction cs arbitrary: s) auto

lemma length_snapshots [simp]: "length (snapshots f s cs) = length cs"
  by (induction cs arbitrary: s) auto

definition slot_snapshots :: "('s, 'd) slot \<Rightarrow> detection_ctx list \<Rightarrow> 's version list" where
  "slot_snapshots sl cs = snapshots (cd_observe (sl_detector sl)) (cd_init_state (sl_detector sl)) cs"

definition tracks :: "detection_ctx list \<Rightarrow> ('s, 'd) slot \<Rightarrow> bool" where
  "tracks cs sl \<longleftrightarrow> (\<exists>us. slot_snapshots sl cs = us @ versions (sl_state sl)) \<and> (versions (sl_state sl) = [] \<longrightarrow> cs = [])"

definition chain_state :: "('s, 'd) cross_detector \<Rightarrow> detection_ctx list \<Rightarrow> 's option" where
  "chain_state d cs = (if cs = [] then None else Some (fold (cd_observe d) cs (cd_init_state d)))"

definition chain_tip :: "detection_ctx list \<Rightarrow> block_ref option" where
  "chain_tip cs = (if cs = [] then None else Some (ctx_block (last cs)))"

lemma last_snapshots: "cs \<noteq> [] \<Longrightarrow> last (snapshots f s cs) = \<lparr>ver_block = ctx_block (last cs), ver_state = fold f cs s\<rparr>"
proof -
  assume "cs \<noteq> []"
  then obtain ds d where "cs = ds @ [d]" by (metis append_butlast_last_id)
  then show ?thesis by (simp add: snapshots_append)
qed

lemma tracks_current:
  assumes "tracks cs sl"
  shows "current (sl_state sl) = chain_state (sl_detector sl) cs" "tip (sl_state sl) = chain_tip cs"
proof -
  obtain us where us: "slot_snapshots sl cs = us @ versions (sl_state sl)" "versions (sl_state sl) = [] \<longrightarrow> cs = []"
    using assms by (auto simp: tracks_def)
  have "current (sl_state sl) = chain_state (sl_detector sl) cs \<and> tip (sl_state sl) = chain_tip cs"
  proof (cases "versions (sl_state sl) = []")
    case False
    then have ne: "cs \<noteq> []" using us by (cases cs) (auto simp: slot_snapshots_def)
    have "last (versions (sl_state sl)) = last (slot_snapshots sl cs)" using us False by simp
    with False ne show ?thesis
      by (simp add: current_def tip_def chain_state_def chain_tip_def slot_snapshots_def last_snapshots)
  qed (use us in \<open>simp add: current_def tip_def chain_state_def chain_tip_def\<close>)
  then show "current (sl_state sl) = chain_state (sl_detector sl) cs" "tip (sl_state sl) = chain_tip cs" by simp_all
qed

lemma slot_fold_sel [simp]:
  "sl_detector (slot_fold c sl) = sl_detector sl" "sl_detector_ref (slot_fold c sl) = sl_detector_ref sl"
  "sl_status (slot_fold c sl) = sl_status sl"
  by (simp_all add: slot_fold_def Let_def)

lemma push_suffix: "\<exists>us. versions st @ [\<lparr>ver_block = b, ver_state = s\<rparr>] = us @ versions (cbs_push b s st) \<and> versions (cbs_push b s st) \<noteq> []"
  using pop_front_to_suffix[of "versions st @ [\<lparr>ver_block = b, ver_state = s\<rparr>]"]
    pop_front_to_nonempty[of "versions st @ [\<lparr>ver_block = b, ver_state = s\<rparr>]"]
  by (auto simp: cbs_push_def prune_to_window_def tip_def)

lemma tracks_fold:
  assumes "tracks cs sl" "\<forall>t. chain_tip cs = Some t \<longrightarrow> br_number t < br_number (ctx_block c)"
  shows "tracks (cs @ [c]) (slot_fold c sl)"
proof -
  let ?d = "sl_detector sl"
  let ?s = "cd_observe ?d c (fold (cd_observe ?d) cs (cd_init_state ?d))"
  have "(case current (sl_state sl) of Some s \<Rightarrow> s | None \<Rightarrow> cd_init_state ?d) = fold (cd_observe ?d) cs (cd_init_state ?d)"
    using tracks_current(1)[OF assms(1)] by (simp add: chain_state_def)
  then have st: "sl_state (slot_fold c sl) = cbs_push (ctx_block c) ?s (sl_state sl)"
    using tracks_current(2)[OF assms(1)] assms(2) by (auto simp: slot_fold_def Let_def apply_block_def split: option.splits)
  obtain us where us: "slot_snapshots sl cs = us @ versions (sl_state sl)" using assms(1) by (auto simp: tracks_def)
  obtain ws where ws: "versions (sl_state sl) @ [\<lparr>ver_block = ctx_block c, ver_state = ?s\<rparr>] = ws @ versions (sl_state (slot_fold c sl))"
    "versions (sl_state (slot_fold c sl)) \<noteq> []"
    using push_suffix[of "sl_state sl" "ctx_block c" ?s] st by auto
  have "slot_snapshots (slot_fold c sl) (cs @ [c]) = (us @ ws) @ versions (sl_state (slot_fold c sl))"
    using us ws(1) by (simp add: slot_snapshots_def snapshots_append)
  with ws(2) show ?thesis by (auto simp: tracks_def)
qed

definition ancestor_held :: "detection_ctx list \<Rightarrow> detection_ctx list \<Rightarrow> ('s, 'd) slot \<Rightarrow> bool" where
  "ancestor_held cs os sl \<longleftrightarrow> length os < cbs_len (sl_state sl) \<or> cs = [] \<and> length os = cbs_len (sl_state sl)"

lemma slot_replay_keeps:
  assumes "replay slot_revert_tip es sl = (out, sl')"
  shows "sl_detector sl' = sl_detector sl" "sl_detector_ref sl' = sl_detector_ref sl" "sl_status sl' = sl_status sl"
proof -
  let ?Q = "\<lambda>r. sl_detector r = sl_detector sl \<and> sl_detector_ref r = sl_detector_ref sl \<and> sl_status r = sl_status sl"
  have "?Q (snd (replay_from slot_revert_tip \<lparr>popped = 0, ignored = 0\<rparr> es sl))"
    by (rule replay_from_keeps[where Q = ?Q]) (auto simp: slot_revert_tip_def case_prod_beta Let_def)
  with assms show "sl_detector sl' = sl_detector sl" "sl_detector_ref sl' = sl_detector_ref sl" "sl_status sl' = sl_status sl"
    by (simp_all add: replay_def)
qed

lemma tracks_replay:
  assumes "tracks (cs @ os) sl" "ancestor_held cs os sl" "map rv_block es = rev (map ctx_block os)"
  shows "\<exists>sl'. replay slot_revert_tip es sl = (\<lparr>popped = length os, ignored = 0\<rparr>, sl') \<and> tracks cs sl'"
proof -
  let ?f = "cd_observe (sl_detector sl)" and ?i = "cd_init_state (sl_detector sl)"
  let ?os = "snapshots ?f (fold ?f cs ?i) os"
  obtain us where us: "snapshots ?f ?i cs @ ?os = us @ versions (sl_state sl)"
    using assms(1) by (auto simp: tracks_def slot_snapshots_def snapshots_append)
  have len: "length os \<le> length (versions (sl_state sl))" using assms(2) by (auto simp: ancestor_held_def cbs_len_def)
  obtain keep where keep: "versions (sl_state sl) = keep @ ?os" "snapshots ?f ?i cs = us @ keep"
  proof
    let ?n = "length us"
    have "length us \<le> length (snapshots ?f ?i cs)" using arg_cong[OF us, of length] len by simp
    with us show "versions (sl_state sl) = drop ?n (snapshots ?f ?i cs) @ ?os" "snapshots ?f ?i cs = us @ drop ?n (snapshots ?f ?i cs)"
      by (auto simp: append_eq_append_conv_if split: if_splits) (metis append_take_drop_id)+
  qed
  have ne: "keep = [] \<longrightarrow> cs = []"
    using assms(2) keep(1) by (auto simp: ancestor_held_def cbs_len_def)
  have "map rv_block es = map ver_block (rev ?os)"
    unfolding rev_map[symmetric] ver_block_snapshots by (rule assms(3))
  with keep(1) obtain sl' where sl': "replay slot_revert_tip es sl = (\<lparr>popped = length es, ignored = 0\<rparr>, sl')" "versions (sl_state sl') = keep"
    using slot.replay_orphans[of sl keep "rev ?os" es] by auto
  moreover have "length es = length os" using arg_cong[OF assms(3), of length] by simp
  moreover have "slot_snapshots sl' cs = us @ versions (sl_state sl')"
    using keep(2) sl'(2) slot_replay_keeps[OF sl'(1)] by (simp add: slot_snapshots_def)
  ultimately show ?thesis using ne by (auto simp: tracks_def)
qed
section \<open>The roster tracks the canonical chain\<close>

lemma slot_observe_and_detect_Some:
  fixes sl :: "('s, 'd) slot"
  shows "\<exists>s. current (sl_state (slot_fold c sl)) = Some s \<and>
     slot_observe_and_detect fe ids n c sl = Some (slot_emit fe ids n (slot_fold c sl) c (cd_detect (sl_detector sl) c s), slot_fold c sl)"
proof -
  have push: "versions (cbs_push b s st) \<noteq> []" for b s and st :: "'s cross_block_state"
    using push_suffix[of st b s] by blast
  have "versions (sl_state (slot_fold c sl)) \<noteq> []"
    by (auto simp: slot_fold_def Let_def apply_block_def tip_def push split: option.splits)
  then show ?thesis by (auto simp: slot_observe_and_detect_def Let_def current_def)
qed

lemma slot_emit_cong:
  "sl_detector_ref sl = sl_detector_ref sl' \<Longrightarrow> sl_status sl = sl_status sl' \<Longrightarrow> slot_emit fe ids n sl c evs = slot_emit fe ids n sl' c evs"
  by (induction evs arbitrary: n) auto

lemma roster_observe_from_slots:
  "\<exists>es. roster_observe_from fe ids n c ros = Some (es, map (\<lambda>(k, sl). (k, slot_fold c sl)) ros)"
proof (induction ros arbitrary: n)
  case (Cons e ros)
  obtain k sl where e: "e = (k, sl)" by (cases e)
  obtain s where s: "slot_observe_and_detect fe ids n c sl =
      Some (slot_emit fe ids n (slot_fold c sl) c (cd_detect (sl_detector sl) c s), slot_fold c sl)"
    using slot_observe_and_detect_Some[of c sl fe ids n] by blast
  obtain es n' where em: "slot_emit fe ids n (slot_fold c sl) c (cd_detect (sl_detector sl) c s) = (es, n')" by fastforce
  from Cons.IH[of n'] obtain es' where "roster_observe_from fe ids n' c ros = Some (es', map (\<lambda>(k, sl). (k, slot_fold c sl)) ros)" by blast
  with s em e show ?case by simp
qed simp

lemma roster_replay_from_slots:
  "roster_replay_from out es ros =
     (\<lparr>rr_rewound = rr_rewound out + length (filter (\<lambda>(k, sl). 0 < popped (fst (replay slot_revert_tip es sl))) ros),
       rr_popped = rr_popped out + sum_list (map (\<lambda>(k, sl). popped (fst (replay slot_revert_tip es sl))) ros)\<rparr>,
      map (\<lambda>(k, sl). (k, snd (replay slot_revert_tip es sl))) ros)"
  by (induction ros arbitrary: out) (auto simp: case_prod_beta Let_def rewind_changed_def)

definition roster_init :: "(detector_ref \<times> lifecycle_status \<times> ('s, 'd) cross_detector) list \<Rightarrow> ('s, 'd) cross_block_states" where
  "roster_init ds = fold (\<lambda>(r, status, d). roster_insert_detector r status d) ds []"

text \<open>
  The life of a roster: blocks of the canonical chain are observed in ascending order, and a reorg
  reverts the newest blocks, tip-first. The first argument is the canonical chain as it now stands.
\<close>

inductive roster_run ::
  "(detector_ref \<times> lifecycle_status \<times> ('s, 'd) cross_detector) list \<Rightarrow> detection_ctx list \<Rightarrow> ('s, 'd) cross_block_states \<Rightarrow> bool"
  for ds where
  started: "roster_run ds [] (roster_init ds)"
| observed: "roster_run ds cs ros \<Longrightarrow> \<forall>t. chain_tip cs = Some t \<longrightarrow> br_number t < br_number (ctx_block c) \<Longrightarrow>
    roster_observe_and_detect fe ids c ros = Some (es, ros') \<Longrightarrow> roster_run ds (cs @ [c]) ros'"
| reorged: "roster_run ds (cs @ os) ros \<Longrightarrow> \<forall>e\<in>set ros. ancestor_held cs os (snd e) \<Longrightarrow>
    map rv_block es = rev (map ctx_block os) \<Longrightarrow> roster_apply_reverts es ros = (out, ros') \<Longrightarrow> roster_run ds cs ros'"

definition same_slot :: "('s, 'd) slot \<Rightarrow> ('s, 'd) slot \<Rightarrow> bool" where
  "same_slot a b \<longleftrightarrow> sl_detector a = sl_detector b \<and> sl_detector_ref a = sl_detector_ref b \<and> sl_status a = sl_status b"

definition in_step :: "detection_ctx list \<Rightarrow> detector_key \<times> ('s, 'd) slot \<Rightarrow> detector_key \<times> ('s, 'd) slot \<Rightarrow> bool" where
  "in_step cs a b \<longleftrightarrow> fst a = fst b \<and> same_slot (snd a) (snd b) \<and> tracks cs (snd b)"

lemma bm_update_set: "(k', v) \<in> set (bm_update k f m) \<Longrightarrow> (k', v) \<in> set m \<or> (\<exists>w. v = f w)"
  by (induction k f m rule: bm_update.induct) (auto split: if_splits)

lemma roster_init_fresh: "(k, sl) \<in> set (roster_init ds) \<Longrightarrow> versions (sl_state sl) = []"
proof -
  have "(\<forall>(k, sl)\<in>set m. versions (sl_state sl) = []) \<Longrightarrow>
      \<forall>(k, sl)\<in>set (fold (\<lambda>(r, status, d). roster_insert_detector r status d) ds m). versions (sl_state sl) = []" for m
  proof (induction ds arbitrary: m)
    case (Cons x ds)
    obtain r s d where x: "x = (r, s, d)" by (cases x)
    have "\<forall>(k, sl)\<in>set (roster_insert_detector r s d m). versions (sl_state sl) = []"
      using Cons.prems by (auto simp: roster_insert_detector_def cbs_new_def dest!: bm_update_set)
    from Cons.IH[OF this] show ?case by (simp add: x)
  qed simp
  from this[of "[]"] show "(k, sl) \<in> set (roster_init ds) \<Longrightarrow> versions (sl_state sl) = []"
    by (auto simp: roster_init_def)
qed

lemma roster_run_in_step: "roster_run ds cs ros \<Longrightarrow> list_all2 (in_step cs) (roster_init ds) ros"
proof (induction rule: roster_run.induct)
  case started
  have "in_step [] e e" if "e \<in> set (roster_init ds)" for e
    using roster_init_fresh[of "fst e" "snd e"] that by (simp add: in_step_def same_slot_def tracks_def slot_snapshots_def)
  then show ?case by (simp add: list_all2_same)
next
  case (observed cs ros c fe ids es ros')
  then have ros': "ros' = map (\<lambda>(k, sl). (k, slot_fold c sl)) ros"
    using roster_observe_from_slots[of fe ids 0 c ros] by (auto simp: roster_observe_and_detect_def)
  have "in_step (cs @ [c]) a (case b of (k, sl) \<Rightarrow> (k, slot_fold c sl))" if "in_step cs a b" for a b
    using that tracks_fold[OF _ observed.hyps(2)] by (auto simp: in_step_def same_slot_def split: prod.splits)
  with observed.IH show ?case unfolding ros' list_all2_map2 by (rule list_all2_mono)
next
  case (reorged cs os ros es out ros')
  then have ros': "ros' = map (\<lambda>(k, sl). (k, snd (replay slot_revert_tip es sl))) ros"
    by (simp add: roster_apply_reverts_def roster_replay_from_slots)
  have step: "in_step cs a (case b of (k, sl) \<Rightarrow> (k, snd (replay slot_revert_tip es sl)))"
    if ab: "in_step (cs @ os) a b" "b \<in> set ros" for a b
  proof -
    have held: "ancestor_held cs os (snd b)" using reorged.hyps(2) ab(2) by blast
    obtain sl' where sl': "replay slot_revert_tip es (snd b) = (\<lparr>popped = length os, ignored = 0\<rparr>, sl')" "tracks cs sl'"
      using tracks_replay[OF _ held reorged.hyps(3)] ab(1) by (auto simp: in_step_def)
    with slot_replay_keeps[OF sl'(1)] ab(1) show ?thesis by (auto simp: in_step_def same_slot_def split: prod.splits)
  qed
  have "list_all2 (\<lambda>a b. in_step (cs @ os) a b \<and> b \<in> set ros) (roster_init ds) ros"
    using reorged.IH by (auto simp: list_all2_conv_all_nth)
  then show ?case unfolding ros' list_all2_map2 by (rule list_all2_mono) (use step in auto)
qed
lemma roster_run_slot:
  assumes "roster_run ds cs ros" "(k, sl) \<in> set ros"
  shows "tracks cs sl"
  using roster_run_in_step[OF assms(1)] assms(2) by (force simp: list_all2_conv_all_nth in_set_conv_nth in_step_def)


definition same_view :: "detector_key \<times> ('s, 'd) slot \<Rightarrow> detector_key \<times> ('s, 'd) slot \<Rightarrow> bool" where
  "same_view a b \<longleftrightarrow> fst a = fst b \<and> same_slot (snd a) (snd b) \<and>
     current (sl_state (snd a)) = current (sl_state (snd b)) \<and> tip (sl_state (snd a)) = tip (sl_state (snd b))"

lemma current_apply: "current (apply_block b s st) =
    (case tip st of Some t \<Rightarrow> if br_number b \<le> br_number t then current st else Some s | None \<Rightarrow> Some s)"
proof -
  have "current (cbs_push b s st) = Some s"
    using pop_front_to_nonempty[of "versions st @ [\<lparr>ver_block = b, ver_state = s\<rparr>]"]
    by (simp add: cbs_push_def prune_to_window_def tip_def current_def)
  then show ?thesis by (simp add: apply_block_def split: option.splits)
qed

lemma same_view_events:
  "list_all2 same_view ros ros' \<Longrightarrow>
   map_option fst (roster_observe_from fe ids n c ros) = map_option fst (roster_observe_from fe ids n c ros')"
proof (induction arbitrary: n rule: list_all2_induct)
  case (Cons a ros b ros')
  obtain k sl l sl' where ab: "a = (k, sl)" "b = (l, sl')" by (cases a; cases b)
  with Cons.hyps(1) have v: "sl_detector sl = sl_detector sl'" "sl_detector_ref sl = sl_detector_ref sl'" "sl_status sl = sl_status sl'"
    "current (sl_state sl) = current (sl_state sl')" "tip (sl_state sl) = tip (sl_state sl')"
    by (simp_all add: same_view_def same_slot_def)
  have cur: "current (sl_state (slot_fold c sl)) = current (sl_state (slot_fold c sl'))"
    using v by (simp add: slot_fold_def Let_def current_apply split: option.splits)
  obtain s where s: "current (sl_state (slot_fold c sl)) = Some s" "slot_observe_and_detect fe ids n c sl =
      Some (slot_emit fe ids n (slot_fold c sl) c (cd_detect (sl_detector sl) c s), slot_fold c sl)"
    using slot_observe_and_detect_Some[of c sl fe ids n] by blast
  have s': "slot_observe_and_detect fe ids n c sl' =
      Some (slot_emit fe ids n (slot_fold c sl) c (cd_detect (sl_detector sl) c s), slot_fold c sl')"
    using slot_observe_and_detect_Some[of c sl' fe ids n] s(1) cur v slot_emit_cong[of "slot_fold c sl" "slot_fold c sl'"] by auto
  obtain es n' where em: "slot_emit fe ids n (slot_fold c sl) c (cd_detect (sl_detector sl) c s) = (es, n')" by fastforce
  obtain x y where xy: "roster_observe_from fe ids n' c ros = Some (x, y)"
    using roster_observe_from_slots[of fe ids n' c ros] by blast
  obtain x' y' where xy': "roster_observe_from fe ids n' c ros' = Some (x', y')"
    using roster_observe_from_slots[of fe ids n' c ros'] by blast
  have "x = x'" using Cons.IH[of n'] xy xy' by simp
  then show ?case using ab s s' em xy xy' by simp
qed simp


text \<open>
  The rewind tally is exact, and redelivery is harmless. When a reorg orphans the blocks \<open>os\<close> above
  a common ancestor every slot still holds, each slot pops one snapshot per orphan and the tally says
  so; replaying the same stream a second time pops nothing and changes nothing, provided no orphan is
  a block of the remaining chain.
\<close>

theorem roster_reorg_tally:
  assumes "roster_run ds (cs @ os) ros" "\<forall>e\<in>set ros. ancestor_held cs os (snd e)"
    and "map rv_block es = rev (map ctx_block os)" "ctx_block ` set os \<inter> ctx_block ` set cs = {}"
    and "roster_apply_reverts es ros = (out, ros')"
  shows "out = \<lparr>rr_rewound = (if os = [] then 0 else roster_len ros), rr_popped = length os * roster_len ros\<rparr> \<and>
    roster_apply_reverts es ros' = (\<lparr>rr_rewound = 0, rr_popped = 0\<rparr>, ros')"
proof
  have step: "fst (replay slot_revert_tip es sl) = \<lparr>popped = length os, ignored = 0\<rparr>" if "(k, sl) \<in> set ros" for k sl
    using tracks_replay[OF roster_run_slot[OF assms(1) that] _ assms(3)] assms(2) that by fastforce
  have "filter (\<lambda>(k, sl). 0 < popped (fst (replay slot_revert_tip es sl))) ros = (if os = [] then [] else ros)"
    using step by (auto simp: filter_empty_conv filter_id_conv)
  moreover have "sum_list (map (\<lambda>(k, sl). popped (fst (replay slot_revert_tip es sl))) ros) = sum_list (map (\<lambda>_. length os) ros)"
    using step by (intro arg_cong[where f = sum_list] map_cong) auto
  then have "sum_list (map (\<lambda>(k, sl). popped (fst (replay slot_revert_tip es sl))) ros) = length os * length ros"
    by (simp add: sum_list_triv)
  ultimately show "out = \<lparr>rr_rewound = (if os = [] then 0 else roster_len ros), rr_popped = length os * roster_len ros\<rparr>"
    using assms(5) by (simp add: roster_apply_reverts_def roster_replay_from_slots roster_len_def split: if_splits)
next
  have run: "roster_run ds cs ros'" using roster_run.reorged[OF assms(1,2,3,5)] .
  have stale: "replay slot_revert_tip es sl = (\<lparr>popped = 0, ignored = length es\<rparr>, sl)" if kin: "(k, sl) \<in> set ros'" for k sl
  proof (rule slot.replay_stale, rule ballI)
    fix e assume "e \<in> set es"
    then have "rv_block e \<in> set (rev (map ctx_block os))" unfolding assms(3)[symmetric] by simp
    moreover have "ver_block ` set (versions (sl_state sl)) \<subseteq> ctx_block ` set cs"
    proof -
      obtain us where us: "slot_snapshots sl cs = us @ versions (sl_state sl)"
        using roster_run_slot[OF run kin] by (auto simp: tracks_def)
      have "ver_block ` set (slot_snapshots sl cs) = ctx_block ` set cs"
        using ver_block_snapshots unfolding slot_snapshots_def by (metis list.set_map)
      then show ?thesis using us by auto
    qed
    ultimately show "rv_block e \<notin> ver_block ` set (versions (sl_state sl))" using assms(4) by auto
  qed
  have "map (\<lambda>(k, sl). (k, snd (replay slot_revert_tip es sl))) ros' = ros'"
    using stale by (intro map_idI) auto
  moreover have "filter (\<lambda>(k, sl). 0 < popped (fst (replay slot_revert_tip es sl))) ros' = []"
    "map (\<lambda>(k, sl). popped (fst (replay slot_revert_tip es sl))) ros' = map (\<lambda>_. 0) ros'"
    using stale by (auto simp: filter_empty_conv)
  ultimately show "roster_apply_reverts es ros' = (\<lparr>rr_rewound = 0, rr_popped = 0\<rparr>, ros')"
    by (simp add: roster_apply_reverts_def roster_replay_from_slots sum_list_triv)
qed

section \<open>The wash-trading slot\<close>

definition wash_plugin :: "float_env \<Rightarrow> wash_config \<Rightarrow> (wash_state, wash_detail) cross_detector" where
  "wash_plugin fe cfg = \<lparr>cd_id = ''wash-trading'', cd_version = (1, 0, 0), cd_window_blocks = wc_window_blocks cfg,
     cd_init_state = wash_init_state, cd_observe = wash_observe cfg, cd_detect = wash_detect fe cfg\<rparr>"

section \<open>Witnesses\<close>

definition ex_next :: "nat \<Rightarrow> b256 \<Rightarrow> detection_ctx" where
  "ex_next n h = \<lparr>ctx_chain = 1, ctx_block = \<lparr>br_number = n, br_hash = h\<rparr>, ctx_txs = [], ctx_enrichment = en_default\<rparr>"

definition ex_dets :: "(detector_ref \<times> lifecycle_status \<times> (wash_state, wash_detail) cross_detector) list" where
  "ex_dets = [(\<lparr>dr_id = ''wash-trading'', dr_version = ''1.0.0'', dr_config_hash = ''00''\<rparr>, Shadow,
     wash_plugin exact_env wash_default_config)]"

definition ex_after :: "detection_ctx list \<Rightarrow> (wash_state, wash_detail) cross_block_states" where
  "ex_after cs = fold (\<lambda>c ros. map (\<lambda>(k, sl). (k, slot_fold c sl)) ros) cs (roster_init ex_dets)"

lemma roster_run_observe:
  assumes "roster_run ds cs ros" "\<forall>t. chain_tip cs = Some t \<longrightarrow> br_number t < br_number (ctx_block c)"
  shows "roster_run ds (cs @ [c]) (map (\<lambda>(k, sl). (k, slot_fold c sl)) ros)"
proof -
  obtain es where "roster_observe_and_detect exact_env (\<lambda>_. 0) c ros = Some (es, map (\<lambda>(k, sl). (k, slot_fold c sl)) ros)"
    using roster_observe_from_slots[of exact_env "\<lambda>_. 0" 0 c ros] by (auto simp: roster_observe_and_detect_def)
  from roster_run.observed[OF assms this] show ?thesis .
qed

lemma ex_run1: "roster_run ex_dets [ex_next 5 50] (ex_after [ex_next 5 50])"
  using roster_run_observe[OF roster_run.started, of "ex_next 5 50" ex_dets] by (simp add: ex_after_def chain_tip_def)

lemma ex_run2: "roster_run ex_dets ([ex_next 5 50] @ [ex_next 6 60]) (ex_after [ex_next 5 50, ex_next 6 60])"
  using roster_run_observe[OF ex_run1, of "ex_next 6 60"] by (simp add: ex_after_def chain_tip_def ex_next_def)

lemma ex_held: "\<forall>e\<in>set (ex_after [ex_next 5 50, ex_next 6 60]). ancestor_held [ex_next 5 50] [ex_next 6 60] (snd e)"
  by (simp add: ex_after_def roster_init_def ex_dets_def roster_insert_detector_def wash_plugin_def wash_default_config_def
      slot_fold_def Let_def apply_block_def cbs_new_def tip_def cbs_push_def prune_to_window_def ex_next_def ancestor_held_def cbs_len_def)

definition ex_reorg_stream :: "block_reverted list" where
  "ex_reorg_stream = [\<lparr>rv_block = ctx_block (ex_next 6 60), replaced_by = 61\<rparr>]"

lemma ex_stream_blocks: "map rv_block ex_reorg_stream = rev (map ctx_block [ex_next 6 60])"
  by (simp add: ex_reorg_stream_def)

lemma ex_run3: "roster_run ex_dets [ex_next 5 50] (snd (roster_apply_reverts ex_reorg_stream (ex_after [ex_next 5 50, ex_next 6 60])))"
  by (rule roster_run.reorged[OF ex_run2 ex_held ex_stream_blocks, of "fst (roster_apply_reverts ex_reorg_stream (ex_after [ex_next 5 50, ex_next 6 60]))"]) simp

lemma ex_slot_in: "\<exists>sl. ((''wash-trading'', (1, 0, 0)), sl) \<in> set (ex_after [ex_next 5 50]) \<and> sl_detector sl = wash_plugin exact_env wash_default_config"
  by (simp add: ex_after_def roster_init_def ex_dets_def roster_insert_detector_def) (simp add: wash_plugin_def)



theorem roster_reorg_tally_witness:
  "fst (roster_apply_reverts ex_reorg_stream (ex_after [ex_next 5 50, ex_next 6 60])) = \<lparr>rr_rewound = 1, rr_popped = 1\<rparr>"
proof -
  obtain out ros' where r: "roster_apply_reverts ex_reorg_stream (ex_after [ex_next 5 50, ex_next 6 60]) = (out, ros')" by fastforce
  have "ctx_block ` set [ex_next 6 60] \<inter> ctx_block ` set [ex_next 5 50] = {}" by (simp add: ex_next_def)
  from roster_reorg_tally[OF ex_run2 ex_held ex_stream_blocks this r] r show ?thesis
    by (simp add: roster_len_def ex_after_def roster_init_def ex_dets_def roster_insert_detector_def)
qed

end
