(* ===== verification/Ingestion_Pipeline.thy ===== *)
theory Ingestion_Pipeline
  imports Block_Tree Cross_Block_State
begin

text \<open>
  The ingestion pipeline (\<open>crates/ingestion/src/pipeline.rs\<close>): it owns the block tree, back-fills
  missing parents from the source, and maps the tree's decisions onto the chain events of
  \<open>crates/events/src/chain.rs\<close>.

  The chain source is a parameter, \<open>src h\<close> being the answer of \<open>head_by_hash\<close> (\<open>None\<close> a source error).
  Publishing is appending to the log: the code retries a publish until it succeeds or the service
  stops. \<open>None\<close> as a result of the loop is a panic or a loop that never ends; the theorems show that
  neither happens. Metrics, tracing and usage metering are left out.
\<close>

section \<open>Chain events\<close>

datatype chain_event =
    RawBlockReceived block_ref u64
  | BlockAssembled block_ref u32 bool
  | BlockCanonicalized block_ref
  | BlockReverted block_reverted
  | BlockFinalized block_ref

definition observed_events :: "chain_head \<Rightarrow> bool \<Rightarrow> chain_event list" where
  "observed_events head trace_available =
     [RawBlockReceived (head_block_ref head) (timestamp head),
      BlockAssembled (head_block_ref head) (tx_count head) trace_available]"

definition replacements :: "canonical_update \<Rightarrow> (nat \<times> b256) list" where
  "replacements u = fold (\<lambda>h. hm_insert (number h) (hash h)) (canonicalized u) []"

definition canonical_events :: "canonical_update \<Rightarrow> chain_event list" where
  "canonical_events u =
     List.map_filter (\<lambda>orphan. map_option
         (\<lambda>replacement. BlockReverted \<lparr>rv_block = head_block_ref orphan, replaced_by = replacement\<rparr>)
         (hm_get (replacements u) (number orphan))) (reverted u)
     @ map (\<lambda>b. BlockCanonicalized (head_block_ref b)) (canonicalized u)"

section \<open>The pipeline\<close>

datatype ingest_error = TreeFailure tree_error | SourceFailure b256

datatype send_result = Sent | ChannelFull | ChannelClosed

record pipeline =
  pp_tree :: block_tree
  pp_trace_available :: bool
  pp_progress :: bool
  pp_last_progress :: "block_ref option"
  pp_acks :: "block_ref list"
  pp_log :: "chain_event list"

definition pipeline_new :: "bool \<Rightarrow> nat \<Rightarrow> pipeline" where
  "pipeline_new traces depth = \<lparr>pp_tree = new_tree depth, pp_trace_available = traces, pp_progress = False,
     pp_last_progress = None, pp_acks = [], pp_log = []\<rparr>"

definition report_progress_to :: "pipeline \<Rightarrow> pipeline" where
  "report_progress_to p = p\<lparr>pp_progress := True\<rparr>"

text \<open>The back-fill loop; the top of the stack is the head of the list.\<close>

partial_function (option) ingest_loop ::
  "(b256 \<Rightarrow> chain_head option) \<Rightarrow> bool \<Rightarrow> chain_head list \<Rightarrow> block_tree \<Rightarrow> chain_event list \<Rightarrow>
     (ingest_error option \<times> block_tree \<times> chain_event list) option" where
  "ingest_loop src traces stack t log = (case stack of
      [] \<Rightarrow> Some (None, t, log)
    | cur # rest \<Rightarrow> Option.bind (add_block cur t) (\<lambda>(r, t'). case r of
          Inl e \<Rightarrow> Some (Some (TreeFailure e), t', log)
        | Inr outcome \<Rightarrow> (case outcome of
              Duplicate \<Rightarrow> ingest_loop src traces rest t' log
            | MissingParent h \<Rightarrow> (case src h of
                  None \<Rightarrow> Some (Some (SourceFailure h), t', log)
                | Some parent \<Rightarrow> ingest_loop src traces (parent # cur # rest) t' log)
            | Fork \<Rightarrow> ingest_loop src traces rest t' (log @ observed_events cur traces)
            | Canonical u \<Rightarrow> ingest_loop src traces rest t' (log @ observed_events cur traces @ canonical_events u))))"

definition report_progress :: "send_result \<Rightarrow> pipeline \<Rightarrow> pipeline option" where
  "report_progress send p =
     (if \<not> pp_progress p then Some p
      else Option.bind (canonical_tip_head (pp_tree p)) (\<lambda>tip. case tip of
          None \<Rightarrow> Some p
        | Some h \<Rightarrow>
            if pp_last_progress p = Some (head_block_ref h) then Some p
            else Some (case send of
                Sent \<Rightarrow> p\<lparr>pp_last_progress := Some (head_block_ref h), pp_acks := pp_acks p @ [head_block_ref h]\<rparr>
              | ChannelFull \<Rightarrow> p
              | ChannelClosed \<Rightarrow> p\<lparr>pp_progress := False\<rparr>)))"

definition ingest ::
  "(b256 \<Rightarrow> chain_head option) \<Rightarrow> send_result \<Rightarrow> chain_head \<Rightarrow> pipeline \<Rightarrow> ((ingest_error + unit) \<times> pipeline) option" where
  "ingest src send head p =
     Option.bind (ingest_loop src (pp_trace_available p) [head] (pp_tree p) (pp_log p)) (\<lambda>(err, t, log).
       let p' = p\<lparr>pp_tree := t, pp_log := log\<rparr>
       in case err of
           Some e \<Rightarrow> Some (Inl e, p')
         | None \<Rightarrow> Option.bind (report_progress send p') (\<lambda>q. Some (Inr (), q)))"

text \<open>\<open>fin\<close> is the source's \<open>finalized\<close> head, \<open>None\<close> when the fetch failed.\<close>

definition tick_finalize :: "chain_head option \<Rightarrow> pipeline \<Rightarrow> pipeline option" where
  "tick_finalize fin p = (case fin of
      None \<Rightarrow> Some p
    | Some head \<Rightarrow> Option.bind (finalize (head_block_ref head) (pp_tree p)) (\<lambda>(bs, t).
        Some (p\<lparr>pp_tree := t, pp_log := pp_log p @ map (\<lambda>b. BlockFinalized (head_block_ref b)) bs\<rparr>)))"

section \<open>Every orphan has a replacement\<close>

lemma is_path_covers:
  "is_path ns h hs \<Longrightarrow> linked ns \<Longrightarrow> number (last hs) \<le> n \<Longrightarrow> n \<le> number (hd hs) \<Longrightarrow> \<exists>x\<in>set hs. number x = n"
proof (induction hs arbitrary: h)
  case (Cons x xs)
  show ?case
  proof (cases xs)
    case (Cons y ys)
    then have p: "is_path ns (parent_hash x) xs" and g: "map_option nd_head (hm_get ns h) = Some x"
      using Cons.prems by (auto split: if_splits)
    then have "map_option nd_head (hm_get ns (parent_hash x)) = Some y" using Cons by simp
    with g Cons.prems(2) have "number x = Suc (number y)" by (auto simp: linked_def)
    then show ?thesis using Cons.IH[OF p Cons.prems(2)] Cons Cons.prems(3,4) by (cases "n = number x") auto
  qed (use Cons.prems in auto)
qed simp

lemma reverted_replaced:
  assumes inv: "tree_inv t" and cons: "consistent_heads (head # tree_heads t)"
    and add: "add_block head t = Some (Inr (Canonical u), t')" and r: "r \<in> set (reverted u)"
  shows "\<exists>c\<in>set (canonicalized u). number c = number r"
proof -
  have link: "linkable head t" using add_block_refused add by fastforce
  note st = stored_inv[OF inv cons link]
  let ?ns = "bt_nodes (store_block head t)"
  obtain suffix where old: "canonical_iter t = Some (reverted u @ suffix)"
    and p: "is_path ?ns (hash head) (rev (canonicalized u) @ suffix)"
    using add_block_stored[OF inv cons link] add by auto
  let ?new = "rev (canonicalized u) @ suffix"
  have ne: "canonical_tip t \<noteq> None" using old r by (cases "canonical_tip t") (auto simp: canonical_iter_def)
  then obtain h where h: "canonical_tip t = Some h" by blast
  then have po: "is_path (bt_nodes t) h (reverted u @ suffix)" using canonical_iter_path[OF inv] old by auto
  have rin: "\<exists>k n. hm_get ?ns k = Some n \<and> nd_head n = r"
  proof -
    obtain n where n: "hm_get (bt_nodes t) (hash r) = Some n" "nd_head n = r"
      using is_path_get[OF tree_invD(2)[OF inv] po] r by auto
    moreover have "hash r \<noteq> hash head" using n link by (auto simp: linkable_def)
    ultimately show ?thesis by (auto simp: stored_get)
  qed
  have low: "number (last ?new) \<le> number r"
    using is_path_last[OF p] rin st(4) unfolding rooted_def by metis
  have "hd ?new = head" using p by (cases ?new) (auto simp: stored_get)
  moreover have "number r \<le> number head"
  proof -
    obtain n where n: "hm_get (bt_nodes t) h = Some n" using po by (cases "reverted u @ suffix") auto
    have "hd (reverted u @ suffix) = nd_head n" using po n by (cases "reverted u @ suffix") auto
    moreover have "sorted_wrt (\<lambda>a b. number b < number a) (reverted u @ suffix)" using canonical_descending[OF inv old] .
    ultimately have "number r \<le> number (nd_head n)" using r by (cases "reverted u") (auto intro: less_imp_le)
    moreover have "key_less n \<lparr>nd_head = head, nd_seq = next_seq t\<rparr>"
    proof -
      have "h \<noteq> hash head" using n link by (auto simp: linkable_def)
      with add n h show ?thesis
        by (auto simp: add_block_linkable[OF link] beats_tip_def stored_get bind_eq_Some_conv split: if_splits)
    qed
    ultimately show ?thesis by (auto simp: key_less_def)
  qed
  ultimately obtain x where x: "x \<in> set ?new" "number x = number r"
    using is_path_covers[OF p st(3) low] by auto
  have "number y < number r" if "y \<in> set suffix" for y
    using canonical_descending[OF inv old] r that by (auto simp: sorted_wrt_append)
  with x show ?thesis by fastforce
qed

lemma replacements_get:
  "hm_get (fold (\<lambda>h. hm_insert (number h) (hash h)) cs m) n = Some x \<Longrightarrow>
     (\<exists>c\<in>set cs. number c = n \<and> hash c = x) \<or> hm_get m n = Some x"
  by (induction cs arbitrary: m) (fastforce simp: hm_get_insert split: if_splits)+

lemma replacements_dom:
  "(\<exists>c\<in>set cs. number c = n) \<or> hm_get m n \<noteq> None \<Longrightarrow> hm_get (fold (\<lambda>h. hm_insert (number h) (hash h)) cs m) n \<noteq> None"
  by (induction cs arbitrary: m) (auto simp: hm_get_insert)

lemma canonical_events_complete:
  assumes "tree_inv t" "consistent_heads (head # tree_heads t)" "add_block head t = Some (Inr (Canonical u), t')"
  shows "\<exists>evs. canonical_events u = map BlockReverted evs @ map (\<lambda>b. BlockCanonicalized (head_block_ref b)) (canonicalized u) \<and>
    map rv_block evs = map head_block_ref (reverted u) \<and>
    (\<forall>e\<in>set evs. \<exists>c\<in>set (canonicalized u). number c = br_number (rv_block e) \<and> hash c = replaced_by e)"
proof -
  have "hm_get (replacements u) (number r) \<noteq> None" if "r \<in> set (reverted u)" for r
    unfolding replacements_def using reverted_replaced[OF assms that] by (intro replacements_dom) blast
  then have "\<forall>r\<in>set (reverted u). \<exists>x. hm_get (replacements u) (number r) = Some x" by auto
  then obtain rep where get: "\<And>r. r \<in> set (reverted u) \<Longrightarrow> hm_get (replacements u) (number r) = Some (rep r)"
    unfolding bchoice_iff by blast
  let ?ev = "\<lambda>r. \<lparr>rv_block = head_block_ref r, replaced_by = rep r\<rparr>"
  have "List.map_filter (\<lambda>orphan. map_option (\<lambda>x. BlockReverted \<lparr>rv_block = head_block_ref orphan, replaced_by = x\<rparr>)
      (hm_get (replacements u) (number orphan))) rs = map (\<lambda>r. BlockReverted (?ev r)) rs" if "set rs \<subseteq> set (reverted u)" for rs
    using that by (induction rs) (simp_all add: get)
  then have "canonical_events u = map BlockReverted (map ?ev (reverted u)) @ map (\<lambda>b. BlockCanonicalized (head_block_ref b)) (canonicalized u)"
    by (simp add: canonical_events_def)
  moreover have "\<exists>c\<in>set (canonicalized u). number c = number r \<and> hash c = rep r" if "r \<in> set (reverted u)" for r
    using replacements_get[of "canonicalized u" "[]" "number r" "rep r"] get[OF that] by (simp add: replacements_def)
  ultimately show ?thesis by (intro exI[of _ "map ?ev (reverted u)"]) auto
qed

section \<open>Following the log\<close>

text \<open>
  A consumer of the published events that keeps the canonical chain, tip first: a revert pops its
  block if that is the tip, a canonicalization pushes.
\<close>

fun follow :: "chain_event \<Rightarrow> block_ref list \<Rightarrow> block_ref list" where
  "follow (BlockReverted e) st = (case st of b # bs \<Rightarrow> if b = rv_block e then bs else st | [] \<Rightarrow> [])"
| "follow (BlockCanonicalized b) st = b # st"
| "follow (RawBlockReceived b ts) st = st"
| "follow (BlockAssembled b n tr) st = st"
| "follow (BlockFinalized b) st = st"

lemma follow_reverts: "map rv_block evs = bs \<Longrightarrow> fold follow (map BlockReverted evs) (bs @ rest) = rest"
  by (induction evs arbitrary: bs) auto

lemma follow_canonicalizes: "fold follow (map (\<lambda>b. BlockCanonicalized (head_block_ref b)) cs) st = rev (map head_block_ref cs) @ st"
  by (induction cs arbitrary: st) auto

lemma follow_finalizes: "fold follow (map (\<lambda>b. BlockFinalized (head_block_ref b)) cs) st = st"
  by (induction cs) auto

lemma follow_observed: "fold follow (observed_events h tr) st = st"
  by (simp add: observed_events_def)

definition log_ok :: "block_tree \<Rightarrow> chain_event list \<Rightarrow> bool" where
  "log_ok t log \<longleftrightarrow> (\<exists>chain older. canonical_iter t = Some chain \<and> fold follow log [] = map head_block_ref chain @ older)"

lemma descending_filter_prefix:
  "sorted_wrt (\<lambda>a b. number b < number a) xs \<Longrightarrow> \<exists>ys. xs = filter (\<lambda>b. f \<le> number b) xs @ ys"
proof (induction xs)
  case (Cons x xs)
  show ?case
  proof (cases "f \<le> number x")
    case False
    with Cons.prems have "filter (\<lambda>b. f \<le> number b) xs = []" by (auto simp: filter_empty_conv)
    with False show ?thesis by simp
  qed (use Cons in auto)
qed simp

lemma log_ok_prefix:
  assumes "sorted_wrt (\<lambda>a b. number b < number a) chain" "fold follow log [] = map head_block_ref chain @ older"
    and "canonical_iter t = Some (filter (\<lambda>b. f \<le> number b) chain)"
  shows "log_ok t log"
proof -
  obtain ys where "chain = filter (\<lambda>b. f \<le> number b) chain @ ys" using descending_filter_prefix[OF assms(1)] by blast
  then have "map head_block_ref chain = map head_block_ref (filter (\<lambda>b. f \<le> number b) chain) @ map head_block_ref ys"
    by (metis map_append)
  with assms(2,3) show ?thesis by (auto simp: log_ok_def)
qed

lemma log_ok_canonical:
  assumes "tree_inv t" "consistent_heads (head # tree_heads t)" "add_block head t = Some (Inr (Canonical u), t')" "log_ok t log"
  shows "log_ok t' (log @ observed_events head tr @ canonical_events u)"
proof -
  obtain shared where s: "canonical_iter t = Some (reverted u @ shared)"
    "canonical_iter t' = Some (filter (\<lambda>b. number head - finalization_depth t \<le> number b) (rev (canonicalized u) @ shared))"
    using canonical_update_spec[OF assms(1-3)] by blast
  obtain older where o: "fold follow log [] = map head_block_ref (reverted u @ shared) @ older"
    using assms(4) s(1) by (auto simp: log_ok_def)
  obtain evs where e: "canonical_events u = map BlockReverted evs @ map (\<lambda>b. BlockCanonicalized (head_block_ref b)) (canonicalized u)"
    "map rv_block evs = map head_block_ref (reverted u)" using canonical_events_complete[OF assms(1-3)] by blast
  have "fold follow (log @ observed_events head tr @ canonical_events u) [] =
      map head_block_ref (rev (canonicalized u) @ shared) @ older"
    using follow_reverts[OF e(2), of "map head_block_ref shared @ older"] o
    by (simp add: follow_observed e(1) follow_canonicalizes rev_map)
  moreover have "sorted_wrt (\<lambda>a b. number b < number a) (rev (canonicalized u) @ shared)"
  proof -
    have link: "linkable head t" using add_block_refused assms(3) by fastforce
    note st = stored_inv[OF assms(1,2) link]
    obtain suffix where "canonical_iter t = Some (reverted u @ suffix)"
      "is_path (bt_nodes (store_block head t)) (hash head) (rev (canonicalized u) @ suffix)"
      using add_block_stored[OF assms(1,2) link] assms(3) by auto
    with s(1) is_path_descending[OF st(2,3)] show ?thesis by auto
  qed
  ultimately show ?thesis using log_ok_prefix s(2) by blast
qed

section \<open>The back-fill loop\<close>

text \<open>What the pipeline relies on from the chain source: it returns the header it was asked for.\<close>

definition source_ok :: "chain_head list \<Rightarrow> (b256 \<Rightarrow> chain_head option) \<Rightarrow> bool" where
  "source_ok feed src \<longleftrightarrow> (\<forall>h p. src h = Some p \<longrightarrow> hash p = h \<and> p \<in> set feed)"

definition fed :: "chain_head list \<Rightarrow> block_tree \<Rightarrow> bool" where
  "fed feed t \<longleftrightarrow> tree_inv t \<and> set (tree_heads t) \<subseteq> set feed"

fun stacked :: "chain_head list \<Rightarrow> bool" where
  "stacked (a # b # xs) \<longleftrightarrow> parent_hash b = hash a \<and> stacked (b # xs)"
| "stacked xs \<longleftrightarrow> True"

lemma fed_consistent: "consistent_heads feed \<Longrightarrow> fed feed t \<Longrightarrow> h \<in> set feed \<Longrightarrow> consistent_heads (h # tree_heads t)"
  by (rule consistent_heads_mono) (auto simp: fed_def)

lemma add_block_missing:
  "add_block head t = Some (Inr (MissingParent h), t') \<Longrightarrow> t' = t \<and> h = parent_hash head \<and> \<not> tree_contains t (parent_hash head)"
  by (auto simp: add_block_def tree_contains_def bind_eq_Some_conv split: if_splits option.splits)

lemma add_block_contains:
  assumes "consistent_heads feed" "fed feed t" "head \<in> set feed"
    and "add_block head t = Some (Inr r, t')" "\<And>h. r \<noteq> MissingParent h"
  shows "tree_contains t' (hash head)"
proof -
  note inv = assms(2)[unfolded fed_def, THEN conjunct1] and cons = fed_consistent[OF assms(1-3)]
  show ?thesis
  proof (cases r)
    case (Canonical u)
    have "tree_inv t'" using add_block_preserves[OF inv cons] assms(4) by auto
    moreover have "canonical_tip t' = Some (hash head)" using canonical_update_spec[OF inv cons] assms(4) Canonical by blast
    ultimately show ?thesis by (auto simp: tree_inv_def tip_ok_def tree_contains_def)
  next
    case Fork
    then show ?thesis using fork_spec[OF inv cons] assms(4) by blast
  next
    case Duplicate
    then show ?thesis using assms(4)
      by (auto simp: add_block_def tree_contains_def bind_eq_Some_conv split: if_splits option.splits)
  qed (use assms(5) in blast)
qed

definition ingested :: "chain_head list \<Rightarrow> b256 \<Rightarrow> (ingest_error option \<times> block_tree \<times> chain_event list) option \<Rightarrow> bool" where
  "ingested feed g res \<longleftrightarrow> (\<exists>e t log. res = Some (e, t, log) \<and> fed feed t \<and> log_ok t log \<and> (e = None \<longrightarrow> tree_contains t g))"

lemma add_block_fed:
  assumes "consistent_heads feed" "fed feed t" "head \<in> set feed" "add_block head t = Some (r, t')"
  shows "fed feed t'"
  using add_block_preserves[of t head] add_block_heads[of t head r t'] fed_consistent[OF assms(1-3)] assms by (fastforce simp: fed_def)

lemma log_ok_observed: "log_ok t log \<Longrightarrow> log_ok t (log @ observed_events h tr)"
  by (simp add: log_ok_def follow_observed)

text \<open>One turn of the loop that neither fails nor asks for a parent: the stack is popped and the invariant kept.\<close>

lemma ingest_loop_pop:
  assumes "consistent_heads feed" "fed feed t" "log_ok t log" "cur \<in> set feed"
    and "\<And>t' log'. fed feed t' \<Longrightarrow> log_ok t' log' \<Longrightarrow> tree_contains t' (hash cur) \<Longrightarrow> ingested feed g (ingest_loop src tr rest t' log')"
    and "\<And>h. add_block cur t = Some (Inr (MissingParent h), t) \<Longrightarrow> ingested feed g (ingest_loop src tr (cur # rest) t log)"
  shows "ingested feed g (ingest_loop src tr (cur # rest) t log)"
proof -
  note inv = assms(2)[unfolded fed_def, THEN conjunct1] and cons = fed_consistent[OF assms(1,2,4)]
  obtain r t' where add: "add_block cur t = Some (r, t')" using add_block_preserves[OF inv cons] by blast
  note fed' = add_block_fed[OF assms(1,2,4) add]
  show ?thesis
  proof (cases r)
    case (Inl e)
    have "t' = t" using add Inl by (auto simp: add_block_def bind_eq_Some_conv split: if_splits option.splits)
    with Inl add assms(2,3) show ?thesis by (subst ingest_loop.simps) (simp add: ingested_def)
  next
    case (Inr out)
    show ?thesis
    proof (cases out)
      case (MissingParent h)
      with add Inr add_block_missing assms(6) show ?thesis by blast
    next
      case (Canonical u)
      have "log_ok t' (log @ observed_events cur tr @ canonical_events u)"
        using log_ok_canonical[OF inv cons _ assms(3)] add Inr Canonical by blast
      from assms(5)[OF fed' this] add_block_contains[OF assms(1,2,4)] add Inr Canonical show ?thesis
        by (subst ingest_loop.simps) simp
    next
      case Fork
      have "canonical_iter t' = canonical_iter t" using fork_spec[OF inv cons] add Inr Fork by blast
      then have "log_ok t' (log @ observed_events cur tr)" using log_ok_observed[OF assms(3)] by (simp add: log_ok_def)
      from assms(5)[OF fed' this] add_block_contains[OF assms(1,2,4)] add Inr Fork show ?thesis
        by (subst ingest_loop.simps) simp
    next
      case Duplicate
      have "t' = t" using add Inr Duplicate by (auto simp: add_block_def bind_eq_Some_conv split: if_splits option.splits)
      with assms(5)[OF fed'] assms(3) add_block_contains[OF assms(1,2,4)] add Inr Duplicate show ?thesis
        by (subst ingest_loop.simps) simp
    qed
  qed
qed

lemma ingest_loop_drain:
  assumes "consistent_heads feed"
  shows "stacked xs \<Longrightarrow> set xs \<subseteq> set feed \<Longrightarrow> fed feed t \<Longrightarrow> log_ok t log \<Longrightarrow>
    (if xs = [] then tree_contains t g else tree_contains t (parent_hash (hd xs)) \<and> g = hash (last xs)) \<Longrightarrow> ingested feed g (ingest_loop src tr xs t log)"
proof (induction xs arbitrary: t log)
  case Nil
  then show ?case by (subst ingest_loop.simps) (simp add: ingested_def)
next
  case (Cons x xs)
  show ?case
  proof (rule ingest_loop_pop[OF assms Cons.prems(3,4)])
    show "x \<in> set feed" using Cons.prems(2) by simp
    fix t' log' assume t': "fed feed t'" "log_ok t' log'" "tree_contains t' (hash x)"
    have "stacked xs" "xs \<noteq> [] \<longrightarrow> parent_hash (hd xs) = hash x" using Cons.prems(1) by (cases xs; simp)+
    with Cons.IH[of t' log'] t' Cons.prems(2,5) show "ingested feed g (ingest_loop src tr xs t' log')" by (auto split: if_splits)
  next
    fix h assume "add_block x t = Some (Inr (MissingParent h), t)"
    then show "ingested feed g (ingest_loop src tr (x # xs) t log)" using add_block_missing[of x t h t] Cons.prems(5) by simp
  qed
qed

lemma ingest_loop_total:
  assumes "consistent_heads feed" "source_ok feed src"
  shows "stacked (x # xs) \<Longrightarrow> set (x # xs) \<subseteq> set feed \<Longrightarrow> fed feed t \<Longrightarrow> log_ok t log \<Longrightarrow>
    g = hash (last (x # xs)) \<Longrightarrow> ingested feed g (ingest_loop src tr (x # xs) t log)"
proof (induction "number x" arbitrary: x xs rule: less_induct)
  case less
  show ?case
  proof (rule ingest_loop_pop[OF assms(1) less.prems(3,4)])
    show "x \<in> set feed" using less.prems(2) by simp
    fix t' log' assume t': "fed feed t'" "log_ok t' log'" "tree_contains t' (hash x)"
    have "stacked xs" "xs \<noteq> [] \<longrightarrow> parent_hash (hd xs) = hash x" using less.prems(1) by (cases xs; simp)+
    then show "ingested feed g (ingest_loop src tr xs t' log')"
      using ingest_loop_drain[OF assms(1), of xs t' log' g] t' less.prems(2,5) by (auto split: if_splits)
  next
    fix h assume m: "add_block x t = Some (Inr (MissingParent h), t)"
    then have h: "h = parent_hash x" using add_block_missing by blast
    show "ingested feed g (ingest_loop src tr (x # xs) t log)"
    proof (cases "src h")
      case None
      with m less.prems(3,4) show ?thesis by (subst ingest_loop.simps) (simp add: ingested_def)
    next
      case (Some p)
      then have p: "hash p = parent_hash x" "p \<in> set feed" using assms(2) h by (auto simp: source_ok_def)
      then have "number p < number x" using assms(1) less.prems(2) unfolding consistent_heads_def by (metis less_Suc_eq list.set_intros(1) subsetD)
      moreover have "stacked (p # x # xs)" "set (p # x # xs) \<subseteq> set feed" "g = hash (last (p # x # xs))"
        using p less.prems(1,2,5) by simp_all
      ultimately have "ingested feed g (ingest_loop src tr (p # x # xs) t log)" using less.hyps less.prems(3,4) by blast
      with m Some show ?thesis by (subst ingest_loop.simps) simp
    qed
  qed
qed

section \<open>Runs of the pipeline\<close>

inductive pipeline_run :: "chain_head list \<Rightarrow> nat \<Rightarrow> pipeline \<Rightarrow> bool" for feed depth where
  booted: "pipeline_run feed depth (pipeline_new traces depth)"
| wired: "pipeline_run feed depth p \<Longrightarrow> pipeline_run feed depth (report_progress_to p)"
| headed: "pipeline_run feed depth p \<Longrightarrow> source_ok feed src \<Longrightarrow> head \<in> set feed \<Longrightarrow>
    ingest src send head p = Some (r, p') \<Longrightarrow> pipeline_run feed depth p'"
| ticked: "pipeline_run feed depth p \<Longrightarrow> tick_finalize fin p = Some p' \<Longrightarrow> pipeline_run feed depth p'"

definition acked_ok :: "pipeline \<Rightarrow> bool" where
  "acked_ok p \<longleftrightarrow> (\<forall>b\<in>set (pp_acks p). BlockCanonicalized b \<in> set (pp_log p))"

definition pipeline_ok :: "chain_head list \<Rightarrow> pipeline \<Rightarrow> bool" where
  "pipeline_ok feed p \<longleftrightarrow> fed feed (pp_tree p) \<and> log_ok (pp_tree p) (pp_log p) \<and> acked_ok p"

lemma follow_member: "b \<in> set (fold follow log st) \<Longrightarrow> b \<in> set st \<or> BlockCanonicalized b \<in> set log"
proof (induction log arbitrary: st)
  case (Cons e log)
  have "b \<in> set (follow e st) \<Longrightarrow> b \<in> set st \<or> BlockCanonicalized b = e"
    by (cases e) (auto split: list.splits if_splits)
  with Cons show ?case by auto
qed simp

lemma tip_published:
  assumes "tree_inv t" "log_ok t log" "canonical_tip_head t = Some (Some h)"
  shows "BlockCanonicalized (head_block_ref h) \<in> set log"
proof -
  obtain chain older where c: "canonical_iter t = Some chain" "fold follow log [] = map head_block_ref chain @ older"
    using assms(2) by (auto simp: log_ok_def)
  obtain k n where k: "canonical_tip t = Some k" "hm_get (bt_nodes t) k = Some n" "nd_head n = h"
    using assms(3) by (auto simp: canonical_tip_head_def split: option.splits)
  then have "is_path (bt_nodes t) k chain" using canonical_iter_path[OF assms(1)] c(1) by auto
  with k have "h \<in> set chain" by (cases chain) auto
  then have "head_block_ref h \<in> set (fold follow log [])" using c(2) by simp
  from follow_member[OF this] show ?thesis by simp
qed

lemma report_progress_ok:
  assumes "pipeline_ok feed p"
  shows "\<exists>q. report_progress send p = Some q \<and> pipeline_ok feed q \<and> pp_tree q = pp_tree p \<and> pp_log q = pp_log p"
proof -
  have inv: "tree_inv (pp_tree p)" using assms by (simp add: pipeline_ok_def fed_def)
  obtain tp where tp: "canonical_tip_head (pp_tree p) = Some tp"
    using inv by (cases rule: tip_cases) (auto simp: canonical_tip_head_def)
  with tip_published[OF inv] assms show ?thesis
    by (cases tp) (auto simp: report_progress_def pipeline_ok_def acked_ok_def split: send_result.splits)
qed

lemma ingest_loop_extends:
  assumes "ingest_loop src tr stack t log = Some (e, t', log')"
  shows "\<exists>more. log' = log @ more"
proof -
  have "\<exists>more. snd (snd y) = log @ more" if "ingest_loop src tr stack t log = Some y" for y
    using that
  proof (rule ingest_loop.raw_induct[where P = "\<lambda>src tr stack t log y. \<exists>more. snd (snd y) = log @ more", rotated])
    fix loop src tr stack t log y
    assume IH: "\<And>src tr stack t log y. loop src tr stack t log = Some y \<Longrightarrow> \<exists>more. snd (snd y) = log @ more"
      and eq: "(case stack of [] \<Rightarrow> Some (None, t, log)
        | cur # rest \<Rightarrow> Option.bind (add_block cur t) (\<lambda>(r, t'). case r of
          Inl e \<Rightarrow> Some (Some (TreeFailure e), t', log)
        | Inr outcome \<Rightarrow> (case outcome of
              Duplicate \<Rightarrow> loop src tr rest t' log
            | MissingParent h \<Rightarrow> (case src h of
                  None \<Rightarrow> Some (Some (SourceFailure h), t', log)
                | Some parent \<Rightarrow> loop src tr (parent # cur # rest) t' log)
            | Fork \<Rightarrow> loop src tr rest t' (log @ observed_events cur tr)
            | Canonical u \<Rightarrow> loop src tr rest t' (log @ observed_events cur tr @ canonical_events u)))) = Some y"
    show "\<exists>more. snd (snd y) = log @ more"
    proof (cases stack)
      case (Cons cur rest)
      with eq obtain r t' where add: "add_block cur t = Some (r, t')" by (auto simp: bind_eq_Some_conv)
      show ?thesis
      proof (cases r)
        case (Inr out)
        show ?thesis
        proof (cases out)
          case (MissingParent h)
          with eq Cons add Inr IH show ?thesis by (cases "src h") auto
        qed (use eq Cons add Inr in \<open>auto dest!: IH\<close>)
      qed (use eq Cons add in auto)
    qed (use eq in auto)
  qed
  from this[OF assms] show ?thesis by simp
qed

lemma ingest_total:
  assumes "consistent_heads feed" "source_ok feed src" "head \<in> set feed" "pipeline_ok feed p"
  shows "\<exists>r p'. ingest src send head p = Some (r, p') \<and> pipeline_ok feed p' \<and>
    (r = Inr () \<longrightarrow> tree_contains (pp_tree p') (hash head))"
proof -
  obtain e t log where l: "ingest_loop src (pp_trace_available p) [head] (pp_tree p) (pp_log p) = Some (e, t, log)"
    "fed feed t" "log_ok t log" "e = None \<longrightarrow> tree_contains t (hash head)"
    using ingest_loop_total[OF assms(1,2), of head "[]" "pp_tree p" "pp_log p" "hash head" "pp_trace_available p"] assms(3,4)
    by (auto simp: pipeline_ok_def ingested_def)
  have ext: "\<exists>more. log = pp_log p @ more" using ingest_loop_extends[OF l(1)] .
  let ?p = "p\<lparr>pp_tree := t, pp_log := log\<rparr>"
  have ok: "pipeline_ok feed ?p" using l assms(4) ext by (auto simp: pipeline_ok_def acked_ok_def)
  from report_progress_ok[OF this, of send] l ok show ?thesis
    by (cases e) (auto simp: ingest_def Let_def)
qed
lemma tick_total:
  assumes "pipeline_ok feed p"
  shows "\<exists>p'. tick_finalize fin p = Some p' \<and> pipeline_ok feed p'"
proof (cases fin)
  case (Some head)
  let ?t = "pp_tree p" and ?f = "head_block_ref head"
  have inv: "tree_inv ?t" and fed: "set (tree_heads ?t) \<subseteq> set feed" using assms by (auto simp: pipeline_ok_def fed_def)
  obtain chain older where c: "canonical_iter ?t = Some chain" "fold follow (pp_log p) [] = map head_block_ref chain @ older"
    using assms by (auto simp: pipeline_ok_def log_ok_def)
  obtain bs t' where f: "finalize ?f ?t = Some (bs, t')" "tree_inv t'" "t' = prune_below (finality_floor ?f ?t) (?t\<lparr>finalized := Some ?f\<rparr>)"
    using finalize_preserves[OF inv] by blast
  have "set (tree_heads t') \<subseteq> set feed" using fed f(3) by (auto simp: tree_heads_def hm_retain_def)
  moreover have "log_ok t' (pp_log p @ map (\<lambda>b. BlockFinalized (head_block_ref b)) bs)"
  proof -
    have "canonical_iter t' = Some (filter (\<lambda>b. finality_floor ?f ?t \<le> number b) chain)"
      using finalize_spec[OF inv c(1) f(1)] by blast
    from log_ok_prefix[OF canonical_descending[OF inv c(1)] c(2) this] show ?thesis
      by (simp add: log_ok_def follow_finalizes)
  qed
  ultimately show ?thesis using Some f(1,2) assms by (auto simp: tick_finalize_def pipeline_ok_def fed_def acked_ok_def)
qed (use assms in \<open>simp add: tick_finalize_def\<close>)

lemma pipeline_run_ok: "pipeline_run feed depth p \<Longrightarrow> consistent_heads feed \<Longrightarrow> pipeline_ok feed p"
proof (induction rule: pipeline_run.induct)
  case (booted traces)
  then show ?case
    by (simp add: pipeline_ok_def pipeline_new_def fed_def new_tree_inv log_ok_def acked_ok_def) (simp add: new_tree_def canonical_iter_def)
next
  case (wired p)
  then show ?case by (simp add: pipeline_ok_def report_progress_to_def acked_ok_def)
next
  case (headed p src head send r p')
  then show ?case using ingest_total[of feed src head p send] by auto
next
  case (ticked p fin p')
  then show ?case using tick_total[of feed p fin] by auto
qed




text \<open>
  No orphan is dropped. The error branch of \<open>canonical_events\<close>, a reverted block without a canonical
  block at its height, is dead: the events of an update are one \<open>BlockReverted\<close> per orphan, tip-first,
  each naming a block of the new branch at the orphan's height, followed by one \<open>BlockCanonicalized\<close> per
  block of the new branch, ancestor-first.
\<close>

theorem every_orphan_is_announced:
  assumes "tree_inv t" "consistent_heads (head # tree_heads t)" "add_block head t = Some (Inr (Canonical u), t')"
  shows "\<exists>evs. canonical_events u = map BlockReverted evs @ map (\<lambda>b. BlockCanonicalized (head_block_ref b)) (canonicalized u) \<and>
    map rv_block evs = map head_block_ref (reverted u) \<and>
    (\<forall>e\<in>set evs. \<exists>c\<in>set (canonicalized u). number c = br_number (rv_block e) \<and> hash c = replaced_by e)"
  using assms by (rule canonical_events_complete)

section \<open>Witnesses\<close>

definition ex_source :: "b256 \<Rightarrow> chain_head option" where
  "ex_source h = (if h = 21 then Some ex_B1 else None)"

lemma ex_source_ok: "source_ok ex_feed ex_source"
  by (auto simp: source_ok_def ex_source_def ex_feed_def mk_head_def)

definition ex_pipe :: pipeline where
  "ex_pipe = (report_progress_to (pipeline_new False 64))\<lparr>pp_tree := ex_tree [ex_G] (Some 10),
     pp_last_progress := Some (head_block_ref ex_G), pp_acks := [head_block_ref ex_G],
     pp_log := observed_events ex_G False @ [BlockCanonicalized (head_block_ref ex_G)]\<rparr>"

lemma ex_ingest: "ingest ex_source Sent ex_G (report_progress_to (pipeline_new False 64)) = Some (Inr (), ex_pipe)"
proof -
  have "ingest_loop ex_source False [ex_G] (new_tree 64) [] = Some (None, ex_tree [ex_G] (Some 10), pp_log ex_pipe)"
    using ex_steps(1) by (subst ingest_loop.simps, simp, subst ingest_loop.simps) (simp add: canonical_events_def replacements_def ex_pipe_def)
  then show ?thesis
    by (simp add: ingest_def report_progress_to_def pipeline_new_def report_progress_def ex_pipe_def canonical_tip_head_def ex_tree_def mk_head_def)
qed

lemma ex_pipe_run: "pipeline_run ex_feed 64 ex_pipe"
  by (rule pipeline_run.headed[OF pipeline_run.wired[OF pipeline_run.booted] ex_source_ok _ ex_ingest]) (simp add: ex_feed_def)




theorem every_orphan_is_announced_witness:
  "\<exists>evs. canonical_events \<lparr>reverted = [ex_A2, ex_A1], canonicalized = [ex_B1, ex_B2]\<rparr> =
     map BlockReverted evs @ [BlockCanonicalized (head_block_ref ex_B1), BlockCanonicalized (head_block_ref ex_B2)] \<and>
   map rv_block evs = [head_block_ref ex_A2, head_block_ref ex_A1]"
proof -
  have c: "consistent_heads (ex_B2 # tree_heads ex_forked)" by (rule ex_forked_facts(2)) (simp add: ex_feed_def)
  obtain t' where a: "add_block ex_B2 ex_forked = Some (Inr (Canonical
     \<lparr>reverted = [ex_A2, ex_A1], canonicalized = [ex_B1, ex_B2]\<rparr>), t')" using ex_reorg by blast
  from every_orphan_is_announced[OF ex_forked_facts(1) c a] show ?thesis by auto
qed

end
