(* ===== verification/Builtin_Roster.thy ===== *)
theory Builtin_Roster
  imports Detection_Reorg Sandwich_Detector Arb_Detector Flashloan_Detector Liquidation_Detector
    Rugpull_Detector Poisoning_Detector
begin

text \<open>
  The rosters a binary boots with: the built-in detectors behind their compile-time features and
  runtime flags (\<open>crates/detection/src/registry.rs\<close>), their catalogue and the linked plan
  (\<open>boot.rs\<close>), and the synthetic detector of the demo build (\<open>crates/demo-detector\<close>).

  \<open>features\<close> is the set of Cargo features of the build, as a list of names. The JSON detail of a finding
  is a value of the detector's own record, tagged with the detector; a detector the binary constructs at
  boot brings an arbitrary JSON document. An \<open>expect\<close> is the value \<open>None\<close>. \<open>now\<close> gives the time at which
  the card of a build is made.
\<close>

section \<open>The plugins\<close>

datatype builtin_detail =
    Sandwich_detail sandwich_detail
  | Arb_detail arb_detail
  | Flashloan_detail flashloan_detail
  | Liquidation_detail liquidation_detail
  | Rugpull_detail rugpull_detail
  | Poisoning_detail poisoning_detail
  | Wash_detail wash_detail
  | Other_detail json

definition map_detail :: "('a \<Rightarrow> 'b) \<Rightarrow> 'a evidence \<Rightarrow> 'b evidence" where
  "map_detail f ev = \<lparr>ev_kind = ev_kind ev, ev_txs = ev_txs ev, ev_confidence = ev_confidence ev,
     ev_detail = map_option f (ev_detail ev), ev_impact_usd = ev_impact_usd ev\<rparr>"

definition rule_plugin ::
  "detector_id \<Rightarrow> sem_ver \<Rightarrow> json \<Rightarrow> (detection_ctx \<Rightarrow> 'd evidence list) \<Rightarrow> 'd plugin" where
  "rule_plugin i v config f = \<lparr>pl_id = i, pl_version = v, pl_kind = Rule, pl_scope = Block_scope,
     pl_config_value = config, pl_model_digest = None, pl_detect = f\<rparr>"

definition sandwich_plugin :: "float_env \<Rightarrow> builtin_detail plugin" where
  "sandwich_plugin fe = rule_plugin ''sandwich'' (1, 2, 0)
     (JObject [(''min_profit_usd'', JNumber (Float (sc_min_profit_usd sandwich_default_config)))])
     (\<lambda>ctx. map (map_detail Sandwich_detail) (sandwich_detect fe sandwich_default_config ctx))"

definition arb_plugin :: "float_env \<Rightarrow> builtin_detail plugin" where
  "arb_plugin fe = rule_plugin ''arb'' (1, 0, 0)
     (JObject [(''min_profit_usd'', JNumber (Float (ac_min_profit_usd arb_default_config)))])
     (\<lambda>ctx. map (map_detail Arb_detail) (arb_detect fe arb_default_config ctx))"

definition flashloan_plugin :: "float_env \<Rightarrow> builtin_detail plugin" where
  "flashloan_plugin fe = rule_plugin ''flashloan'' (2, 1, 0)
     (JObject [(''min_loan_usd'', JNumber (Float (fc_min_loan_usd flashloan_default_config)))])
     (\<lambda>ctx. map (map_detail Flashloan_detail) (flashloan_detect fe flashloan_default_config ctx))"

definition liquidation_plugin :: "float_env \<Rightarrow> builtin_detail plugin" where
  "liquidation_plugin fe = rule_plugin ''liquidation'' (1, 0, 0)
     (JObject [(''min_debt_usd'', JNumber (Float (lc_min_debt_usd liquidation_default_config))),
               (''min_bonus_bps'', JNumber (PosInt (unat (lc_min_bonus_bps liquidation_default_config))))])
     (\<lambda>ctx. map (map_detail Liquidation_detail) (liquidation_detect fe liquidation_default_config ctx))"

definition rugpull_plugin :: "float_env \<Rightarrow> builtin_detail plugin" where
  "rugpull_plugin fe = rule_plugin ''rugpull'' (1, 0, 0)
     (JObject [(''min_drain_bps'', JNumber (PosInt (unat (rc_min_drain_bps rugpull_default_config)))),
               (''min_pool_usd'', JNumber (Float (rc_min_pool_usd rugpull_default_config)))])
     (\<lambda>ctx. map (map_detail Rugpull_detail) (rugpull_detect fe rugpull_default_config ctx))"

definition poisoning_plugin :: "builtin_detail plugin" where
  "poisoning_plugin = rule_plugin ''address-poisoning'' (1, 0, 0)
     (JObject [(''min_prefix_nibbles'', JNumber (PosInt (unat (min_prefix_nibbles poisoning_default_config)))),
               (''min_suffix_nibbles'', JNumber (PosInt (unat (min_suffix_nibbles poisoning_default_config))))])
     (\<lambda>ctx. map (map_detail Poisoning_detail) (poisoning_detect poisoning_default_config ctx))"

definition fires_on :: "nat \<Rightarrow> bool" where
  "fires_on n \<longleftrightarrow> n mod 2 = 0"

definition demo_detect :: "detection_ctx \<Rightarrow> builtin_detail evidence list" where
  "demo_detect ctx =
     (if \<not> fires_on (br_number (ctx_block ctx)) then []
      else [with_detail (Other_detail (JObject
              [(''synthetic'', JBool True),
               (''note'', JString (''demo detector '' @ [CHR 0xE2, CHR 0x80, CHR 0x94] @ '' not a real finding'')),
               (''block_number'', JNumber (PosInt (br_number (ctx_block ctx))))]))
            (evidence_new Arbitrage [br_hash (ctx_block ctx)] (confidence_new (round_f64 (42 / 100))))])"

definition demo_plugin :: "builtin_detail plugin" where
  "demo_plugin = rule_plugin ''demo'' (0, 1, 0) JNull demo_detect"

definition washtrading_plugin :: "float_env \<Rightarrow> (wash_state, builtin_detail) cross_detector" where
  "washtrading_plugin fe = \<lparr>cd_id = ''wash-trading'', cd_version = (1, 0, 0),
     cd_window_blocks = wc_window_blocks wash_default_config, cd_init_state = wash_init_state,
     cd_observe = wash_observe wash_default_config,
     cd_detect = (\<lambda>ctx st. map (map_detail Wash_detail) (wash_detect fe wash_default_config ctx st))\<rparr>"

definition washtrading_config_value :: json where
  "washtrading_config_value = JObject
     [(''window_blocks'', JNumber (PosInt (unat (wc_window_blocks wash_default_config)))),
      (''min_swaps'', JNumber (PosInt (unat (wc_min_swaps wash_default_config)))),
      (''max_net_bps'', JNumber (PosInt (unat (wc_max_net_bps wash_default_config))))]"

section \<open>Registration\<close>

definition register_if :: "bool \<Rightarrow> 'd plugin \<Rightarrow> 'd plugin list \<Rightarrow> 'd plugin list" where
  "register_if enabled p b = (if enabled then b @ [p] else b)"

text \<open>One \<open>#[cfg(feature)]\<close> arm.\<close>

definition cfg_register ::
  "string list \<Rightarrow> feature_flags \<Rightarrow> string \<Rightarrow> 'd plugin \<Rightarrow> 'd plugin list \<Rightarrow> 'd plugin list" where
  "cfg_register features flags feature p b =
     (if feature \<in> set features then register_if (is_enabled flags (pl_id p)) p b else b)"

definition register_builtins_with ::
  "float_env \<Rightarrow> string list \<Rightarrow> feature_flags \<Rightarrow> builtin_detail plugin list
    \<Rightarrow> (detector_key \<times> builtin_detail plugin) list option" where
  "register_builtins_with fe features flags extra =
     (let b0 = fold (\<lambda>p b. if is_enabled flags (pl_id p) then b @ [p] else b) extra [];
          b1 = cfg_register features flags ''sandwich'' (sandwich_plugin fe) b0;
          b2 = cfg_register features flags ''arb'' (arb_plugin fe) b1;
          b3 = cfg_register features flags ''flashloan'' (flashloan_plugin fe) b2;
          b4 = cfg_register features flags ''liquidation'' (liquidation_plugin fe) b3;
          b5 = cfg_register features flags ''rugpull'' (rugpull_plugin fe) b4;
          b6 = cfg_register features flags ''poisoning'' poisoning_plugin b5;
          b7 = cfg_register features flags ''demo'' demo_plugin b6
      in case registry_build b7 of Inl k \<Rightarrow> None | Inr r \<Rightarrow> Some r)"

definition register_builtins ::
  "float_env \<Rightarrow> string list \<Rightarrow> feature_flags \<Rightarrow> (detector_key \<times> builtin_detail plugin) list option" where
  "register_builtins fe features flags = register_builtins_with fe features flags []"

definition plugin_card ::
  "codec \<Rightarrow> (detector_key \<Rightarrow> nat) \<Rightarrow> rollout_policy \<Rightarrow> performance_store \<Rightarrow> 'd plugin \<Rightarrow> model_card" where
  "plugin_card cd now rollout store p = card_for cd (now (plugin_key p)) (pl_id p) (pl_version p) (pl_kind p) (pl_scope p)
     (pl_config_value p) (pl_model_digest p) rollout store"

definition catalogue ::
  "codec \<Rightarrow> (detector_key \<Rightarrow> nat) \<Rightarrow> (detector_key \<times> 'd plugin) list \<Rightarrow> rollout_policy \<Rightarrow> performance_store
    \<Rightarrow> (detector_key \<times> model_card) list option" where
  "catalogue cd now registry rollout store =
     (case model_registry_build (map (plugin_card cd now rollout store) (registry_detectors registry)) of
        Inl k \<Rightarrow> None | Inr m \<Rightarrow> Some m)"

definition link_roster ::
  "codec \<Rightarrow> (detector_key \<Rightarrow> nat) \<Rightarrow> (detector_key \<times> 'd plugin) list \<Rightarrow> rollout_policy \<Rightarrow> performance_store
    \<Rightarrow> (detector_key + 'd linked_detector list) option" where
  "link_roster cd now registry rollout store =
     do { models \<leftarrow> catalogue cd now registry rollout store; Some (plan_link cd registry models) }"

definition link_builtin_roster ::
  "float_env \<Rightarrow> codec \<Rightarrow> (detector_key \<Rightarrow> nat) \<Rightarrow> string list \<Rightarrow> feature_flags \<Rightarrow> rollout_policy \<Rightarrow> performance_store
    \<Rightarrow> (detector_key + builtin_detail linked_detector list) option" where
  "link_builtin_roster fe cd now features flags rollout store =
     do { registry \<leftarrow> register_builtins fe features flags; link_roster cd now registry rollout store }"

definition register_cross_block_builtins ::
  "float_env \<Rightarrow> codec \<Rightarrow> (detector_key \<Rightarrow> nat) \<Rightarrow> string list \<Rightarrow> feature_flags \<Rightarrow> rollout_policy \<Rightarrow> performance_store
    \<Rightarrow> (wash_state, builtin_detail) cross_block_states" where
  "register_cross_block_builtins fe cd now features flags rollout store =
     (if ''washtrading'' \<in> set features \<and> is_enabled flags ''wash-trading'' then
        (let d = washtrading_plugin fe;
             card = card_for cd (now (cd_id d, cd_version d)) (cd_id d) (cd_version d) Rule
               (Cross_block_scope (cd_window_blocks d)) washtrading_config_value None rollout store
         in roster_insert_detector (card_ref cd card) (mc_status card) d [])
      else [])"

fun collect_builds :: "codec \<Rightarrow> detector_ref list \<Rightarrow> build_parse_error + build list" where
  "collect_builds cd [] = Inr []"
| "collect_builds cd (r # rs) = (case build_from_ref cd r of
      Inl e \<Rightarrow> Inl e
    | Inr b \<Rightarrow> (case collect_builds cd rs of Inl e \<Rightarrow> Inl e | Inr bs \<Rightarrow> Inr (b # bs)))"

definition linked_builds ::
  "codec \<Rightarrow> 'd linked_detector list \<Rightarrow> ('s, 'd) cross_block_states \<Rightarrow> build_parse_error + build list" where
  "linked_builds cd plan cross = collect_builds cd (map ld_ref plan @ roster_detector_refs cross)"

section \<open>What is registered\<close>

definition builtin_plugins :: "float_env \<Rightarrow> (string \<times> builtin_detail plugin) list" where
  "builtin_plugins fe = [(''sandwich'', sandwich_plugin fe), (''arb'', arb_plugin fe), (''flashloan'', flashloan_plugin fe),
     (''liquidation'', liquidation_plugin fe), (''rugpull'', rugpull_plugin fe), (''poisoning'', poisoning_plugin),
     (''demo'', demo_plugin)]"

text \<open>The plugins of a table that are compiled in and switched on.\<close>

definition live_of :: "string list \<Rightarrow> feature_flags \<Rightarrow> (string \<times> 'd plugin) list \<Rightarrow> 'd plugin list" where
  "live_of features flags table = map snd (filter (\<lambda>(f, p). f \<in> set features \<and> is_enabled flags (pl_id p)) table)"

definition live_builtins :: "float_env \<Rightarrow> string list \<Rightarrow> feature_flags \<Rightarrow> builtin_detail plugin list" where
  "live_builtins fe features flags = live_of features flags (builtin_plugins fe)"

lemmas plugin_defs = sandwich_plugin_def arb_plugin_def flashloan_plugin_def liquidation_plugin_def
  rugpull_plugin_def poisoning_plugin_def demo_plugin_def rule_plugin_def

lemma cfg_register_append: "cfg_register features flags f p b = b @ live_of features flags [(f, p)]"
  by (simp add: cfg_register_def register_if_def live_of_def)

lemma live_of_Cons: "live_of features flags (x # y # ys) = live_of features flags [x] @ live_of features flags (y # ys)"
  by (simp add: live_of_def)

lemma fold_enabled: "fold (\<lambda>p b. if P p then b @ [p] else b) xs acc = acc @ filter P xs"
  by (induction xs arbitrary: acc) auto

lemma register_builtins_with_eq:
  "register_builtins_with fe features flags extra =
     (case registry_build (filter (\<lambda>p. is_enabled flags (pl_id p)) extra @ live_builtins fe features flags) of
        Inl k \<Rightarrow> None | Inr r \<Rightarrow> Some r)"
  by (simp only: register_builtins_with_def Let_def cfg_register_append fold_enabled live_builtins_def builtin_plugins_def
      live_of_Cons append_assoc append_Nil)

lemma distinct_map_filter_snd: "distinct (map g (map snd xs)) \<Longrightarrow> distinct (map g (map snd (filter P xs)))"
  by (induction xs) auto

lemma distinct_live: "distinct (map plugin_key (live_builtins fe features flags))"
proof -
  have "distinct (map plugin_key (map snd (builtin_plugins fe)))"
    by (simp add: builtin_plugins_def plugin_key_def plugin_defs)
  then show ?thesis unfolding live_builtins_def live_of_def by (rule distinct_map_filter_snd)
qed

lemma registry_build_Inr:
  assumes "distinct (map plugin_key ps)"
  obtains r where "registry_build ps = Inr r" "bm_sorted r" "set (map snd r) = set ps" "\<forall>(k, p)\<in>set r. plugin_key p = k"
proof (cases "registry_build ps")
  case (Inl k)
  with keyed_build_error[of "[]" plugin_key ps k] assms show ?thesis by (simp add: registry_build_def)
next
  case (Inr r)
  note e = keyed_build_entries[OF Inr[unfolded registry_build_def]]
  then have m: "(k, p) \<in> set r \<longleftrightarrow> p \<in> set ps \<and> plugin_key p = k" for k p by blast
  have "x \<in> set (map snd r) \<longleftrightarrow> (\<exists>k. (k, x) \<in> set r)" for x by force
  then have "set (map snd r) = set ps" using m by (auto simp del: split_paired_Ex)
  moreover have "\<forall>(k, p)\<in>set r. plugin_key p = k" using m by blast
  ultimately show ?thesis using that[of r] Inr e by blast
qed

section \<open>Linking always succeeds\<close>

definition linked_plugin ::
  "codec \<Rightarrow> (detector_key \<Rightarrow> nat) \<Rightarrow> rollout_policy \<Rightarrow> performance_store \<Rightarrow> 'd plugin \<Rightarrow> 'd linked_detector" where
  "linked_plugin cd now rollout store p = \<lparr>ld_plugin = p, ld_ref = card_ref cd (plugin_card cd now rollout store p),
     ld_status = status_of rollout (pl_id p)\<rparr>"

lemma plugin_card_fields:
  "card_key (plugin_card cd now rollout store p) = plugin_key p \<and> mc_status (plugin_card cd now rollout store p) = status_of rollout (pl_id p)"
  using card_for_fields[of cd "now (plugin_key p)" "pl_id p" "pl_version p" "pl_kind p" "pl_scope p"
      "pl_config_value p" "pl_model_digest p" rollout store]
  by (simp add: plugin_card_def card_key_def plugin_key_def)

lemma link_loop_all:
  "\<forall>p\<in>set ps. hm_get models (plugin_key p) = Some (plugin_card cd now rollout store p) \<Longrightarrow>
   link_loop cd models ps = Inr (map (linked_plugin cd now rollout store) ps)"
  by (induction ps) (simp_all add: linked_plugin_def plugin_card_fields)

lemma link_roster_total:
  assumes "bm_sorted r" "\<forall>(k, p)\<in>set r. plugin_key p = k"
  shows "link_roster cd now r rollout store = Some (Inr (map (linked_plugin cd now rollout store) (map snd r)))"
proof -
  let ?card = "plugin_card cd now rollout store" and ?ps = "registry_detectors r"
  have keys: "map card_key (map ?card ?ps) = map plugin_key ?ps" by (simp add: plugin_card_fields)
  have "map plugin_key ?ps = map fst r" using assms(2) by (auto simp: registry_detectors_def)
  then have d: "distinct (map plugin_key ?ps)" using assms(1) bm_sorted_distinct by (auto simp: hm_distinct_def)
  then have "distinct (map card_key (map ?card ?ps))" by (simp only: keys)
  then obtain m where m: "model_registry_build (map ?card ?ps) = Inr m"
    using keyed_build_error[of "[]" card_key "map ?card ?ps"] unfolding model_registry_build_def
    by (cases "keyed_build card_key [] (map ?card ?ps)") (simp_all add: map_of_eq_None_iff)
  note e = keyed_build_entries[OF m[unfolded model_registry_build_def]]
  then have "bm_sorted m" and s: "(k, c) \<in> set m \<longleftrightarrow> c \<in> set (map ?card ?ps) \<and> card_key c = k" for k c by blast+
  then have "hm_get m (plugin_key p) = Some (?card p)" if "p \<in> set ?ps" for p
    using s[of "plugin_key p" "?card p"] that hm_in_iff[OF bm_sorted_distinct, of m] by (simp add: plugin_card_fields)
  then have "link_loop cd m ?ps = Inr (map (linked_plugin cd now rollout store) ?ps)" by (intro link_loop_all) blast
  with m show ?thesis by (simp add: link_roster_def catalogue_def plan_link_def registry_detectors_def)
qed

lemma link_builtin_roster_eq:
  obtains r where "register_builtins fe features flags = Some r" "bm_sorted r"
    "set (map snd r) = set (live_builtins fe features flags)" "\<forall>(k, p)\<in>set r. plugin_key p = k"
    "\<forall>rollout store. link_builtin_roster fe cd now features flags rollout store =
       Some (Inr (map (linked_plugin cd now rollout store) (map snd r)))"
proof -
  obtain r where r: "registry_build (live_builtins fe features flags) = Inr r" "bm_sorted r"
    "set (map snd r) = set (live_builtins fe features flags)" "\<forall>(k, p)\<in>set r. plugin_key p = k"
    by (rule registry_build_Inr[OF distinct_live[of fe features flags]])
  then have b: "register_builtins fe features flags = Some r"
    by (simp add: register_builtins_def register_builtins_with_eq)
  with link_roster_total[OF r(2,4)] have "link_builtin_roster fe cd now features flags rollout store =
       Some (Inr (map (linked_plugin cd now rollout store) (map snd r)))" for rollout store
    by (simp add: link_builtin_roster_def)
  with that r b show ?thesis by blast
qed

section \<open>The contract of the built-in detectors\<close>

lemma evidence_ok_map_detail: "evidence_ok ctx (map_detail f ev) \<longleftrightarrow> evidence_ok ctx ev"
  by (simp add: evidence_ok_def map_detail_def)

lemma detector_plugin_map_detail:
  "detector_plugin d \<Longrightarrow> detector_plugin (\<lambda>ctx. map (map_detail f) (d ctx))"
  unfolding detector_plugin_def by (auto simp: evidence_ok_map_detail)

lemma builtin_contract:
  assumes "(f, p) \<in> set (builtin_plugins fe)" "f \<noteq> ''demo''"
  shows "detector_plugin (pl_detect p)"
proof -
  note c = sandwich.detector_plugin_axioms arb.detector_plugin_axioms flashloan.detector_plugin_axioms
    liquidation.detector_plugin_axioms rugpull.detector_plugin_axioms poisoning.detector_plugin_axioms
  from assms show ?thesis
    by (auto simp: builtin_plugins_def plugin_defs intro!: detector_plugin_map_detail c)
qed

lemma live_contract:
  "''demo'' \<notin> set features \<Longrightarrow> p \<in> set (live_builtins fe features flags) \<Longrightarrow> detector_plugin (pl_detect p)"
  by (auto simp: live_builtins_def live_of_def intro: builtin_contract)

lemma linked_contract:
  assumes "''demo'' \<notin> set features" "link_builtin_roster fe cd now features flags rollout store = Some (Inr plan)"
  shows "\<forall>l\<in>set plan. detector_plugin (pl_detect (ld_plugin l))"
proof -
  obtain r where "register_builtins fe features flags = Some r" "bm_sorted r"
    and r: "set (map snd r) = set (live_builtins fe features flags)" and "\<forall>(k, p)\<in>set r. plugin_key p = k"
    and link: "\<forall>ro st. link_builtin_roster fe cd now features flags ro st =
       Some (Inr (map (linked_plugin cd now ro st) (map snd r)))"
    by (rule link_builtin_roster_eq[of fe features flags cd now])
  have "plan = map (linked_plugin cd now rollout store) (map snd r)" using assms(2) link by simp
  then have "ld_plugin ` set plan = set (live_builtins fe features flags)"
    using r by (auto simp: linked_plugin_def image_image)
  then show ?thesis using live_contract[OF assms(1)] by blast
qed

section \<open>What a linked roster publishes\<close>

definition erased_events :: "float_env \<Rightarrow> detection_ctx \<Rightarrow> 'd linked_detector \<Rightarrow> 'd domain_event list" where
  "erased_events fe ctx l = concat (map (\<lambda>ev. map erase_id
     (fst (evidence_events fe (\<lambda>_. 0) 0 (ld_ref l) (ld_status l) (ctx_block ctx) (ctx_enrichment ctx) ev)))
     (pl_detect (ld_plugin l) ctx))"

lemma erased_emit_all:
  "map erase_id (fst (emit_all fe ids n l ctx evs)) = concat (map (\<lambda>ev. map erase_id
     (fst (evidence_events fe (\<lambda>_. 0) 0 (ld_ref l) (ld_status l) (ctx_block ctx) (ctx_enrichment ctx) ev))) evs)"
proof (induction evs arbitrary: n)
  case (Cons ev evs)
  have "map erase_id (fst (evidence_events fe ids n d s b e ev)) = map erase_id (fst (evidence_events fe (\<lambda>_. 0) 0 d s b e ev))" for d s b e
    by (simp add: evidence_events_def Let_def preliminary_alert_def)
  with Cons show ?case by (simp add: case_prod_beta Let_def)
qed simp

lemma erased_detection_events:
  "map erase_id (detection_events fe ids plan ctx) = concat (map (erased_events fe ctx) plan)"
proof -
  have "map erase_id (detection_events_from fe ids n plan ctx) = concat (map (erased_events fe ctx) plan)" for n
  proof (induction plan arbitrary: n)
    case (Cons l plan)
    then show ?case
      using erased_emit_all[of fe ids n l ctx "pl_detect (ld_plugin l) ctx"]
      by (simp add: case_prod_beta Let_def erased_events_def)
  qed simp
  then show ?thesis by (simp add: detection_events_def)
qed

text \<open>What remains of the events when the alerts of some detectors are suppressed.\<close>

fun keeps :: "detector_id list \<Rightarrow> 'd domain_event \<Rightarrow> bool" where
  "keeps shadowed (Triggered d) \<longleftrightarrow> True"
| "keeps shadowed (AlertCreated a) \<longleftrightarrow> dr_id (pa_detector a) \<notin> set shadowed"

lemma linked_ref_id: "dr_id (ld_ref (linked_plugin cd now rollout store p)) = pl_id p"
  using card_for_fields[of cd "now (plugin_key p)" "pl_id p" "pl_version p" "pl_kind p" "pl_scope p"
      "pl_config_value p" "pl_model_digest p" rollout store]
  by (simp add: linked_plugin_def card_ref_def build_to_ref_def card_build_def build_new_def plugin_card_def)

lemma linked_ref_rollout:
  "ld_ref (linked_plugin cd now rollout store p) = ld_ref (linked_plugin cd now rollout' store p)"
  using card_for_fields[of cd "now (plugin_key p)" "pl_id p" "pl_version p" "pl_kind p" "pl_scope p"
      "pl_config_value p" "pl_model_digest p" rollout store]
    card_for_fields[of cd "now (plugin_key p)" "pl_id p" "pl_version p" "pl_kind p" "pl_scope p"
      "pl_config_value p" "pl_model_digest p" rollout' store]
  by (simp add: linked_plugin_def card_ref_def build_to_ref_def card_build_def build_new_def plugin_card_def)

lemma erased_events_demoted:
  assumes "bm_sorted rollout"
  shows "erased_events fe ctx (linked_plugin cd now (with_demotions raw rollout) store p) =
    filter (keeps (csv_ids raw)) (erased_events fe ctx (linked_plugin cd now rollout store p))"
proof -
  let ?l = "linked_plugin cd now rollout store p" and ?l' = "linked_plugin cd now (with_demotions raw rollout) store p"
  have r: "ld_ref ?l' = ld_ref ?l" and i: "dr_id (ld_ref ?l) = pl_id p" and pl: "ld_plugin ?l' = p" "ld_plugin ?l = p"
    using linked_ref_rollout linked_ref_id by (auto simp: linked_plugin_def)
  have st: "ld_status ?l' = (if pl_id p \<in> set (csv_ids raw) then Shadow else ld_status ?l)"
    by (simp add: linked_plugin_def status_with_demotions[OF assms])
  have "map erase_id (fst (evidence_events fe (\<lambda>_. 0) 0 (ld_ref ?l') (ld_status ?l') b e ev)) =
      filter (keeps (csv_ids raw)) (map erase_id (fst (evidence_events fe (\<lambda>_. 0) 0 (ld_ref ?l) (ld_status ?l) b e ev)))"
    for b e and ev :: "'a evidence"
    by (simp add: evidence_events_def Let_def preliminary_alert_def r st i)
  then show ?thesis by (simp add: erased_events_def pl filter_concat comp_def)
qed

text \<open>
  C28: Every boot links. Whatever features a binary is built with, whatever the flags, the rollout policy
  and the stored measurements, neither registration nor cataloguing panics and linking finds a card for
  every detector: the plan holds exactly the built-in detectors that are compiled in and switched on,
  each once, in key order, staged by the policy, and the references of both rosters parse back to builds.
\<close>

theorem builtin_roster_links:
  assumes "codec_ok cd"
  shows "\<exists>plan. link_builtin_roster fe cd now features flags rollout store = Some (Inr plan) \<and>
    ld_plugin ` set plan = set (live_builtins fe features flags) \<and>
    sorted_wrt (<) (map (\<lambda>l. plugin_key (ld_plugin l)) plan) \<and>
    (\<forall>l\<in>set plan. ld_status l = status_of rollout (pl_id (ld_plugin l)) \<and> dr_id (ld_ref l) = pl_id (ld_plugin l)) \<and>
    (\<exists>builds. linked_builds cd plan (register_cross_block_builtins fe cd now features flags rollout store) = Inr builds)"
proof -
  obtain r where "register_builtins fe features flags = Some r" and r: "bm_sorted r"
    "set (map snd r) = set (live_builtins fe features flags)" "\<forall>(k, p)\<in>set r. plugin_key p = k"
    and link: "\<forall>ro st. link_builtin_roster fe cd now features flags ro st =
       Some (Inr (map (linked_plugin cd now ro st) (map snd r)))"
    by (rule link_builtin_roster_eq[of fe features flags cd now])
  let ?plan = "map (linked_plugin cd now rollout store) (map snd r)"
  have "map (\<lambda>l. plugin_key (ld_plugin l)) ?plan = map fst r"
    using r(3) by (auto simp: linked_plugin_def)
  with r(1) have s: "sorted_wrt (<) (map (\<lambda>l. plugin_key (ld_plugin l)) ?plan)" by (simp only: bm_sorted_def)
  have h: "length (bd_config_hash (card_build (card_for cd t i v k sc config g rollout store))) = 32" for t i v k sc config g
    using card_for_fields[of cd t i v k sc config g rollout store] assms
    by (simp add: card_build_def build_new_def codec_ok_def for_build_def with_model_artifact_def split: option.split)
  have ok: "build_from_ref cd (card_ref cd (card_for cd t i v k sc config g rollout store)) =
      Inr (card_build (card_for cd t i v k sc config g rollout store))" for t i v k sc config g
    unfolding card_ref_def by (rule build_ref_roundtrip[OF assms h])
  let ?refs = "map ld_ref ?plan @ roster_detector_refs (register_cross_block_builtins fe cd now features flags rollout store)"
  have "\<forall>x\<in>set ?refs. \<exists>b. build_from_ref cd x = Inr b"
    by (auto simp: linked_plugin_def plugin_card_def ok register_cross_block_builtins_def roster_insert_detector_def
        roster_detector_refs_def Let_def)
  moreover have "\<forall>x\<in>set refs. \<exists>b. build_from_ref cd x = Inr b \<Longrightarrow> \<exists>bs. collect_builds cd refs = Inr bs" for refs
    by (induction refs) auto
  ultimately have "\<exists>builds. collect_builds cd ?refs = Inr builds" by blast
  moreover have "ld_plugin ` set ?plan = set (live_builtins fe features flags)"
    using r(2) by (auto simp: linked_plugin_def image_image)
  moreover have "\<forall>l\<in>set ?plan. ld_status l = status_of rollout (pl_id (ld_plugin l)) \<and> dr_id (ld_ref l) = pl_id (ld_plugin l)"
    by (auto simp: linked_ref_id) (simp_all add: linked_plugin_def)
  ultimately show ?thesis using link s unfolding linked_builds_def by blast
qed

text \<open>
  Shadowing a detector removes its alerts and nothing else. Under a demotion list the linked roster
  publishes, for every block, the events it would have published without the list, minus the alerts of
  the detectors named in it: every trigger is still recorded, no alert is added, none of another
  detector is lost and the order is kept.
\<close>

theorem demotion_only_quiets:
  assumes "bm_sorted rollout"
    "link_builtin_roster fe cd now features flags rollout store = Some (Inr plan)"
    "link_builtin_roster fe cd now features flags (with_demotions raw rollout) store = Some (Inr plan')"
  shows "map erase_id (detection_events fe ids' plan' ctx) =
    filter (keeps (csv_ids raw)) (map erase_id (detection_events fe ids plan ctx))"
proof -
  obtain r where "register_builtins fe features flags = Some r" "bm_sorted r"
    and r: "set (map snd r) = set (live_builtins fe features flags)" and "\<forall>(k, p)\<in>set r. plugin_key p = k"
    and link: "\<forall>ro st. link_builtin_roster fe cd now features flags ro st =
       Some (Inr (map (linked_plugin cd now ro st) (map snd r)))"
    by (rule link_builtin_roster_eq[of fe features flags cd now])
  have "plan = map (linked_plugin cd now rollout store) (map snd r)"
    "plan' = map (linked_plugin cd now (with_demotions raw rollout) store) (map snd r)"
    using assms(2,3) link by simp_all
  then show ?thesis
    by (simp add: erased_detection_events filter_concat erased_events_demoted[OF assms(1)] comp_def)
qed

text \<open>
  Everything the built-in roster publishes is backed by the block, as long as the demo detector is
  not compiled in: a trigger names this block and at least one of its transactions at a confidence
  between zero and one and carries the reference of a linked detector; an alert is provisional, comes
  from an active detector, has the severity of its impact and names only senders and recipients of this
  block's transactions; every alert directly follows its trigger. On a header-only block, which is what
  the live source delivers, nothing is published at all.
\<close>

theorem builtin_events_backed:
  assumes "en_wf (ctx_enrichment ctx)" "''demo'' \<notin> set features"
    "link_builtin_roster fe cd now features flags rollout store = Some (Inr plan)"
  shows "paired (detection_events fe ids plan ctx) \<and>
    (\<forall>d. Triggered d \<in> set (detection_events fe ids plan ctx) \<longrightarrow>
       dt_block d = ctx_block ctx \<and> dt_detector d \<in> ld_ref ` set plan \<and> dt_txs d \<noteq> [] \<and>
       set (dt_txs d) \<subseteq> set (ctx_txs ctx) \<and> conf_ok (dt_raw_confidence d)) \<and>
    (\<forall>a. AlertCreated a \<in> set (detection_events fe ids plan ctx) \<longrightarrow>
       pa_provisional a \<and> (\<exists>l\<in>set plan. ld_status l = Active \<and> pa_detector a = ld_ref l) \<and>
       pa_severity a = severity_band (pa_impact_usd a) (pa_confidence a) \<and>
       pa_suggested_action a = suggested_action_for (pa_severity a) \<and>
       (\<forall>x\<in>set (pa_addresses a). \<exists>t. en_tx (ctx_enrichment ctx) (ta_hash t) = Some t \<and>
          ta_hash t \<in> set (ctx_txs ctx) \<and> (x = ta_from t \<or> ta_to t = Some x))) \<and>
    (ctx_enrichment ctx = en_default \<longrightarrow> detection_events fe ids plan ctx = [])"
proof -
  note p = linked_contract[OF assms(2,3)]
  have "detection_events fe ids plan ctx = []" if "ctx_enrichment ctx = en_default"
  proof -
    have "\<forall>l\<in>set plan. pl_detect (ld_plugin l) ctx = []"
      using p detector_plugin.no_evidence_without_enrichment[OF _ that] by blast
    then have "map erase_id (detection_events fe ids plan ctx) = []"
      by (simp add: erased_detection_events erased_events_def)
    then show ?thesis by simp
  qed
  with detection_events_contract[OF assms(1) p, of fe ids] show ?thesis by blast
qed

section \<open>Witnesses\<close>

text \<open>A block with a transaction that is not decoded, and a boot with three features.\<close>

definition ex_features :: "string list" where
  "ex_features = [''sandwich'', ''arb'', ''flashloan'']"

theorem builtin_roster_links_witness:
  "\<exists>plan. link_builtin_roster exact_env ex_codec (\<lambda>_. 0) ex_features all_enabled rollout_builtin [] = Some (Inr plan) \<and>
    pl_id ` ld_plugin ` set plan = {''sandwich'', ''arb'', ''flashloan''}"
proof -
  obtain plan where p: "link_builtin_roster exact_env ex_codec (\<lambda>_. 0) ex_features all_enabled rollout_builtin [] = Some (Inr plan)"
    "ld_plugin ` set plan = set (live_builtins exact_env ex_features all_enabled)"
    using builtin_roster_links[OF ex_codec_ok, of exact_env "\<lambda>_. 0" ex_features all_enabled rollout_builtin "[]"] by blast
  have "live_builtins exact_env ex_features all_enabled = [sandwich_plugin exact_env, arb_plugin exact_env, flashloan_plugin exact_env]"
    by (simp add: live_builtins_def live_of_def builtin_plugins_def ex_features_def is_enabled_def all_enabled_def flags_with_default_def)
  then have "pl_id ` set (live_builtins exact_env ex_features all_enabled) = {''sandwich'', ''arb'', ''flashloan''}"
    by (simp add: plugin_defs)
  with p show ?thesis by auto
qed

theorem demotion_only_quiets_witness:
  "\<exists>plan plan'. link_builtin_roster exact_env ex_codec (\<lambda>_. 0) ex_features all_enabled [] [] = Some (Inr plan) \<and>
    link_builtin_roster exact_env ex_codec (\<lambda>_. 0) ex_features all_enabled (with_demotions ''arb'' []) [] = Some (Inr plan') \<and>
    map erase_id (detection_events exact_env (\<lambda>_. 0) plan' (ex_next 4 40)) =
    filter (keeps (csv_ids ''arb'')) (map erase_id (detection_events exact_env (\<lambda>_. 0) plan (ex_next 4 40)))"
proof -
  obtain r where "register_builtins exact_env ex_features all_enabled = Some r" "bm_sorted r"
    "set (map snd r) = set (live_builtins exact_env ex_features all_enabled)" "\<forall>(k, p)\<in>set r. plugin_key p = k"
    and link: "\<forall>ro st. link_builtin_roster exact_env ex_codec (\<lambda>_. 0) ex_features all_enabled ro st =
       Some (Inr (map (linked_plugin ex_codec (\<lambda>_. 0) ro st) (map snd r)))"
    by (rule link_builtin_roster_eq[of exact_env ex_features all_enabled ex_codec "\<lambda>_. 0"])
  note l = link[rule_format, of "[]" "[]"] link[rule_format, of "with_demotions ''arb'' []" "[]"]
  from demotion_only_quiets[OF bm_sorted_Nil l, of "\<lambda>_. 0" "ex_next 4 40" "\<lambda>_. 0"] l show ?thesis by blast
qed

theorem builtin_events_backed_witness:
  "\<exists>plan. link_builtin_roster exact_env ex_codec (\<lambda>_. 0) ex_features all_enabled [] [] = Some (Inr plan) \<and>
    detection_events exact_env (\<lambda>_. 0) plan (ex_next 4 40) = []"
proof -
  obtain r where "register_builtins exact_env ex_features all_enabled = Some r" "bm_sorted r"
    "set (map snd r) = set (live_builtins exact_env ex_features all_enabled)" "\<forall>(k, p)\<in>set r. plugin_key p = k"
    and link: "\<forall>ro st. link_builtin_roster exact_env ex_codec (\<lambda>_. 0) ex_features all_enabled ro st =
       Some (Inr (map (linked_plugin ex_codec (\<lambda>_. 0) ro st) (map snd r)))"
    by (rule link_builtin_roster_eq[of exact_env ex_features all_enabled ex_codec "\<lambda>_. 0"])
  have e: "ctx_enrichment (ex_next 4 40) = en_default" by (simp add: ex_next_def)
  then have wf: "en_wf (ctx_enrichment (ex_next 4 40))" by (simp add: en_wf_default)
  have d: "''demo'' \<notin> set ex_features" by (simp add: ex_features_def)
  note l = link[rule_format, of "[]" "[]"]
  from builtin_events_backed[OF wf d l, of "\<lambda>_. 0"] e l show ?thesis by blast
qed

end
