(* ===== verification/Scheduler.thy ===== *)
theory Scheduler
  imports Builtin_Roster Ingestion_Pipeline
begin

text \<open>
  The scheduler of the detection service (\<open>crates/detection/src/scheduler.rs\<close>): decoding of a record into
  work, the core that runs both rosters over a block or rewinds them, publication, and the hand-over of
  commit tokens.

  A publication is the answer of the broker to the \<open>n\<close>-th attempt, \<open>pub n\<close>, after the retries that
  \<open>publish_resilient\<close> makes: delivered, or given up as permanent or because of shutdown. The boundary
  events of a block are an argument. The channels deliver in order; an item the loop does not get to
  because of shutdown is absent from the work list. The clocks of the latency metric and the tracing are
  left out.
\<close>

section \<open>Decoding\<close>

datatype block_event = Assembled detection_ctx | Reverted block_reverted

definition header_ctx :: "u64 \<Rightarrow> block_ref \<Rightarrow> detection_ctx" where
  "header_ctx chain b = \<lparr>ctx_chain = chain, ctx_block = b, ctx_txs = [], ctx_enrichment = en_default\<rparr>"

definition block_event_of :: "u64 \<Rightarrow> chain_event \<Rightarrow> block_event option" where
  "block_event_of chain payload = (case payload of
      BlockAssembled b n traces \<Rightarrow> Some (Assembled (header_ctx chain b))
    | BlockReverted r \<Rightarrow> Some (Reverted r)
    | _ \<Rightarrow> None)"

datatype bus_record = NoPayload | Undecodable | Envelope u64 chain_event

text \<open>\<open>None\<close>: skipped without a commit; \<open>Some None\<close>: commit only.\<close>

definition consume_record :: "u64 \<Rightarrow> bus_record \<Rightarrow> block_event option option" where
  "consume_record chain r = (case r of
      NoPayload \<Rightarrow> Some None
    | Undecodable \<Rightarrow> Some None
    | Envelope c payload \<Rightarrow>
        if c \<noteq> chain then Some None
        else (case block_event_of c payload of None \<Rightarrow> None | Some ev \<Rightarrow> Some (Some ev)))"

definition consume_all :: "u64 \<Rightarrow> (bus_record \<times> 't) list \<Rightarrow> (block_event option \<times> 't) list" where
  "consume_all chain rs = List.map_filter (\<lambda>(r, t). map_option (\<lambda>w. (w, t)) (consume_record chain r)) rs"

section \<open>The core\<close>

record 's scheduler =
  sd_plan :: "builtin_detail linked_detector list"
  sd_cross_block :: "('s, builtin_detail) cross_block_states"

record process_outcome =
  po_events :: "builtin_detail domain_event list"
  po_detector_runs :: nat

text \<open>
  \<open>pids\<close> and \<open>ids\<close> are the alert identifiers drawn by the parallel fan-out and by the serial slots,
  \<open>boundary\<close> the events that ride along; \<open>None\<close> is the panic of a slot without a snapshot.
\<close>

definition process ::
  "float_env \<Rightarrow> (builtin_detail linked_detector \<Rightarrow> nat \<Rightarrow> uuid) \<Rightarrow> (nat \<Rightarrow> uuid) \<Rightarrow> builtin_detail domain_event list
    \<Rightarrow> block_event \<Rightarrow> 's scheduler \<Rightarrow> (process_outcome \<times> 's scheduler) option" where
  "process fe pids ids boundary ev sched = (case ev of
      Assembled ctx \<Rightarrow>
        do {
          let events = detection_events_parallel fe pids (sd_plan sched) ctx;
          let detector_runs = length (sd_plan sched) + roster_len (sd_cross_block sched);
          (es, ros) \<leftarrow> roster_observe_and_detect fe ids ctx (sd_cross_block sched);
          Some (\<lparr>po_events = events @ es @ boundary, po_detector_runs = detector_runs\<rparr>,
                sched\<lparr>sd_cross_block := ros\<rparr>)
        }
    | Reverted r \<Rightarrow>
        (let (rewind, ros) = roster_apply_reverts [r] (sd_cross_block sched)
         in Some (\<lparr>po_events = [], po_detector_runs = 0\<rparr>, sched\<lparr>sd_cross_block := ros\<rparr>)))"

section \<open>Publication and commit\<close>

datatype delivery = Delivered | Permanent | Shutdown

datatype published = Detection "builtin_detail domain_event" | DetectorRun nat

fun publish_loop :: "(nat \<Rightarrow> delivery) \<Rightarrow> nat \<Rightarrow> builtin_detail domain_event list \<Rightarrow> published list \<times> nat \<times> delivery" where
  "publish_loop pub n [] = ([], n, Delivered)"
| "publish_loop pub n (e # es) =
     (if pub n = Delivered then let (out, n', r) = publish_loop pub (n + 1) es in (Detection e # out, n', r)
      else ([], n + 1, pub n))"

definition handle_one ::
  "float_env \<Rightarrow> (builtin_detail linked_detector \<Rightarrow> nat \<Rightarrow> uuid) \<Rightarrow> (nat \<Rightarrow> uuid) \<Rightarrow> builtin_detail domain_event list
    \<Rightarrow> (nat \<Rightarrow> delivery) \<Rightarrow> nat \<Rightarrow> block_event \<Rightarrow> 's scheduler \<Rightarrow> (published list \<times> nat \<times> delivery \<times> 's scheduler) option" where
  "handle_one fe pids ids boundary pub n ev sched =
     do {
       (outcome, sched') \<leftarrow> process fe pids ids boundary ev sched;
       let (out, n', delivered) = publish_loop pub n (po_events outcome);
       if delivered = Delivered \<and> 0 < po_detector_runs outcome
       then Some (if pub n' = Delivered then out @ [DetectorRun (po_detector_runs outcome)] else out, n' + 1, delivered, sched')
       else Some (out, n', delivered, sched')
     }"

text \<open>The identifiers and the boundary events of the successive blocks are streams.\<close>

record run_env =
  re_pids :: "nat \<Rightarrow> builtin_detail linked_detector \<Rightarrow> nat \<Rightarrow> uuid"
  re_ids :: "nat \<Rightarrow> nat \<Rightarrow> uuid"
  re_boundary :: "nat \<Rightarrow> builtin_detail domain_event list"
  re_pub :: "nat \<Rightarrow> delivery"
  re_done_open :: "nat \<Rightarrow> bool"

fun run_loop ::
  "float_env \<Rightarrow> run_env \<Rightarrow> nat \<Rightarrow> nat \<Rightarrow> (block_event option \<times> 't) list \<Rightarrow> 's scheduler
    \<Rightarrow> (published list \<times> 't list \<times> 's scheduler) option" where
  "run_loop fe env k n [] sched = Some ([], [], sched)"
| "run_loop fe env k n ((None, token) # work) sched =
     (if \<not> re_done_open env k then Some ([], [], sched)
      else do {
        (out, tokens, sched') \<leftarrow> run_loop fe env (k + 1) n work sched;
        Some (out, token # tokens, sched')
      })"
| "run_loop fe env k n ((Some ev, token) # work) sched =
     do {
       (out, n', delivered, sched') \<leftarrow> handle_one fe (re_pids env k) (re_ids env k) (re_boundary env k) (re_pub env) n ev sched;
       if delivered = Shutdown then Some (out, [], sched')
       else if \<not> re_done_open env k then Some (out, [], sched')
       else do {
         (out', tokens, sched'') \<leftarrow> run_loop fe env (k + 1) n' work sched';
         Some (out @ out', token # tokens, sched'')
       }
     }"

record offsets =
  of_topic :: string
  of_partition :: nat
  of_offset :: nat

definition committed :: "offsets list \<Rightarrow> string \<times> nat \<Rightarrow> nat option" where
  "committed tokens = fold (\<lambda>q m. m((of_topic q, of_partition q) \<mapsto> of_offset q + 1)) tokens Map.empty"

section \<open>Nothing is committed before it is published\<close>

lemma process_total: "\<exists>outcome sched'. process fe pids ids boundary ev sched = Some (outcome, sched')"
proof (cases ev)
  case (Assembled ctx)
  obtain es where "roster_observe_from fe ids 0 ctx (sd_cross_block sched) =
      Some (es, map (\<lambda>(k, sl). (k, slot_fold ctx sl)) (sd_cross_block sched))"
    using roster_observe_from_slots by blast
  with Assembled show ?thesis by (simp add: process_def roster_observe_and_detect_def)
next
  case (Reverted r)
  then show ?thesis by (simp add: process_def case_prod_beta Let_def)
qed

text \<open>What each item of work produces when all of them are processed in order.\<close>

fun outcomes :: "float_env \<Rightarrow> run_env \<Rightarrow> nat \<Rightarrow> (block_event option \<times> 't) list \<Rightarrow> 's scheduler \<Rightarrow> builtin_detail domain_event list list" where
  "outcomes fe env k [] sched = []"
| "outcomes fe env k ((None, token) # work) sched = [] # outcomes fe env (k + 1) work sched"
| "outcomes fe env k ((Some ev, token) # work) sched =
     (case process fe (re_pids env k) (re_ids env k) (re_boundary env k) ev sched of
        None \<Rightarrow> []
      | Some (outcome, sched') \<Rightarrow> po_events outcome # outcomes fe env (k + 1) work sched')"

lemma length_outcomes [simp]: "length (outcomes fe env k work sched) = length work"
proof (induction fe env k work sched rule: outcomes.induct)
  case (3 fe env k ev token work sched)
  then show ?case using process_total[of fe "re_pids env k" "re_ids env k" "re_boundary env k" ev sched] by auto
qed auto

definition detections :: "published list \<Rightarrow> builtin_detail domain_event list" where
  "detections out = List.map_filter (\<lambda>p. case p of Detection e \<Rightarrow> Some e | DetectorRun n \<Rightarrow> None) out"

lemma detections_simps [simp]:
  "detections [] = []" "detections (Detection e # out) = e # detections out"
  "detections (DetectorRun n # out) = detections out" "detections (a @ b) = detections a @ detections b"
  by (simp_all add: detections_def map_filter_def)

lemma publish_loop_spec:
  "publish_loop pub n es = (out, n', r) \<Longrightarrow> (r = Delivered \<longrightarrow> detections out = es) \<and> prefix (detections out) es \<and>
   (r = Permanent \<longrightarrow> (\<exists>m. pub m = Permanent))"
proof (induction es arbitrary: n out n' r)
  case (Cons e es)
  show ?case
  proof (cases "pub n = Delivered")
    case True
    obtain out1 n1 r1 where p: "publish_loop pub (n + 1) es = (out1, n1, r1)" by (metis prod_cases3)
    with True Cons.prems have "out = Detection e # out1" "r = r1" by auto
    with Cons.IH[OF p] show ?thesis by simp
  next
    case False
    with Cons.prems show ?thesis by auto
  qed
qed auto

lemma handle_one_spec:
  assumes "process fe pids ids boundary ev sched = Some (outcome, sched')" "\<forall>m. pub m \<noteq> Permanent"
  obtains out n' r where "handle_one fe pids ids boundary pub n ev sched = Some (out, n', r, sched')"
    "r = Delivered \<and> detections out = po_events outcome \<or> r = Shutdown \<and> prefix (detections out) (po_events outcome)"
proof -
  obtain out n' r where p: "publish_loop pub n (po_events outcome) = (out, n', r)" by (metis prod_cases3)
  note s = publish_loop_spec[OF p]
  then have r: "r = Delivered \<and> detections out = po_events outcome \<or> r = Shutdown \<and> prefix (detections out) (po_events outcome)"
    using assms(2) by (cases r) auto
  show ?thesis
  proof (cases "r = Delivered \<and> 0 < po_detector_runs outcome")
    case True
    then show ?thesis
      using that[of "if pub n' = Delivered then out @ [DetectorRun (po_detector_runs outcome)] else out" "n' + 1" Delivered]
        r assms(1) p by (simp add: handle_one_def)
  next
    case False
    then show ?thesis using that[of out n' r] r assms(1) p by (simp add: handle_one_def)
  qed
qed

lemma run_loop_spec:
  assumes "\<forall>m. re_pub env m \<noteq> Permanent"
  shows "\<exists>out tokens sched' rest. run_loop fe env k n work sched = Some (out, tokens, sched') \<and>
    tokens = take (length tokens) (map snd work) \<and>
    detections out = concat (take (length tokens) (outcomes fe env k work sched)) @ rest \<and>
    prefix rest (concat (take 1 (drop (length tokens) (outcomes fe env k work sched))))"
proof (induction work arbitrary: k n sched)
  case (Cons item work)
  obtain w token where item: "item = (w, token)" by fastforce
  show ?case
  proof (cases w)
    case None
    show ?thesis
    proof (cases "re_done_open env k")
      case True
      from Cons.IH[of "k + 1" n sched] obtain out tokens sched' rest where
        "run_loop fe env (k + 1) n work sched = Some (out, tokens, sched')" "tokens = take (length tokens) (map snd work)"
        "detections out = concat (take (length tokens) (outcomes fe env (k + 1) work sched)) @ rest"
        "prefix rest (concat (take 1 (drop (length tokens) (outcomes fe env (k + 1) work sched))))" by blast
      with True show ?thesis
        by (intro exI[of _ out] exI[of _ "token # tokens"] exI[of _ sched'] exI[of _ rest]) (simp add: item None)
    qed (simp add: item None)
  next
    case (Some ev)
    obtain oc s1 where oc: "process fe (re_pids env k) (re_ids env k) (re_boundary env k) ev sched = Some (oc, s1)"
      using process_total by blast
    obtain out1 n1 r where h: "handle_one fe (re_pids env k) (re_ids env k) (re_boundary env k) (re_pub env) n ev sched = Some (out1, n1, r, s1)"
      and r: "r = Delivered \<and> detections out1 = po_events oc \<or> r = Shutdown \<and> prefix (detections out1) (po_events oc)"
      by (rule handle_one_spec[OF oc assms])
    show ?thesis
    proof (cases "r = Delivered \<and> re_done_open env k")
      case False
      with r h have "run_loop fe env k n (item # work) sched = Some (out1, [], s1)" by (auto simp: item Some)
      moreover have "prefix (detections out1) (po_events oc)" using r by auto
      ultimately show ?thesis by (simp add: item Some oc)
    next
      case True
      from Cons.IH[of "k + 1" n1 s1] obtain out tokens sched' rest where
        "run_loop fe env (k + 1) n1 work s1 = Some (out, tokens, sched')" "tokens = take (length tokens) (map snd work)"
        "detections out = concat (take (length tokens) (outcomes fe env (k + 1) work s1)) @ rest"
        "prefix rest (concat (take 1 (drop (length tokens) (outcomes fe env (k + 1) work s1))))" by blast
      with True r h oc show ?thesis
        by (intro exI[of _ "out1 @ out"] exI[of _ "token # tokens"] exI[of _ sched'] exI[of _ rest]) (simp add: item Some)
    qed
  qed
qed simp

text \<open>The offsets of each partition ascend, as the broker delivers them.\<close>

definition ascending_offsets :: "offsets list \<Rightarrow> bool" where
  "ascending_offsets qs \<longleftrightarrow> sorted_wrt (\<lambda>p q. of_topic p = of_topic q \<and> of_partition p = of_partition q \<longrightarrow>
     of_offset p < of_offset q) qs"

lemma committed_member:
  "committed tokens (t, p) = Some c \<Longrightarrow> \<exists>q\<in>set tokens. of_topic q = t \<and> of_partition q = p \<and> c = of_offset q + 1"
proof (induction tokens rule: rev_induct)
  case (snoc q tokens)
  then show ?case by (auto simp: committed_def split: if_splits)
qed (simp add: committed_def)

lemma committed_below:
  assumes asc: "ascending_offsets qs" and i: "i < length qs"
    and c: "committed (take j qs) (of_topic (qs ! i), of_partition (qs ! i)) = Some c" "of_offset (qs ! i) < c"
  shows "i < j"
proof (rule ccontr)
  assume "\<not> i < j"
  from committed_member[OF c(1)] obtain q where q: "q \<in> set (take j qs)" "of_topic q = of_topic (qs ! i)"
    "of_partition q = of_partition (qs ! i)" "c = of_offset q + 1" by blast
  then obtain l where l: "l < j" "l < length qs" "q = qs ! l" by (auto simp: in_set_conv_nth)
  with \<open>\<not> i < j\<close> i asc have "of_offset (qs ! l) < of_offset (qs ! i)"
    using q by (auto simp: ascending_offsets_def sorted_wrt_iff_nth_less)
  with q(4) l c(2) show False by simp
qed

text \<open>
  C10: A commit never overtakes publication. The scheduler never panics, and whatever the broker answers,
  short of rejecting an event for good, and whenever shutdown or a closed channel interrupts it, every
  record of a partition below the committed offset has all of its events on the wire; what has been
  published is the events of the committed items in order, followed by a prefix of those of the next.
\<close>

theorem commit_follows_publication:
  assumes "\<forall>m. re_pub env m \<noteq> Permanent" "ascending_offsets (map snd work)"
  shows "\<exists>out tokens sched' rest. run_loop fe env 0 0 work sched = Some (out, tokens, sched') \<and>
    tokens = take (length tokens) (map snd work) \<and>
    detections out = concat (take (length tokens) (outcomes fe env 0 work sched)) @ rest \<and>
    prefix rest (concat (take 1 (drop (length tokens) (outcomes fe env 0 work sched)))) \<and>
    (\<forall>i<length work. \<forall>c. committed tokens (of_topic (snd (work ! i)), of_partition (snd (work ! i))) = Some c \<longrightarrow>
       of_offset (snd (work ! i)) < c \<longrightarrow> set (outcomes fe env 0 work sched ! i) \<subseteq> set (detections out))"
proof -
  let ?os = "outcomes fe env 0 work sched"
  from run_loop_spec[OF assms(1), of fe 0 0 work sched] obtain out tokens sched' rest where
    r: "run_loop fe env 0 0 work sched = Some (out, tokens, sched')" and t: "tokens = take (length tokens) (map snd work)"
    and d: "detections out = concat (take (length tokens) ?os) @ rest"
    and p: "prefix rest (concat (take 1 (drop (length tokens) ?os)))" by blast
  have "set (?os ! i) \<subseteq> set (detections out)"
    if i: "i < length work" and c: "committed tokens (of_topic (snd (work ! i)), of_partition (snd (work ! i))) = Some c"
      "of_offset (snd (work ! i)) < c" for i c
  proof -
    have "i < length tokens"
      using committed_below[OF assms(2), of i "length tokens" c] i c t by simp
    then have "?os ! i \<in> set (take (length tokens) ?os)" using i by (auto simp: in_set_conv_nth)
    then show ?thesis by (auto simp: d)
  qed
  with r t d p show ?thesis by blast
qed

section \<open>The detectors behind the published log\<close>

text \<open>The effect of one item of work on the cross-block roster.\<close>

fun event_step :: "block_event \<Rightarrow> ('s, 'd) cross_block_states \<Rightarrow> ('s, 'd) cross_block_states" where
  "event_step (Assembled ctx) ros = map (\<lambda>(k, sl). (k, slot_fold ctx sl)) ros"
| "event_step (Reverted r) ros = snd (roster_apply_reverts [r] ros)"

lemma process_step:
  "\<exists>outcome. process fe pids ids boundary ev sched = Some (outcome, sched\<lparr>sd_cross_block := event_step ev (sd_cross_block sched)\<rparr>)"
proof (cases ev)
  case (Assembled ctx)
  obtain es where "roster_observe_from fe ids 0 ctx (sd_cross_block sched) =
      Some (es, map (\<lambda>(k, sl). (k, slot_fold ctx sl)) (sd_cross_block sched))"
    using roster_observe_from_slots by blast
  with Assembled show ?thesis by (simp add: process_def roster_observe_and_detect_def)
next
  case (Reverted r)
  then show ?thesis by (simp add: process_def case_prod_beta Let_def)
qed

lemma publish_loop_delivered: "\<forall>m. pub m = Delivered \<Longrightarrow> \<exists>out n'. publish_loop pub n es = (out, n', Delivered)"
proof (induction es arbitrary: n)
  case (Cons e es)
  then obtain out n' where "publish_loop pub (n + 1) es = (out, n', Delivered)" by blast
  moreover have "pub n = Delivered" using Cons.prems by blast
  ultimately show ?case by simp
qed simp

lemma run_loop_delivered:
  assumes "\<forall>m. re_pub env m = Delivered" "\<forall>k. re_done_open env k"
  shows "\<exists>out. run_loop fe env k n work sched = Some (out, map snd work,
    sched\<lparr>sd_cross_block := fold event_step (List.map_filter fst work) (sd_cross_block sched)\<rparr>)"
proof (induction work arbitrary: k n sched)
  case Nil
  then show ?case by (simp add: map_filter_def)
next
  case (Cons item work)
  obtain w token where item: "item = (w, token)" by fastforce
  show ?case
  proof (cases w)
    case None
    with Cons[of "k + 1" n sched] assms(2) item show ?thesis by (auto simp: map_filter_def)
  next
    case (Some ev)
    obtain oc where p: "process fe (re_pids env k) (re_ids env k) (re_boundary env k) ev sched =
        Some (oc, sched\<lparr>sd_cross_block := event_step ev (sd_cross_block sched)\<rparr>)" using process_step by blast
    obtain out n' where "publish_loop (re_pub env) n (po_events oc) = (out, n', Delivered)"
      using publish_loop_delivered[OF assms(1)] by blast
    with p have "\<exists>out n'. handle_one fe (re_pids env k) (re_ids env k) (re_boundary env k) (re_pub env) n ev sched =
        Some (out, n', Delivered, sched\<lparr>sd_cross_block := event_step ev (sd_cross_block sched)\<rparr>)"
      by (simp add: handle_one_def)
    then obtain out n' where h: "handle_one fe (re_pids env k) (re_ids env k) (re_boundary env k) (re_pub env) n ev sched =
        Some (out, n', Delivered, sched\<lparr>sd_cross_block := event_step ev (sd_cross_block sched)\<rparr>)" by blast
    from Cons[of "k + 1" n' "sched\<lparr>sd_cross_block := event_step ev (sd_cross_block sched)\<rparr>"] h assms(2)
    show ?thesis by (auto simp: item Some map_filter_def)
  qed
qed

text \<open>The service as it is wired: every event of the pipeline's log reaches the scheduler, in order.\<close>

definition work_of_log :: "u64 \<Rightarrow> chain_event list \<Rightarrow> (block_event option \<times> unit) list" where
  "work_of_log chain evs = consume_all chain (map (\<lambda>e. (Envelope chain e, ())) evs)"

definition held_blocks :: "('s, 'd) cross_block_states \<Rightarrow> block_ref list list" where
  "held_blocks ros = map (\<lambda>(k, sl). map ver_block (versions (sl_state sl))) ros"

definition all_delivered :: run_env where
  "all_delivered = \<lparr>re_pids = (\<lambda>_ _ _. 0), re_ids = (\<lambda>_ _. 0), re_boundary = (\<lambda>_. []), re_pub = (\<lambda>_. Delivered), re_done_open = (\<lambda>_. True)\<rparr>"

lemma work_events: "List.map_filter fst (work_of_log chain evs) = List.map_filter (block_event_of chain) evs"
  by (induction evs) (auto simp: work_of_log_def consume_all_def consume_record_def map_filter_def split: option.splits)

lemma ingest_loop_stored:
  assumes "add_block h t = Some (Inr (Canonical u), t')"
  shows "ingest_loop src tr [h] t evs = Some (None, t', evs @ observed_events h tr @ canonical_events u)"
  using assms by (subst ingest_loop.simps, simp, subst ingest_loop.simps) simp

lemma ingest_loop_forked:
  assumes "add_block h t = Some (Inr Fork, t')"
  shows "ingest_loop src tr [h] t evs = Some (None, t', evs @ observed_events h tr)"
  using assms by (subst ingest_loop.simps, simp, subst ingest_loop.simps) simp

lemma pipeline_run_canonical:
  assumes "pipeline_run feed depth p" "h \<in> set feed" "\<not> pp_progress p" "add_block h (pp_tree p) = Some (Inr (Canonical u), t')"
  shows "pipeline_run feed depth (p\<lparr>pp_tree := t', pp_log := pp_log p @ observed_events h (pp_trace_available p) @ canonical_events u\<rparr>)"
proof -
  have s: "source_ok feed (\<lambda>_. None)" by (simp add: source_ok_def)
  have "ingest (\<lambda>_. None) Sent h p = Some (Inr (), p\<lparr>pp_tree := t', pp_log := pp_log p @ observed_events h (pp_trace_available p) @ canonical_events u\<rparr>)"
    using assms(3) ingest_loop_stored[OF assms(4)] by (simp add: ingest_def report_progress_def)
  from pipeline_run.headed[OF assms(1) s assms(2) this] show ?thesis .
qed

lemma pipeline_run_fork:
  assumes "pipeline_run feed depth p" "h \<in> set feed" "\<not> pp_progress p" "add_block h (pp_tree p) = Some (Inr Fork, t')"
  shows "pipeline_run feed depth (p\<lparr>pp_tree := t', pp_log := pp_log p @ observed_events h (pp_trace_available p)\<rparr>)"
proof -
  have s: "source_ok feed (\<lambda>_. None)" by (simp add: source_ok_def)
  have "ingest (\<lambda>_. None) Sent h p = Some (Inr (), p\<lparr>pp_tree := t', pp_log := pp_log p @ observed_events h (pp_trace_available p)\<rparr>)"
    using assms(3) ingest_loop_forked[OF assms(4)] by (simp add: ingest_def report_progress_def)
  from pipeline_run.headed[OF assms(1) s assms(2) this] show ?thesis .
qed

section \<open>The blocks the detectors believe in\<close>

text \<open>The blocks a slot holds after an event depend only on the blocks it held, as long as its window covers them.\<close>

fun blocks_step :: "block_event \<Rightarrow> block_ref list \<Rightarrow> block_ref list" where
  "blocks_step (Assembled ctx) bs = (if bs \<noteq> [] \<and> br_number (ctx_block ctx) \<le> br_number (last bs) then bs else bs @ [ctx_block ctx])"
| "blocks_step (Reverted r) bs = (if bs \<noteq> [] \<and> last bs = rv_block r then butlast bs else bs)"

fun in_window :: "nat \<Rightarrow> block_event \<Rightarrow> block_ref list \<Rightarrow> bool" where
  "in_window w (Assembled ctx) bs \<longleftrightarrow> (\<forall>b\<in>set bs. br_number (ctx_block ctx) - w < br_number b)"
| "in_window w (Reverted r) bs \<longleftrightarrow> True"

definition roster_holds :: "nat \<Rightarrow> block_ref list \<Rightarrow> ('s, 'd) cross_block_states \<Rightarrow> bool" where
  "roster_holds w bs ros \<longleftrightarrow> (\<forall>(k, sl)\<in>set ros. map ver_block (versions (sl_state sl)) = bs \<and> unat (window_blocks (sl_state sl)) = w)"

lemma pop_front_to_none: "vs = [] \<or> n < br_number (ver_block (hd vs)) \<Longrightarrow> pop_front_to n vs = vs"
  by (induction n vs rule: pop_front_to.induct) auto

lemma cbs_push_blocks:
  assumes "\<forall>v\<in>set (versions st). br_number b - unat (window_blocks st) < br_number (ver_block v)"
  shows "map ver_block (versions (cbs_push b s st)) = map ver_block (versions st) @ [b] \<and> window_blocks (cbs_push b s st) = window_blocks st"
proof -
  have "pop_front_to (br_number b - unat (window_blocks st)) (versions st @ [\<lparr>ver_block = b, ver_state = s\<rparr>]) =
      versions st @ [\<lparr>ver_block = b, ver_state = s\<rparr>]"
  proof (cases "versions st")
    case Nil
    then show ?thesis by simp
  next
    case (Cons v vs)
    with assms show ?thesis by (intro pop_front_to_none) simp
  qed
  then show ?thesis by (simp add: cbs_push_def prune_to_window_def tip_def)
qed

lemma roster_holds_step:
  assumes "roster_holds w bs ros" "in_window w ev bs"
  shows "roster_holds w (blocks_step ev bs) (event_step ev ros)"
proof (cases ev)
  case (Assembled ctx)
  have "map ver_block (versions (sl_state (slot_fold ctx sl))) = blocks_step ev bs \<and>
      unat (window_blocks (sl_state (slot_fold ctx sl))) = w" if "(k, sl) \<in> set ros" for k sl
  proof -
    have sl: "map ver_block (versions (sl_state sl)) = bs" "unat (window_blocks (sl_state sl)) = w"
      using assms(1) that by (auto simp: roster_holds_def)
    then have "\<forall>v\<in>set (versions (sl_state sl)). br_number (ctx_block ctx) - unat (window_blocks (sl_state sl)) < br_number (ver_block v)"
      using assms(2) Assembled by auto
    note p = cbs_push_blocks[OF this]
    have e: "bs \<noteq> [] \<longleftrightarrow> versions (sl_state sl) \<noteq> []" using sl(1) by auto
    show ?thesis
    proof (cases "versions (sl_state sl) = []")
      case True
      with p sl e show ?thesis by (auto simp: Assembled slot_fold_def Let_def apply_block_def tip_def)
    next
      case False
      then have "last bs = ver_block (last (versions (sl_state sl)))" using sl(1) last_map by metis
      with False p sl e show ?thesis by (auto simp: Assembled slot_fold_def Let_def apply_block_def tip_def)
    qed
  qed
  then show ?thesis by (auto simp: Assembled roster_holds_def)
next
  case (Reverted r)
  have "map ver_block (versions (sl_state (snd (replay slot_revert_tip [r] sl)))) = blocks_step ev bs \<and>
      unat (window_blocks (sl_state (snd (replay slot_revert_tip [r] sl)))) = w" if "(k, sl) \<in> set ros" for k sl
  proof -
    have sl: "map ver_block (versions (sl_state sl)) = bs" "unat (window_blocks (sl_state sl)) = w"
      using assms(1) that by (auto simp: roster_holds_def)
    then show ?thesis
      by (auto simp: Reverted replay_def case_prod_beta slot_revert_tip_def revert_tip_def tip_def Let_def last_map map_butlast)
  qed
  then show ?thesis by (auto simp: Reverted roster_holds_def roster_apply_reverts_def roster_replay_from_slots)
qed

fun window_covers :: "nat \<Rightarrow> block_event list \<Rightarrow> block_ref list \<Rightarrow> bool" where
  "window_covers w [] bs \<longleftrightarrow> True"
| "window_covers w (ev # evs) bs \<longleftrightarrow> in_window w ev bs \<and> window_covers w evs (blocks_step ev bs)"

lemma roster_holds_fold:
  "roster_holds w bs ros \<Longrightarrow> window_covers w evs bs \<Longrightarrow> roster_holds w (fold blocks_step evs bs) (fold event_step evs ros)"
  by (induction evs arbitrary: bs ros) (simp_all add: roster_holds_step)

section \<open>Reorgs as the service sees them\<close>

text \<open>
  Above a common block there are three siblings, of which the first has a child, and a branch of two.
  The heads arrive as the names say.
\<close>

abbreviation h_root :: chain_head where "h_root \<equiv> mk_head 100 10 9"
abbreviation h_a1 :: chain_head where "h_a1 \<equiv> mk_head 101 11 10"
abbreviation h_a2 :: chain_head where "h_a2 \<equiv> mk_head 102 12 11"
abbreviation h_b1 :: chain_head where "h_b1 \<equiv> mk_head 101 21 10"
abbreviation h_b2 :: chain_head where "h_b2 \<equiv> mk_head 102 22 21"
abbreviation h_c1 :: chain_head where "h_c1 \<equiv> mk_head 101 31 10"

definition feed_branch :: "chain_head list" where
  "feed_branch = [h_root, h_a1, h_a2, h_b1, h_b2]"

definition feed_siblings :: "chain_head list" where
  "feed_siblings = [h_root, h_a1, h_b1, h_c1, h_a2]"

definition reorg_events :: "chain_head \<Rightarrow> chain_head list \<Rightarrow> chain_head list \<Rightarrow> chain_event list" where
  "reorg_events h os cs = observed_events h False @ canonical_events \<lparr>reverted = os, canonicalized = cs\<rparr>"

definition log_branch :: "chain_event list" where
  "log_branch = reorg_events h_root [] [h_root] @ reorg_events h_a1 [] [h_a1] @ reorg_events h_a2 [] [h_a2] @
     observed_events h_b1 False @ reorg_events h_b2 [h_a2, h_a1] [h_b1, h_b2]"

definition log_siblings :: "chain_event list" where
  "log_siblings = reorg_events h_root [] [h_root] @ reorg_events h_a1 [] [h_a1] @ reorg_events h_b1 [h_a1] [h_b1] @
     reorg_events h_c1 [h_b1] [h_c1] @ reorg_events h_a2 [h_c1] [h_a1, h_a2]"

lemma feed_steps:
  "add_block h_root (new_tree 64) =
     Some (Inr (Canonical \<lparr>reverted = [], canonicalized = [h_root]\<rparr>), ex_tree [h_root] (Some 10))"
  "add_block h_a1 (ex_tree [h_root] (Some 10)) =
     Some (Inr (Canonical \<lparr>reverted = [], canonicalized = [h_a1]\<rparr>), ex_tree [h_root, h_a1] (Some 11))"
  "add_block h_a2 (ex_tree [h_root, h_a1] (Some 11)) =
     Some (Inr (Canonical \<lparr>reverted = [], canonicalized = [h_a2]\<rparr>), ex_tree [h_root, h_a1, h_a2] (Some 12))"
  "add_block h_b1 (ex_tree [h_root, h_a1, h_a2] (Some 12)) = Some (Inr Fork, ex_tree [h_root, h_a1, h_a2, h_b1] (Some 12))"
  "add_block h_b2 (ex_tree [h_root, h_a1, h_a2, h_b1] (Some 12)) =
     Some (Inr (Canonical \<lparr>reverted = [h_a2, h_a1], canonicalized = [h_b1, h_b2]\<rparr>), ex_tree [h_root, h_a1, h_a2, h_b1, h_b2] (Some 22))"
  "add_block h_b1 (ex_tree [h_root, h_a1] (Some 11)) =
     Some (Inr (Canonical \<lparr>reverted = [h_a1], canonicalized = [h_b1]\<rparr>), ex_tree [h_root, h_a1, h_b1] (Some 21))"
  "add_block h_c1 (ex_tree [h_root, h_a1, h_b1] (Some 21)) =
     Some (Inr (Canonical \<lparr>reverted = [h_b1], canonicalized = [h_c1]\<rparr>), ex_tree [h_root, h_a1, h_b1, h_c1] (Some 31))"
  "add_block h_a2 (ex_tree [h_root, h_a1, h_b1, h_c1] (Some 31)) =
     Some (Inr (Canonical \<lparr>reverted = [h_c1], canonicalized = [h_a1, h_a2]\<rparr>), ex_tree [h_root, h_a1, h_b1, h_c1, h_a2] (Some 12))"
  "canonical_iter (ex_tree [h_root, h_a1, h_a2, h_b1, h_b2] (Some 22)) = Some [h_b2, h_b1, h_root]"
  "canonical_iter (ex_tree [h_root, h_a1, h_b1, h_c1, h_a2] (Some 12)) = Some [h_a2, h_a1, h_root]"
  by (simp_all add: tree_eval ex_tree_def)

lemma feed_pipelines:
  "\<exists>p. pipeline_run feed_branch 64 p \<and> pp_log p = log_branch \<and> canonical_iter (pp_tree p) = Some [h_b2, h_b1, h_root]"
  "\<exists>p. pipeline_run feed_siblings 64 p \<and> pp_log p = log_siblings \<and> canonical_iter (pp_tree p) = Some [h_a2, h_a1, h_root]"
proof -
  let ?p = "\<lambda>t evs. (pipeline_new False 64)\<lparr>pp_tree := t, pp_log := evs\<rparr>"
  have boot: "pipeline_run feed 64 (?p (new_tree 64) [])" for feed
    using pipeline_run.booted[of feed 64 False] by (simp add: pipeline_new_def)
  have step: "pipeline_run feed 64 (?p t' (evs @ reorg_events h os cs))"
    if "pipeline_run feed 64 (?p t evs)" "h \<in> set feed" "add_block h t = Some (Inr (Canonical \<lparr>reverted = os, canonicalized = cs\<rparr>), t')"
    for feed t t' evs h os cs
    using pipeline_run_canonical[OF that(1,2), of "\<lparr>reverted = os, canonicalized = cs\<rparr>" t'] that(3)
    by (simp add: pipeline_new_def reorg_events_def)
  have fork: "pipeline_run feed 64 (?p t' (evs @ observed_events h False))"
    if "pipeline_run feed 64 (?p t evs)" "h \<in> set feed" "add_block h t = Some (Inr Fork, t')" for feed t t' evs h
    using pipeline_run_fork[OF that(1,2), of t'] that(3) by (simp add: pipeline_new_def)
  have g: "pipeline_run feed 64 (?p (ex_tree [h_root, h_a1] (Some 11)) (reorg_events h_root [] [h_root] @ reorg_events h_a1 [] [h_a1]))"
    if "h_root \<in> set feed" "h_a1 \<in> set feed" for feed
    using step[OF step[OF boot that(1) feed_steps(1)] that(2) feed_steps(2)] by simp
  have mem: "h_root \<in> set feed_siblings" "h_a1 \<in> set feed_siblings" "h_b1 \<in> set feed_siblings" "h_c1 \<in> set feed_siblings"
    "h_a2 \<in> set feed_siblings" "h_root \<in> set feed_branch" "h_a1 \<in> set feed_branch" "h_a2 \<in> set feed_branch"
    "h_b1 \<in> set feed_branch" "h_b2 \<in> set feed_branch"
    by (simp_all add: feed_siblings_def feed_branch_def)
  have "pipeline_run feed_siblings 64 (?p (ex_tree [h_root, h_a1, h_b1, h_c1, h_a2] (Some 12)) log_siblings)"
    using step[OF step[OF step[OF g[OF mem(1,2)] mem(3) feed_steps(6)] mem(4) feed_steps(7)] mem(5) feed_steps(8)]
    by (simp add: log_siblings_def)
  then show "\<exists>p. pipeline_run feed_siblings 64 p \<and> pp_log p = log_siblings \<and> canonical_iter (pp_tree p) = Some [h_a2, h_a1, h_root]"
    by (intro exI conjI) (assumption, insert feed_steps(10), simp_all)
  have "pipeline_run feed_branch 64 (?p (ex_tree [h_root, h_a1, h_a2, h_b1, h_b2] (Some 22)) log_branch)"
    using step[OF fork[OF step[OF g[OF mem(6,7)] mem(8) feed_steps(3)] mem(9) feed_steps(4)] mem(10) feed_steps(5)]
    by (simp add: log_branch_def)
  then show "\<exists>p. pipeline_run feed_branch 64 p \<and> pp_log p = log_branch \<and> canonical_iter (pp_tree p) = Some [h_b2, h_b1, h_root]"
    by (intro exI conjI) (assumption, insert feed_steps(9), simp_all)
qed

lemma log_events:
  "fold blocks_step (List.map_filter (block_event_of 1) log_branch) [] = [head_block_ref h_root]"
  "window_covers 100 (List.map_filter (block_event_of 1) log_branch) []"
  "fold blocks_step (List.map_filter (block_event_of 1) log_siblings) [] = map head_block_ref [h_root, h_c1, h_a2]"
  "window_covers 100 (List.map_filter (block_event_of 1) log_siblings) []"
  by (simp_all add: log_branch_def log_siblings_def reorg_events_def observed_events_def canonical_events_def replacements_def
      block_event_of_def map_filter_def header_ctx_def mk_head_def head_block_ref_def)

definition ex_scheduler :: "wash_state scheduler" where
  "ex_scheduler = \<lparr>sd_plan = [], sd_cross_block =
     register_cross_block_builtins exact_env ex_codec (\<lambda>_. 0) [''washtrading''] all_enabled rollout_builtin []\<rparr>"

lemma ex_scheduler_holds: "roster_holds 100 [] (sd_cross_block ex_scheduler)"
  by (simp add: roster_holds_def ex_scheduler_def register_cross_block_builtins_def Let_def roster_insert_detector_def
      cbs_new_def washtrading_plugin_def wash_default_config_def)

text \<open>
  C25: The cross-block detectors lose the winning branch of a reorg. The scheduler acts on
  \<open>BlockAssembled\<close>, which the pipeline publishes before the reverts of the same head, and on
  \<open>BlockReverted\<close>, never on \<open>BlockCanonicalized\<close>. Fed with the complete log of the pipeline, in order and
  without loss: after a branch of two replaces a branch of two, the detectors hold the common ancestor
  alone, and neither block of the canonical branch was ever observed; after three siblings and a child of
  the first, they hold the third sibling, an orphan whose revert they ignored, under a block that is not
  its child, and miss the canonical first sibling.
\<close>

theorem detectors_lose_winning_branch:
  "(\<exists>p. pipeline_run feed_branch 64 p \<and> canonical_iter (pp_tree p) = Some [h_b2, h_b1, h_root] \<and>
     (\<exists>out tokens sched. run_loop exact_env all_delivered 0 0 (work_of_log 1 (pp_log p)) ex_scheduler = Some (out, tokens, sched) \<and>
        held_blocks (sd_cross_block sched) = [[head_block_ref h_root]])) \<and>
   (\<exists>p. pipeline_run feed_siblings 64 p \<and> canonical_iter (pp_tree p) = Some [h_a2, h_a1, h_root] \<and>
     (\<exists>out tokens sched. run_loop exact_env all_delivered 0 0 (work_of_log 1 (pp_log p)) ex_scheduler = Some (out, tokens, sched) \<and>
        held_blocks (sd_cross_block sched) = [map head_block_ref [h_root, h_c1, h_a2]]))"
proof -
  have run: "\<exists>out tokens sched. run_loop exact_env all_delivered 0 0 (work_of_log 1 evs) ex_scheduler = Some (out, tokens, sched) \<and>
        held_blocks (sd_cross_block sched) = [fold blocks_step (List.map_filter (block_event_of 1) evs) []]"
    if "window_covers 100 (List.map_filter (block_event_of 1) evs) []" for evs
  proof -
    let ?ros = "fold event_step (List.map_filter (block_event_of 1) evs) (sd_cross_block ex_scheduler)"
    obtain out where r: "run_loop exact_env all_delivered 0 0 (work_of_log 1 evs) ex_scheduler =
        Some (out, map snd (work_of_log 1 evs), ex_scheduler\<lparr>sd_cross_block := ?ros\<rparr>)"
      using run_loop_delivered[of all_delivered exact_env 0 0 "work_of_log 1 evs" ex_scheduler]
      by (auto simp: all_delivered_def work_events)
    have "length (event_step ev ros) = length ros" for ev and ros :: "(wash_state, builtin_detail) cross_block_states"
      by (cases ev) (simp_all add: roster_apply_reverts_def roster_replay_from_slots)
    then have "length (fold event_step evs ros) = length ros" for evs and ros :: "(wash_state, builtin_detail) cross_block_states"
      by (induction evs arbitrary: ros) simp_all
    moreover have "length (sd_cross_block ex_scheduler) = 1"
      by (simp add: ex_scheduler_def register_cross_block_builtins_def Let_def roster_insert_detector_def
          is_enabled_def all_enabled_def flags_with_default_def)
    ultimately have "length ?ros = 1" by simp
    then obtain e where e: "?ros = [e]" by (auto simp: length_Suc_conv)
    with roster_holds_fold[OF ex_scheduler_holds that] r show ?thesis
      by (auto simp: held_blocks_def roster_holds_def)
  qed
  from feed_pipelines run[OF log_events(2)] run[OF log_events(4)] show ?thesis
    unfolding log_events(1,3) by metis
qed

section \<open>A header-only source\<close>

text \<open>A slot of the wash-trading detector that has seen no swap.\<close>

definition quiet_slot :: "float_env \<Rightarrow> (wash_state, builtin_detail) slot \<Rightarrow> bool" where
  "quiet_slot fe sl \<longleftrightarrow> sl_detector sl = washtrading_plugin fe \<and>
     (\<forall>v\<in>set (versions (sl_state sl)). \<forall>a\<in>set (ver_state v). ba_swaps a = [])"

lemma wash_swaps_header: "wash_swaps_of (header_ctx c b) = []"
  by (simp add: wash_swaps_of_def block_actions_def header_ctx_def)

lemma quiet_observe:
  assumes "\<forall>a\<in>set st. ba_swaps a = []"
  shows "\<forall>a\<in>set (wash_observe cfg (header_ctx c b) st). ba_swaps a = []"
proof
  fix a assume "a \<in> set (wash_observe cfg (header_ctx c b) st)"
  then have "a \<in> set (st @ [\<lparr>ba_number = br_number (ctx_block (header_ctx c b)), ba_swaps = wash_swaps_of (header_ctx c b)\<rparr>])"
    unfolding wash_observe_def Let_def by (blast dest: set_dropWhileD)
  then show "ba_swaps a = []" using assms by (auto simp: wash_swaps_header)
qed

lemma set_cbs_push: "set (versions (cbs_push b s st)) \<subseteq> insert \<lparr>ver_block = b, ver_state = s\<rparr> (set (versions st))"
proof -
  obtain us where "versions st @ [\<lparr>ver_block = b, ver_state = s\<rparr>] = us @ versions (cbs_push b s st)"
    using push_suffix[of st b s] by blast
  from arg_cong[OF this, of set] show ?thesis by auto
qed

lemma quiet_slot_fold:
  assumes "quiet_slot fe sl"
  shows "quiet_slot fe (slot_fold (header_ctx c b) sl)"
proof -
  let ?tip = "case current (sl_state sl) of Some s \<Rightarrow> s | None \<Rightarrow> cd_init_state (sl_detector sl)"
  have "\<forall>a\<in>set ?tip. ba_swaps a = []"
    using assms by (auto simp: quiet_slot_def current_def washtrading_plugin_def wash_init_state_def)
  from quiet_observe[OF this, of wash_default_config c b]
  have "\<forall>a\<in>set (cd_observe (sl_detector sl) (header_ctx c b) ?tip). ba_swaps a = []"
    using assms by (simp add: quiet_slot_def washtrading_plugin_def)
  moreover have "set (versions (sl_state (slot_fold (header_ctx c b) sl))) \<subseteq>
      insert \<lparr>ver_block = b, ver_state = cd_observe (sl_detector sl) (header_ctx c b) ?tip\<rparr> (set (versions (sl_state sl)))"
    using set_cbs_push[of b "cd_observe (sl_detector sl) (header_ctx c b) ?tip" "sl_state sl"]
    by (auto simp: slot_fold_def Let_def apply_block_def header_ctx_def split: option.splits if_splits)
  ultimately show ?thesis using assms by (fastforce simp: quiet_slot_def)
qed

lemma quiet_slot_emit:
  assumes "quiet_slot fe sl"
  shows "slot_observe_and_detect fe ids n (header_ctx c b) sl = Some (([], n), slot_fold (header_ctx c b) sl)"
proof -
  let ?sl = "slot_fold (header_ctx c b) sl"
  obtain s where s: "current (sl_state ?sl) = Some s"
    "slot_observe_and_detect fe ids n (header_ctx c b) sl =
       Some (slot_emit fe ids n ?sl (header_ctx c b) (cd_detect (sl_detector sl) (header_ctx c b) s), ?sl)"
    using slot_observe_and_detect_Some[of "header_ctx c b" sl fe ids n] by blast
  have "\<forall>a\<in>set s. ba_swaps a = []"
    using quiet_slot_fold[OF assms, of c b] s(1) by (auto simp: quiet_slot_def current_def split: if_splits)
  then have "active_pairs m s = []" for m by (auto simp: active_pairs_def)
  then have "cd_detect (sl_detector sl) (header_ctx c b) s = []"
    using assms by (simp add: quiet_slot_def washtrading_plugin_def wash_detect_def)
  with s(2) show ?thesis by simp
qed

lemma quiet_roster_observe:
  "\<forall>(k, sl)\<in>set ros. quiet_slot fe sl \<Longrightarrow> roster_observe_from fe ids n (header_ctx c b) ros =
     Some ([], map (\<lambda>(k, sl). (k, slot_fold (header_ctx c b) sl)) ros)"
  by (induction ros arbitrary: n) (auto simp: quiet_slot_emit)

lemma quiet_event_step:
  assumes "\<forall>(k, sl)\<in>set ros. quiet_slot fe sl" "block_event_of c e = Some ev"
  shows "\<forall>(k, sl)\<in>set (event_step ev ros). quiet_slot fe sl"
proof (cases ev)
  case (Assembled ctx)
  with assms(2) obtain b where "ctx = header_ctx c b" by (auto simp: block_event_of_def split: chain_event.splits)
  with Assembled assms(1) show ?thesis by (auto intro: quiet_slot_fold)
next
  case (Reverted r)
  have "quiet_slot fe (snd (replay slot_revert_tip [r] sl))" if "quiet_slot fe sl" for sl
    using that by (auto simp: replay_def slot_revert_tip_def revert_tip_def quiet_slot_def Let_def dest!: in_set_butlastD)
  with Reverted assms(1) show ?thesis by (auto simp: roster_apply_reverts_def roster_replay_from_slots)
qed

lemma quiet_process:
  assumes "\<forall>(k, sl)\<in>set (sd_cross_block sched). quiet_slot fe sl" "block_event_of c e = Some ev"
    and "\<forall>b. \<forall>l\<in>set (sd_plan sched). pl_detect (ld_plugin l) (header_ctx c b) = []"
    and "process fe pids ids boundary ev sched = Some (outcome, sched')"
  shows "set (po_events outcome) \<subseteq> set boundary"
proof (cases ev)
  case (Assembled ctx)
  with assms(2) obtain b where c: "ctx = header_ctx c b" by (auto simp: block_event_of_def split: chain_event.splits)
  have "detection_events_parallel fe pids (sd_plan sched) ctx = []" using assms(3) by (simp add: detection_events_parallel_def c)
  with quiet_roster_observe[OF assms(1), of ids 0 c b] assms(4) show ?thesis
    by (auto simp: Assembled c process_def roster_observe_and_detect_def)
next
  case (Reverted r)
  with assms(4) show ?thesis by (auto simp: process_def case_prod_beta Let_def)
qed

lemma quiet_outcomes:
  assumes "\<forall>b. \<forall>l\<in>set (sd_plan sched). pl_detect (ld_plugin l) (header_ctx c b) = []"
    and "\<forall>(k, sl)\<in>set (sd_cross_block sched). quiet_slot fe sl" "\<forall>k. re_boundary env k = []"
    and "\<forall>(w, t)\<in>set work. \<forall>ev. w = Some ev \<longrightarrow> (\<exists>e. block_event_of c e = Some ev)"
  shows "\<forall>evs\<in>set (outcomes fe env k work sched). evs = []"
  using assms
proof (induction work arbitrary: k sched)
  case (Cons item work)
  obtain w t where item: "item = (w, t)" by fastforce
  show ?case
  proof (cases w)
    case None
    with Cons item show ?thesis by simp
  next
    case (Some ev)
    with Cons.prems(4) item obtain e where e: "block_event_of c e = Some ev" by auto
    obtain oc where p: "process fe (re_pids env k) (re_ids env k) (re_boundary env k) ev sched =
        Some (oc, sched\<lparr>sd_cross_block := event_step ev (sd_cross_block sched)\<rparr>)" using process_step by blast
    have "po_events oc = []" using quiet_process[OF Cons.prems(2) e Cons.prems(1) p] Cons.prems(3) by simp
    moreover have "\<forall>evs\<in>set (outcomes fe env (k + 1) work (sched\<lparr>sd_cross_block := event_step ev (sd_cross_block sched)\<rparr>)). evs = []"
      using Cons.IH[of "sched\<lparr>sd_cross_block := event_step ev (sd_cross_block sched)\<rparr>" "k + 1"] Cons.prems
        quiet_event_step[OF Cons.prems(2) e] by simp
    ultimately show ?thesis by (simp add: item Some p)
  qed
qed simp

lemma consume_all_events:
  assumes "(w, t) \<in> set (consume_all c rs)" "w = Some ev"
  shows "\<exists>e. block_event_of c e = Some ev"
proof -
  from assms obtain r where "consume_record c r = Some (Some ev)" by (auto simp: consume_all_def map_filter_def split: if_splits)
  then show ?thesis by (auto simp: consume_record_def split: bus_record.splits if_splits option.splits)
qed

lemma silent_run:
  assumes "\<forall>m. re_pub env m \<noteq> Permanent" "\<forall>evs\<in>set (outcomes fe env k work sched). evs = []"
  shows "\<exists>out tokens sched'. run_loop fe env k n work sched = Some (out, tokens, sched') \<and> detections out = []"
proof -
  from run_loop_spec[OF assms(1), of fe k n work sched] obtain out tokens sched' rest where
    r: "run_loop fe env k n work sched = Some (out, tokens, sched')"
    "detections out = concat (take (length tokens) (outcomes fe env k work sched)) @ rest"
    "prefix rest (concat (take 1 (drop (length tokens) (outcomes fe env k work sched))))" by blast
  have c: "concat (take m (outcomes fe env k work sched)) = []"
    "concat (take 1 (drop m (outcomes fe env k work sched))) = []" for m
    using assms(2) by (auto dest: in_set_takeD in_set_dropD)
  have "detections out = []" using r(2) r(3)[unfolded c(2)] by (simp only: c(1) prefix_Nil append_Nil)
  with r(1) show ?thesis by blast
qed

text \<open>
  The service as deployed today is silent. A service booted with any features but the demo
  detector, any flags, policy and measurements, fed with any records of the bus in any order, publishes
  no trigger and no alert: the contexts it builds from \<open>BlockAssembled\<close> carry no transactions, and
  neither roster reports anything without them.
\<close>

theorem header_only_service_is_silent:
  assumes "''demo'' \<notin> set features" "link_builtin_roster fe cd now features flags rollout store = Some (Inr plan)"
    "\<forall>k. re_boundary env k = []" "\<forall>m. re_pub env m \<noteq> Permanent"
  shows "\<exists>out tokens sched. run_loop fe env 0 0 (consume_all chain rs)
      \<lparr>sd_plan = plan, sd_cross_block = register_cross_block_builtins fe cd now features flags rollout store\<rparr> = Some (out, tokens, sched) \<and>
    detections out = []"
proof -
  let ?sched = "\<lparr>sd_plan = plan, sd_cross_block = register_cross_block_builtins fe cd now features flags rollout store\<rparr>"
  have p: "\<forall>b. \<forall>l\<in>set (sd_plan ?sched). pl_detect (ld_plugin l) (header_ctx chain b) = []"
  proof (intro allI ballI)
    fix b l assume "l \<in> set (sd_plan ?sched)"
    then have "detector_plugin (pl_detect (ld_plugin l))" using linked_contract[OF assms(1,2)] by simp
    from detector_plugin.no_evidence_without_enrichment[OF this] show "pl_detect (ld_plugin l) (header_ctx chain b) = []"
      by (simp add: header_ctx_def)
  qed
  have q: "\<forall>(k, sl)\<in>set (sd_cross_block ?sched). quiet_slot fe sl"
    by (auto simp: register_cross_block_builtins_def Let_def roster_insert_detector_def quiet_slot_def cbs_new_def)
  have "\<forall>(w, t)\<in>set (consume_all chain rs). \<forall>ev. w = Some ev \<longrightarrow> (\<exists>e. block_event_of chain e = Some ev)"
    by (intro ballI, clarify) (rule consume_all_events[OF _ refl])
  then have o: "\<forall>evs\<in>set (outcomes fe env 0 (consume_all chain rs) ?sched). evs = []"
    by (rule quiet_outcomes[OF p q assms(3)])
  from silent_run[OF assms(4) o] show ?thesis .
qed

section \<open>Witnesses\<close>

definition ex_work :: "(block_event option \<times> offsets) list" where
  "ex_work = [(None, \<lparr>of_topic = ''t'', of_partition = 0, of_offset = 7\<rparr>),
     (Some (Assembled (header_ctx 1 (head_block_ref h_root))), \<lparr>of_topic = ''t'', of_partition = 0, of_offset = 8\<rparr>)]"

theorem commit_follows_publication_witness:
  "\<exists>out tokens sched. run_loop exact_env all_delivered 0 0 ex_work ex_scheduler = Some (out, tokens, sched) \<and>
     tokens = take (length tokens) (map snd ex_work)"
proof -
  have "\<forall>m. re_pub all_delivered m \<noteq> Permanent" "ascending_offsets (map snd ex_work)"
    by (simp_all add: all_delivered_def ascending_offsets_def ex_work_def)
  from commit_follows_publication[OF this, of exact_env ex_scheduler] show ?thesis by blast
qed

theorem header_only_service_is_silent_witness:
  "\<exists>plan out tokens sched. link_builtin_roster exact_env ex_codec (\<lambda>_. 0) ex_features all_enabled rollout_builtin [] = Some (Inr plan) \<and>
     run_loop exact_env all_delivered 0 0 (consume_all 1 [(Envelope 1 (BlockAssembled (head_block_ref h_root) 3 False), ())])
      \<lparr>sd_plan = plan, sd_cross_block = register_cross_block_builtins exact_env ex_codec (\<lambda>_. 0) ex_features all_enabled rollout_builtin []\<rparr> =
        Some (out, tokens, sched) \<and> detections out = []"
proof -
  obtain r where "register_builtins exact_env ex_features all_enabled = Some r" "bm_sorted r"
    "set (map snd r) = set (live_builtins exact_env ex_features all_enabled)" "\<forall>(k, p)\<in>set r. plugin_key p = k"
    and link: "\<forall>ro st. link_builtin_roster exact_env ex_codec (\<lambda>_. 0) ex_features all_enabled ro st =
       Some (Inr (map (linked_plugin ex_codec (\<lambda>_. 0) ro st) (map snd r)))"
    by (rule link_builtin_roster_eq[of exact_env ex_features all_enabled ex_codec "\<lambda>_. 0"])
  note l = link[rule_format, of rollout_builtin "[]"]
  have d: "''demo'' \<notin> set ex_features" "\<forall>k. re_boundary all_delivered k = []" "\<forall>m. re_pub all_delivered m \<noteq> Permanent"
    by (simp_all add: ex_features_def all_delivered_def)
  from header_only_service_is_silent[OF d(1) l d(2,3), of 1 "[(Envelope 1 (BlockAssembled (head_block_ref h_root) 3 False), ())]"] l
  show ?thesis by blast
qed

end
