(* ===== verification/Rule_Model.thy ===== *)
theory Rule_Model
  imports Detector_Api
begin

text \<open>
  The rules a customer writes and their compilation (\<open>crates/rule-engine/src/model.rs\<close>, \<open>ctx.rs\<close>,
  \<open>compile.rs\<close>): the documents and their validation at the boundary, the context a matcher sees, the
  matchers, the compiled set with its prefetch plan.

  A \<open>Decimal\<close> is the rational it denotes: the code only compares them. \<open>url::Url::parse\<close> is the
  parameter \<open>up\<close>, which gives the scheme of a URL or the reason it does not parse. A matcher is a
  function of the context, as in the code.
\<close>

section \<open>Documents\<close>

datatype label_kind = CexWallet | MevBot | KnownScammer | Bridge | Protocol | Deployer | MixerUser
  | SanctionedEntity | ScammerAssociate | BuilderAddress

datatype logic_op = LogicAll | LogicAny | LogicNot

datatype condition =
    TransferAmount u64 "address option" "rat option" "rat option"
  | InteractedWith "address option" "label_kind option"
  | IncidentKind alert_kind confidence
  | EntityLabel label_kind confidence
  | RiskScore "u8 option" "u8 option"
  | SanctionMatch "string option"
  | HopDistance address u8
  | NewAddress nat

datatype temporal_constraint = Sequence "condition list" nat | Frequency condition nat nat

datatype action = WebhookAlert string | EmailAlert string | SlackAlert string | TagAddress string

datatype invalid_rule =
    EmptyName | NoConditions | NoActions
  | UnboundedRange string | EmptyRange string
  | RiskScoreOutOfRange u8 | ConfidenceOutOfRange f64
  | UnboundedInteraction | ZeroBound string
  | DegenerateSequence nat | DegenerateFrequency nat
  | BadWebhookUrl string string | EmptyField string

record rule_definition =
  rd_name :: string
  rd_enabled :: bool
  rd_conditions :: "condition list"
  rd_logic :: logic_op
  rd_temporal :: "temporal_constraint option"
  rd_actions :: "action list"

record rule =
  ru_id :: uuid
  ru_owner :: uuid
  ru_name :: string
  ru_enabled :: bool
  ru_conditions :: "condition list"
  ru_logic :: logic_op
  ru_temporal :: "temporal_constraint option"
  ru_actions :: "action list"

definition rule_definition_of :: "rule \<Rightarrow> rule_definition" where
  "rule_definition_of r = \<lparr>rd_name = ru_name r, rd_enabled = ru_enabled r, rd_conditions = ru_conditions r,
     rd_logic = ru_logic r, rd_temporal = ru_temporal r, rd_actions = ru_actions r\<rparr>"

definition into_rule :: "rule_definition \<Rightarrow> uuid \<Rightarrow> uuid \<Rightarrow> rule" where
  "into_rule d i owner = \<lparr>ru_id = i, ru_owner = owner, ru_name = rd_name d, ru_enabled = rd_enabled d,
     ru_conditions = rd_conditions d, ru_logic = rd_logic d, ru_temporal = rd_temporal d, ru_actions = rd_actions d\<rparr>"

text \<open>The conditions \<open>for_each_condition\<close> visits, in its order.\<close>

definition each_condition :: "rule \<Rightarrow> condition list" where
  "each_condition r = ru_conditions r @ (case ru_temporal r of
      Some (Sequence events w) \<Rightarrow> events
    | Some (Frequency c n w) \<Rightarrow> [c]
    | None \<Rightarrow> [])"

section \<open>Validation\<close>

definition validate_range :: "string \<Rightarrow> 'a::linorder option \<Rightarrow> 'a option \<Rightarrow> invalid_rule + unit" where
  "validate_range what gt lt = (case (gt, lt) of
      (None, None) \<Rightarrow> Inl (UnboundedRange what)
    | (Some g, Some l) \<Rightarrow> if l \<le> g then Inl (EmptyRange what) else Inr ()
    | _ \<Rightarrow> Inr ())"

definition validate_confidence :: "confidence \<Rightarrow> invalid_rule + unit" where
  "validate_confidence m = (case confidence_try_new m of
      Inl v \<Rightarrow> Inl (ConfidenceOutOfRange v) | Inr c \<Rightarrow> Inr ())"

definition validate_bound :: "u8 \<Rightarrow> invalid_rule + unit" where
  "validate_bound b = (if 100 < b then Inl (RiskScoreOutOfRange b) else Inr ())"

fun condition_validate :: "condition \<Rightarrow> invalid_rule + unit" where
  "condition_validate (TransferAmount c tok gt lt) = validate_range ''transfer_amount'' gt lt"
| "condition_validate (InteractedWith a k) = (if a = None \<and> k = None then Inl UnboundedInteraction else Inr ())"
| "condition_validate (IncidentKind k m) = validate_confidence m"
| "condition_validate (EntityLabel k m) = validate_confidence m"
| "condition_validate (RiskScore gt lt) =
     and_then (check_each validate_bound (List.map_filter id [gt, lt])) (validate_range ''risk_score'' gt lt)"
| "condition_validate (SanctionMatch l) = (case l of
      Some name \<Rightarrow> if str_trim name = [] then Inl (EmptyField ''sanction_match.list'') else Inr ()
    | None \<Rightarrow> Inr ())"
| "condition_validate (HopDistance from hops) =
     (if hops = 0 then Inl (ZeroBound ''hop_distance.max_hops'') else Inr ())"
| "condition_validate (NewAddress w) =
     (if w = 0 then Inl (ZeroBound ''new_address.active_within_blocks'') else Inr ())"

fun temporal_validate :: "temporal_constraint \<Rightarrow> invalid_rule + unit" where
  "temporal_validate (Sequence events w) =
     (if length events < 2 then Inl (DegenerateSequence (length events))
      else if w = 0 then Inl (ZeroBound ''sequence.within_blocks'')
      else check_each condition_validate events)"
| "temporal_validate (Frequency c n w) =
     (if n < 2 then Inl (DegenerateFrequency n)
      else if w = 0 then Inl (ZeroBound ''frequency.within_blocks'')
      else condition_validate c)"

definition unsupported_scheme :: "string \<Rightarrow> string" where
  "unsupported_scheme s = ''unsupported scheme '' @ [CHR 0x22] @ s @ [CHR 0x22]"

definition validate_field :: "string \<Rightarrow> string \<Rightarrow> invalid_rule + unit" where
  "validate_field what s = (if str_trim s = [] then Inl (EmptyField what) else Inr ())"

fun action_validate :: "(string \<Rightarrow> string + string) \<Rightarrow> action \<Rightarrow> invalid_rule + unit" where
  "action_validate up (WebhookAlert url) = (case up url of
      Inl why \<Rightarrow> Inl (BadWebhookUrl url why)
    | Inr scheme \<Rightarrow> if scheme = ''http'' \<or> scheme = ''https'' then Inr ()
                   else Inl (BadWebhookUrl url (unsupported_scheme scheme)))"
| "action_validate up (EmailAlert dest) =
     (if str_trim dest = [] \<or> CHR 0x40 \<notin> set dest then Inl (EmptyField ''email_alert.to'') else Inr ())"
| "action_validate up (SlackAlert channel) = validate_field ''slack_alert.channel'' channel"
| "action_validate up (TagAddress label) = validate_field ''tag_address.label'' label"

definition validate_parts ::
  "(string \<Rightarrow> string + string) \<Rightarrow> string \<Rightarrow> condition list \<Rightarrow> temporal_constraint option \<Rightarrow> action list
    \<Rightarrow> invalid_rule + unit" where
  "validate_parts up name conditions temporal actions =
     (if str_trim name = [] then Inl EmptyName
      else if conditions = [] then Inl NoConditions
      else if actions = [] then Inl NoActions
      else and_then (check_each condition_validate conditions)
        (and_then (case temporal of Some t \<Rightarrow> temporal_validate t | None \<Rightarrow> Inr ())
          (check_each (action_validate up) actions)))"

definition rule_validate :: "(string \<Rightarrow> string + string) \<Rightarrow> rule \<Rightarrow> invalid_rule + unit" where
  "rule_validate up r = validate_parts up (ru_name r) (ru_conditions r) (ru_temporal r) (ru_actions r)"

definition rule_definition_validate :: "(string \<Rightarrow> string + string) \<Rightarrow> rule_definition \<Rightarrow> invalid_rule + unit" where
  "rule_definition_validate up d = validate_parts up (rd_name d) (rd_conditions d) (rd_temporal d) (rd_actions d)"

section \<open>The evaluation context\<close>

datatype event_facts =
    Transfer u64 "address option" rat address
  | Incident alert_kind confidence
  | StateChanged

record intel =
  in_risk_score :: "u8 option"
  in_entity_labels :: "(label_kind \<times> confidence) list"
  in_sanction_lists :: "string set"
  in_counterparty_labels :: "label_kind set"
  in_hop_distance :: "address \<rightharpoonup> u8"
  in_first_active_block :: "nat option"

definition intel_default :: intel where
  "intel_default = \<lparr>in_risk_score = None, in_entity_labels = [], in_sanction_lists = {},
     in_counterparty_labels = {}, in_hop_distance = Map.empty, in_first_active_block = None\<rparr>"

record event_ctx =
  ec_address :: address
  ec_block :: nat
  ec_facts :: event_facts
  ec_intel :: intel

section \<open>Compilation\<close>

type_synonym matcher = "event_ctx \<Rightarrow> bool"

definition is_none_or :: "'a option \<Rightarrow> ('a \<Rightarrow> bool) \<Rightarrow> bool" where
  "is_none_or x P = (case x of None \<Rightarrow> True | Some v \<Rightarrow> P v)"

definition is_some_and :: "'a option \<Rightarrow> ('a \<Rightarrow> bool) \<Rightarrow> bool" where
  "is_some_and x P = (case x of None \<Rightarrow> False | Some v \<Rightarrow> P v)"

fun compile_condition :: "condition \<Rightarrow> matcher" where
  "compile_condition (TransferAmount chain token gt lt) = (\<lambda>ctx. case ec_facts ctx of
      Transfer fact_chain fact_token amount counterparty \<Rightarrow>
        fact_chain = chain \<and> fact_token = token \<and> is_none_or gt (\<lambda>b. b < amount) \<and> is_none_or lt (\<lambda>b. amount < b)
    | _ \<Rightarrow> False)"
| "compile_condition (InteractedWith address label_kind) = (\<lambda>ctx. case ec_facts ctx of
      Transfer fact_chain fact_token amount counterparty \<Rightarrow>
        is_none_or address (\<lambda>wanted. counterparty = wanted)
          \<and> is_none_or label_kind (\<lambda>k. k \<in> in_counterparty_labels (ec_intel ctx))
    | _ \<Rightarrow> False)"
| "compile_condition (IncidentKind kind m) = (\<lambda>ctx. case ec_facts ctx of
      Incident fact_kind confidence \<Rightarrow> fact_kind = kind \<and> f_le m confidence
    | _ \<Rightarrow> False)"
| "compile_condition (EntityLabel kind m) = (\<lambda>ctx.
     list_ex (\<lambda>(label, confidence). label = kind \<and> f_le m confidence) (in_entity_labels (ec_intel ctx)))"
| "compile_condition (RiskScore gt lt) = (\<lambda>ctx. is_some_and (in_risk_score (ec_intel ctx))
     (\<lambda>score. is_none_or gt (\<lambda>b. b < score) \<and> is_none_or lt (\<lambda>b. score < b)))"
| "compile_condition (SanctionMatch l) = (\<lambda>ctx. case l of
      Some name \<Rightarrow> name \<in> in_sanction_lists (ec_intel ctx)
    | None \<Rightarrow> in_sanction_lists (ec_intel ctx) \<noteq> {})"
| "compile_condition (HopDistance from max_hops) = (\<lambda>ctx.
     is_some_and (in_hop_distance (ec_intel ctx) from) (\<lambda>hops. hops \<le> max_hops))"
| "compile_condition (NewAddress window) = (\<lambda>ctx.
     is_some_and (in_first_active_block (ec_intel ctx)) (\<lambda>first. ec_block ctx - first < window))"

definition compile_logic :: "condition list \<Rightarrow> logic_op \<Rightarrow> matcher" where
  "compile_logic conditions logic = (let matchers = map compile_condition conditions
     in case logic of
        LogicAll \<Rightarrow> (\<lambda>ctx. list_all (\<lambda>m. m ctx) matchers)
      | LogicAny \<Rightarrow> (\<lambda>ctx. list_ex (\<lambda>m. m ctx) matchers)
      | LogicNot \<Rightarrow> (\<lambda>ctx. \<not> list_ex (\<lambda>m. m ctx) matchers))"

datatype compiled_temporal = CSequence "matcher list" nat | CFrequency matcher nat nat

fun within_blocks :: "compiled_temporal \<Rightarrow> nat" where
  "within_blocks (CSequence steps w) = w"
| "within_blocks (CFrequency m n w) = w"

datatype compiled_match = Instant matcher | Temporal compiled_temporal

record compiled_rule =
  cr_id :: uuid
  cr_owner :: uuid
  cr_name :: string
  cr_actions :: "action list"
  cr_matcher :: compiled_match

definition instant_matches :: "compiled_rule \<Rightarrow> event_ctx \<Rightarrow> bool" where
  "instant_matches c ctx = (case cr_matcher c of Instant m \<Rightarrow> m ctx | Temporal t \<Rightarrow> False)"

definition cr_temporal :: "compiled_rule \<Rightarrow> compiled_temporal option" where
  "cr_temporal c = (case cr_matcher c of Instant m \<Rightarrow> None | Temporal t \<Rightarrow> Some t)"

record compile_error =
  ce_rule_id :: uuid
  ce_name :: string
  ce_source :: invalid_rule

definition compile_match :: "rule \<Rightarrow> compiled_match" where
  "compile_match r = (case ru_temporal r of
      None \<Rightarrow> Instant (compile_logic (ru_conditions r) (ru_logic r))
    | Some (Sequence events w) \<Rightarrow> Temporal (CSequence (map compile_condition events) w)
    | Some (Frequency c n w) \<Rightarrow> Temporal (CFrequency (compile_condition c) n w))"

definition compile_rule :: "(string \<Rightarrow> string + string) \<Rightarrow> rule \<Rightarrow> compile_error + compiled_rule" where
  "compile_rule up r = (case rule_validate up r of
      Inl why \<Rightarrow> Inl \<lparr>ce_rule_id = ru_id r, ce_name = ru_name r, ce_source = why\<rparr>
    | Inr u \<Rightarrow> Inr \<lparr>cr_id = ru_id r, cr_owner = ru_owner r, cr_name = ru_name r, cr_actions = ru_actions r,
                  cr_matcher = compile_match r\<rparr>)"

section \<open>The prefetch plan and the compiled set\<close>

record enrichment_needs =
  ne_hop_anchors :: "address set"
  ne_risk_score :: bool
  ne_entity_labels :: bool
  ne_sanctions :: bool
  ne_counterparty_labels :: bool
  ne_first_active_block :: bool

definition needs_default :: enrichment_needs where
  "needs_default = \<lparr>ne_hop_anchors = {}, ne_risk_score = False, ne_entity_labels = False,
     ne_sanctions = False, ne_counterparty_labels = False, ne_first_active_block = False\<rparr>"

fun absorb :: "condition \<Rightarrow> enrichment_needs \<Rightarrow> enrichment_needs" where
  "absorb (TransferAmount c tok gt lt) n = n"
| "absorb (IncidentKind k m) n = n"
| "absorb (InteractedWith a k) n = n\<lparr>ne_counterparty_labels := ne_counterparty_labels n \<or> k \<noteq> None\<rparr>"
| "absorb (EntityLabel k m) n = n\<lparr>ne_entity_labels := True\<rparr>"
| "absorb (RiskScore gt lt) n = n\<lparr>ne_risk_score := True\<rparr>"
| "absorb (SanctionMatch l) n = n\<lparr>ne_sanctions := True\<rparr>"
| "absorb (HopDistance from hops) n = n\<lparr>ne_hop_anchors := insert from (ne_hop_anchors n)\<rparr>"
| "absorb (NewAddress w) n = n\<lparr>ne_first_active_block := True\<rparr>"

record compiled_rule_set =
  cs_rules :: "compiled_rule list"
  cs_needs :: enrichment_needs

fun compile_loop ::
  "(string \<Rightarrow> string + string) \<Rightarrow> rule list \<Rightarrow> enrichment_needs
    \<Rightarrow> compile_error + compiled_rule list \<times> enrichment_needs" where
  "compile_loop up [] n = Inr ([], n)"
| "compile_loop up (r # rs) n = (let n' = fold absorb (each_condition r) n
     in case compile_rule up r of
          Inl e \<Rightarrow> Inl e
        | Inr c \<Rightarrow> (case compile_loop up rs n' of Inl e \<Rightarrow> Inl e | Inr (cs, n'') \<Rightarrow> Inr (c # cs, n'')))"

definition set_compile :: "(string \<Rightarrow> string + string) \<Rightarrow> rule list \<Rightarrow> compile_error + compiled_rule_set" where
  "set_compile up rs = (case compile_loop up rs needs_default of
      Inl e \<Rightarrow> Inl e
    | Inr (cs, n) \<Rightarrow> Inr \<lparr>cs_rules = cs, cs_needs = n\<rparr>)"

definition set_evaluate :: "compiled_rule_set \<Rightarrow> event_ctx \<Rightarrow> compiled_rule list" where
  "set_evaluate s ctx = filter (\<lambda>c. instant_matches c ctx) (cs_rules s)"

definition temporal_rules :: "compiled_rule_set \<Rightarrow> compiled_rule list" where
  "temporal_rules s = filter (\<lambda>c. cr_temporal c \<noteq> None) (cs_rules s)"

section \<open>Options as the matchers read them\<close>

lemma is_none_or_simps [simp]: "is_none_or None P" "is_none_or (Some v) P = P v"
  by (simp_all add: is_none_or_def)

lemma is_some_and_simps [simp]: "\<not> is_some_and None P" "is_some_and (Some v) P = P v"
  by (simp_all add: is_some_and_def)

section \<open>The two halves of a rule\<close>

text \<open>
  An authored definition survives the trip through a stored rule: stamping an identity on it and
  reading the definition back gives the definition, the identity is the one the platform gave, and both
  halves are validated alike.
\<close>

theorem definition_roundtrip:
  "rule_definition_of (into_rule d i owner) = d
    \<and> ru_id (into_rule d i owner) = i \<and> ru_owner (into_rule d i owner) = owner
    \<and> into_rule (rule_definition_of r) (ru_id r) (ru_owner r) = r
    \<and> rule_validate up (into_rule d i owner) = rule_definition_validate up d"
  by (simp add: rule_definition_of_def into_rule_def rule_validate_def rule_definition_validate_def)

section \<open>What validation accepts\<close>

lemma validate_range_ok:
  "validate_range what gt lt = Inr () \<longleftrightarrow>
     (gt \<noteq> None \<or> lt \<noteq> None) \<and> is_none_or gt (\<lambda>g. is_none_or lt (\<lambda>l. g < l))"
  by (auto simp: validate_range_def split: option.splits)

lemma validate_bound_ok: "validate_bound b = Inr () \<longleftrightarrow> b \<le> 100"
  by (auto simp: validate_bound_def)

lemma validate_confidence_ok:
  "validate_confidence m = Inr () \<longleftrightarrow> (\<exists>x. m = Fin x \<and> 0 \<le> x \<and> x \<le> 1)"
  by (cases m) (auto simp: validate_confidence_def confidence_try_new_def)

lemma risk_score_valid:
  "condition_validate (RiskScore gt lt) = Inr () \<longleftrightarrow>
     is_none_or gt (\<lambda>g. g \<le> 100) \<and> is_none_or lt (\<lambda>l. l \<le> 100)
       \<and> validate_range ''risk_score'' gt lt = Inr ()"
  by (cases gt; cases lt) (auto simp: List.map_filter_def validate_bound_ok)

declare condition_validate.simps(5) [simp del]

text \<open>The scores of the risk model are 0 to 100.\<close>

definition score_in_range :: "event_ctx \<Rightarrow> bool" where
  "score_in_range ctx = is_none_or (in_risk_score (ec_intel ctx)) (\<lambda>s. s \<le> 100)"

text \<open>The accepted risk-score ranges that contain no score.\<close>

fun dead_range :: "condition \<Rightarrow> bool" where
  "dead_range (RiskScore (Some g) (Some l)) \<longleftrightarrow> l \<le> g + 1"
| "dead_range (RiskScore (Some g) None) \<longleftrightarrow> 100 \<le> g"
| "dead_range (RiskScore None (Some l)) \<longleftrightarrow> l = 0"
| "dead_range _ \<longleftrightarrow> False"

definition ctx_of :: "event_facts \<Rightarrow> intel \<Rightarrow> event_ctx" where
  "ctx_of f i = \<lparr>ec_address = 0, ec_block = 0, ec_facts = f, ec_intel = i\<rparr>"

lemma transfer_range_witness:
  assumes "validate_range what gt lt = Inr ()"
  shows "\<exists>x::rat. is_none_or gt (\<lambda>b. b < x) \<and> is_none_or lt (\<lambda>b. x < b)"
proof (cases gt)
  case None
  then show ?thesis by (cases lt) (auto intro: lt_ex)
next
  case (Some g)
  then show ?thesis using assms by (cases lt) (auto simp: validate_range_ok intro: gt_ex dense)
qed

lemma risk_witness:
  assumes "condition_validate (RiskScore gt lt) = Inr ()"
  shows "(\<exists>s\<le>100. is_none_or gt (\<lambda>b. b < s) \<and> is_none_or lt (\<lambda>b. s < b)) \<longleftrightarrow> \<not> dead_range (RiskScore gt lt)"
proof (cases gt)
  case None
  then obtain l where l: "lt = Some l" using assms by (cases lt) (auto simp: risk_score_valid validate_range_ok)
  show ?thesis using None l by (auto simp: word_less_nat_alt unat_gt_0 intro!: exI[of _ 0])
next
  case g: (Some g)
  then have g100: "g \<le> 100" using assms by (auto simp: risk_score_valid)
  then have up: "unat (g + 1) = unat g + 1"
    by (subst unat_add_lem[THEN iffD1]) (auto simp: word_le_nat_alt)
  show ?thesis
  proof (cases lt)
    case None
    then show ?thesis using g by (auto intro: exI[of _ 100])
  next
    case l: (Some l)
    then have l100: "l \<le> 100" using assms by (auto simp: risk_score_valid)
    show ?thesis
    proof
      assume "\<exists>s\<le>100. is_none_or gt (\<lambda>b. b < s) \<and> is_none_or lt (\<lambda>b. s < b)"
      then obtain s where "g < s" "s < l" using g l by auto
      then show "\<not> dead_range (RiskScore gt lt)" using g l up by (simp add: word_less_nat_alt word_le_nat_alt)
    next
      assume "\<not> dead_range (RiskScore gt lt)"
      then have "g < g + 1" "g + 1 < l" using g l up by (simp_all add: word_less_nat_alt word_le_nat_alt)
      then show "\<exists>s\<le>100. is_none_or gt (\<lambda>b. b < s) \<and> is_none_or lt (\<lambda>b. s < b)"
        using g l l100 by (intro exI[of _ "g + 1"]) auto
    qed
  qed
qed

lemma matches_at: "compile_condition c (ctx_of f i) \<Longrightarrow> in_risk_score i = None \<Longrightarrow>
    \<exists>ctx. score_in_range ctx \<and> compile_condition c ctx"
  by (intro exI[of _ "ctx_of f i"]) (simp add: score_in_range_def ctx_of_def)

text \<open>
  Validation refuses the contradictions it can see, and not all: an accepted condition can match some
  event in every case but one, a risk-score range with no whole score inside. Those ranges, \<open>gt: 5, lt: 6\<close>
  for one, are accepted although no event can ever match them.
\<close>

theorem accepted_conditions_match:
  assumes "condition_validate c = Inr ()"
  shows "(\<exists>ctx. score_in_range ctx \<and> compile_condition c ctx) \<longleftrightarrow> \<not> dead_range c"
proof (cases c)
  case (TransferAmount ch tok gt lt)
  then obtain x where "is_none_or gt (\<lambda>b. b < x)" "is_none_or lt (\<lambda>b. x < b)"
    using assms transfer_range_witness[of "''transfer_amount''" gt lt] by auto
  then have "compile_condition c (ctx_of (Transfer ch tok x 0) intel_default)"
    by (simp add: TransferAmount ctx_of_def)
  from matches_at[OF this] show ?thesis by (simp add: TransferAmount intel_default_def)
next
  case (InteractedWith a k)
  then have "compile_condition c (ctx_of (Transfer 0 None 0 (the a)) (intel_default\<lparr>in_counterparty_labels := UNIV\<rparr>))"
    by (cases a; cases k) (simp_all add: ctx_of_def)
  from matches_at[OF this] show ?thesis by (simp add: InteractedWith intel_default_def)
next
  case (IncidentKind k m)
  then have "compile_condition c (ctx_of (Incident k m) intel_default)"
    using assms by (auto simp: ctx_of_def validate_confidence_ok)
  from matches_at[OF this] show ?thesis by (simp add: IncidentKind intel_default_def)
next
  case (EntityLabel k m)
  then have "compile_condition c (ctx_of StateChanged (intel_default\<lparr>in_entity_labels := [(k, m)]\<rparr>))"
    using assms by (auto simp: ctx_of_def validate_confidence_ok)
  from matches_at[OF this] show ?thesis by (simp add: EntityLabel intel_default_def)
next
  case (RiskScore gt lt)
  have "(\<exists>ctx. score_in_range ctx \<and> compile_condition c ctx) \<longleftrightarrow>
      (\<exists>s\<le>100. is_none_or gt (\<lambda>b. b < s) \<and> is_none_or lt (\<lambda>b. s < b))"
  proof
    assume "\<exists>ctx. score_in_range ctx \<and> compile_condition c ctx"
    then show "\<exists>s\<le>100. is_none_or gt (\<lambda>b. b < s) \<and> is_none_or lt (\<lambda>b. s < b)"
      using RiskScore by (auto simp: score_in_range_def is_some_and_def split: option.splits)
  next
    assume "\<exists>s\<le>100. is_none_or gt (\<lambda>b. b < s) \<and> is_none_or lt (\<lambda>b. s < b)"
    then obtain s where "s \<le> 100" "is_none_or gt (\<lambda>b. b < s)" "is_none_or lt (\<lambda>b. s < b)" by auto
    then show "\<exists>ctx. score_in_range ctx \<and> compile_condition c ctx"
      using RiskScore
      by (intro exI[of _ "ctx_of StateChanged (intel_default\<lparr>in_risk_score := Some s\<rparr>)"])
        (simp add: score_in_range_def ctx_of_def)
  qed
  then show ?thesis using risk_witness assms RiskScore by simp
next
  case (SanctionMatch l)
  then have "compile_condition c (ctx_of StateChanged (intel_default\<lparr>in_sanction_lists := {the l}\<rparr>))"
    by (cases l) (simp_all add: ctx_of_def)
  from matches_at[OF this] show ?thesis by (simp add: SanctionMatch intel_default_def)
next
  case (HopDistance a h)
  then have "compile_condition c (ctx_of StateChanged (intel_default\<lparr>in_hop_distance := [a \<mapsto> h]\<rparr>))"
    by (simp add: ctx_of_def)
  from matches_at[OF this] show ?thesis by (simp add: HopDistance intel_default_def)
next
  case (NewAddress w)
  then have "compile_condition c (ctx_of StateChanged (intel_default\<lparr>in_first_active_block := Some 0\<rparr>))"
    using assms by (simp add: ctx_of_def split: if_splits)
  from matches_at[OF this] show ?thesis by (simp add: NewAddress intel_default_def)
qed

theorem accepted_conditions_match_witness:
  "condition_validate (RiskScore (Some 5) (Some 6)) = Inr ()
    \<and> \<not> (\<exists>ctx. score_in_range ctx \<and> compile_condition (RiskScore (Some 5) (Some 6)) ctx)
    \<and> condition_validate (RiskScore (Some 5) (Some 7)) = Inr ()
    \<and> (\<exists>ctx. score_in_range ctx \<and> compile_condition (RiskScore (Some 5) (Some 7)) ctx)"
proof -
  have v: "condition_validate (RiskScore (Some 5) (Some 6)) = Inr ()"
    "condition_validate (RiskScore (Some 5) (Some 7)) = Inr ()"
    by (simp_all add: risk_score_valid validate_range_ok validate_bound_ok)
  moreover have "dead_range (RiskScore (Some 5) (Some 6))" "\<not> dead_range (RiskScore (Some 5) (Some 7))" by simp_all
  ultimately show ?thesis using accepted_conditions_match[OF v(1)] accepted_conditions_match[OF v(2)] by blast
qed


section \<open>The compiled set\<close>

definition rule_ok :: "(string \<Rightarrow> string + string) \<Rightarrow> rule \<Rightarrow> bool" where
  "rule_ok up r \<longleftrightarrow> rule_validate up r = Inr ()"

definition compiled_of :: "rule \<Rightarrow> compiled_rule" where
  "compiled_of r = \<lparr>cr_id = ru_id r, cr_owner = ru_owner r, cr_name = ru_name r, cr_actions = ru_actions r,
     cr_matcher = compile_match r\<rparr>"

definition error_of :: "rule \<Rightarrow> invalid_rule \<Rightarrow> compile_error" where
  "error_of r why = \<lparr>ce_rule_id = ru_id r, ce_name = ru_name r, ce_source = why\<rparr>"

lemma compile_rule_ok: "rule_ok up r \<Longrightarrow> compile_rule up r = Inr (compiled_of r)"
  by (simp add: compile_rule_def rule_ok_def compiled_of_def)

lemma compile_rule_error: "rule_validate up r = Inl why \<Longrightarrow> compile_rule up r = Inl (error_of r why)"
  by (simp add: compile_rule_def error_of_def)

lemma compile_rule_cases:
  obtains (ok) "rule_ok up r" "compile_rule up r = Inr (compiled_of r)"
  | (error) why where "rule_validate up r = Inl why" "compile_rule up r = Inl (error_of r why)"
proof (cases "rule_validate up r")
  case (Inl why)
  then show ?thesis using error compile_rule_error by blast
next
  case (Inr u)
  then show ?thesis using ok compile_rule_ok by (simp add: rule_ok_def)
qed

definition plan_of :: "rule list \<Rightarrow> enrichment_needs \<Rightarrow> enrichment_needs" where
  "plan_of rs n = fold absorb (concat (map each_condition rs)) n"

lemma plan_of_simps [simp]: "plan_of [] n = n" "plan_of (r # rs) n = plan_of rs (fold absorb (each_condition r) n)"
  by (simp_all add: plan_of_def)

lemma compile_loop_valid:
  "list_all (rule_ok up) rs \<Longrightarrow> compile_loop up rs n = Inr (map compiled_of rs, plan_of rs n)"
  by (induction rs arbitrary: n) (simp_all add: compile_rule_ok Let_def)

lemma compile_loop_invalid:
  "list_all (rule_ok up) us \<Longrightarrow> rule_validate up r = Inl why \<Longrightarrow>
     compile_loop up (us @ r # ws) n = Inl (error_of r why)"
  by (induction us arbitrary: n) (simp_all add: compile_rule_ok compile_rule_error Let_def)

lemma first_invalid:
  "\<not> list_all (rule_ok up) rs \<Longrightarrow>
     \<exists>us r ws why. rs = us @ r # ws \<and> list_all (rule_ok up) us \<and> rule_validate up r = Inl why"
proof (induction rs)
  case (Cons r rs)
  show ?case
  proof (cases up r rule: compile_rule_cases)
    case ok
    with Cons obtain us x ws why where "rs = us @ x # ws" "list_all (rule_ok up) us" "rule_validate up x = Inl why"
      by auto
    with ok have "r # rs = (r # us) @ x # ws \<and> list_all (rule_ok up) (r # us) \<and> rule_validate up x = Inl why" by simp
    then show ?thesis by blast
  next
    case (error why)
    then show ?thesis by (intro exI[of _ "[]"]) auto
  qed
qed simp

lemma set_compile_valid:
  "list_all (rule_ok up) rs \<Longrightarrow>
     set_compile up rs = Inr \<lparr>cs_rules = map compiled_of rs, cs_needs = plan_of rs needs_default\<rparr>"
  by (simp add: set_compile_def compile_loop_valid)

lemma set_compile_invalid:
  "list_all (rule_ok up) us \<Longrightarrow> rule_validate up r = Inl why \<Longrightarrow> set_compile up (us @ r # ws) = Inl (error_of r why)"
  by (simp add: set_compile_def compile_loop_invalid)

lemma set_compile_ok:
  "set_compile up rs = Inr s \<longleftrightarrow>
      list_all (rule_ok up) rs \<and> s = \<lparr>cs_rules = map compiled_of rs, cs_needs = plan_of rs needs_default\<rparr>"
proof (cases "list_all (rule_ok up) rs")
  case True
  then show ?thesis by (auto simp: set_compile_valid)
next
  case False
  from first_invalid[OF this] obtain e where "set_compile up rs = Inl e" using set_compile_invalid by metis
  with False show ?thesis by simp
qed

lemma set_compile_error:
  "set_compile up rs = Inl e \<longleftrightarrow>
      (\<exists>us r ws why. rs = us @ r # ws \<and> list_all (rule_ok up) us \<and> rule_validate up r = Inl why \<and> e = error_of r why)"
proof
  assume e: "set_compile up rs = Inl e"
  then have "\<not> list_all (rule_ok up) rs" using set_compile_valid by force
  from first_invalid[OF this] obtain us r ws why
    where w: "rs = us @ r # ws" "list_all (rule_ok up) us" "rule_validate up r = Inl why" by blast
  with e have "e = error_of r why" using set_compile_invalid by fastforce
  with w show "\<exists>us r ws why. rs = us @ r # ws \<and> list_all (rule_ok up) us \<and> rule_validate up r = Inl why \<and> e = error_of r why"
    by blast
qed (auto simp: set_compile_invalid)

text \<open>
  C38: Link or fail: a set compiles exactly when every rule of it is valid, and then holds one compiled
  rule per document, in order, under the document's identity, owner and actions; otherwise the error names the first
  offender and why it was refused.
\<close>

theorem set_compile_links_or_fails:
  "(set_compile up rs = Inr s \<longleftrightarrow> list_all (rule_ok up) rs
       \<and> s = \<lparr>cs_rules = map compiled_of rs, cs_needs = plan_of rs needs_default\<rparr>)
    \<and> (set_compile up rs = Inl e \<longleftrightarrow> (\<exists>us r ws why. rs = us @ r # ws \<and> list_all (rule_ok up) us
        \<and> rule_validate up r = Inl why \<and> e = error_of r why))"
  using set_compile_ok set_compile_error by blast

section \<open>The prefetch plan covers what the set reads\<close>

text \<open>\<open>covers n c\<close>: the plan \<open>n\<close> asks for what \<open>c\<close> reads; \<open>agree n i j\<close>: two snapshots that differ only where
  the plan does not ask.\<close>

fun covers :: "enrichment_needs \<Rightarrow> condition \<Rightarrow> bool" where
  "covers n (TransferAmount c tok gt lt) \<longleftrightarrow> True"
| "covers n (IncidentKind k m) \<longleftrightarrow> True"
| "covers n (InteractedWith a k) \<longleftrightarrow> (k \<noteq> None \<longrightarrow> ne_counterparty_labels n)"
| "covers n (EntityLabel k m) \<longleftrightarrow> ne_entity_labels n"
| "covers n (RiskScore gt lt) \<longleftrightarrow> ne_risk_score n"
| "covers n (SanctionMatch l) \<longleftrightarrow> ne_sanctions n"
| "covers n (HopDistance from hops) \<longleftrightarrow> from \<in> ne_hop_anchors n"
| "covers n (NewAddress w) \<longleftrightarrow> ne_first_active_block n"

definition agree :: "enrichment_needs \<Rightarrow> intel \<Rightarrow> intel \<Rightarrow> bool" where
  "agree n i j \<longleftrightarrow>
     (ne_risk_score n \<longrightarrow> in_risk_score i = in_risk_score j)
   \<and> (ne_entity_labels n \<longrightarrow> in_entity_labels i = in_entity_labels j)
   \<and> (ne_sanctions n \<longrightarrow> in_sanction_lists i = in_sanction_lists j)
   \<and> (ne_counterparty_labels n \<longrightarrow> in_counterparty_labels i = in_counterparty_labels j)
   \<and> (ne_first_active_block n \<longrightarrow> in_first_active_block i = in_first_active_block j)
   \<and> (\<forall>a\<in>ne_hop_anchors n. in_hop_distance i a = in_hop_distance j a)"

lemma absorb_covers: "covers (absorb c n) c"
  by (cases c) auto

lemma absorb_keeps: "covers n c \<Longrightarrow> covers (absorb d n) c"
  by (cases c; cases d) auto

lemma fold_absorb_keeps: "covers n c \<Longrightarrow> covers (fold absorb cs n) c"
  by (induction cs arbitrary: n) (auto simp: absorb_keeps)

lemma fold_absorb_covers: "c \<in> set cs \<Longrightarrow> covers (fold absorb cs n) c"
  by (induction cs arbitrary: n) (auto simp: absorb_covers fold_absorb_keeps)

lemma plan_covers: "r \<in> set rs \<Longrightarrow> c \<in> set (each_condition r) \<Longrightarrow> covers (plan_of rs n) c"
  unfolding plan_of_def by (rule fold_absorb_covers) auto

lemma condition_reads_plan:
  "covers n c \<Longrightarrow> agree n i (ec_intel ctx) \<Longrightarrow> compile_condition c (ctx\<lparr>ec_intel := i\<rparr>) = compile_condition c ctx"
  by (cases c) (auto simp: agree_def is_none_or_def split: event_facts.splits option.splits)

text \<open>The matchers of a compiled rule: the instant one, or those of its clause.\<close>

fun clause_matchers :: "compiled_temporal \<Rightarrow> matcher list" where
  "clause_matchers (CSequence steps w) = steps"
| "clause_matchers (CFrequency m n w) = [m]"

fun match_matchers :: "compiled_match \<Rightarrow> matcher list" where
  "match_matchers (Instant m) = [m]"
| "match_matchers (Temporal t) = clause_matchers t"

lemma logic_reads_plan:
  assumes "\<And>c. c \<in> set cs \<Longrightarrow> compile_condition c ctx' = compile_condition c ctx"
  shows "compile_logic cs l ctx' = compile_logic cs l ctx"
  using assms by (cases l) (auto simp: compile_logic_def list_all_iff list_ex_iff)

lemma rule_reads_plan:
  assumes "r \<in> set rs" and "agree (plan_of rs n) i (ec_intel ctx)" and "m \<in> set (match_matchers (compile_match r))"
  shows "m (ctx\<lparr>ec_intel := i\<rparr>) = m ctx"
proof -
  have c: "compile_condition c (ctx\<lparr>ec_intel := i\<rparr>) = compile_condition c ctx" if "c \<in> set (each_condition r)" for c
    using condition_reads_plan[OF plan_covers[OF assms(1) that] assms(2)] .
  show ?thesis
  proof (cases "ru_temporal r")
    case None
    then show ?thesis using assms(3) c by (auto simp: compile_match_def each_condition_def intro!: logic_reads_plan)
  next
    case (Some t)
    then show ?thesis using assms(3) c by (cases t) (auto simp: compile_match_def each_condition_def)
  qed
qed

lemma plan_suffices:
  assumes "set_compile up rs = Inr s" and "agree (cs_needs s) i (ec_intel ctx)"
    and "c \<in> set (cs_rules s)" and "m \<in> set (match_matchers (cr_matcher c))"
  shows "m (ctx\<lparr>ec_intel := i\<rparr>) = m ctx"
proof -
  from assms(1,3) obtain r where "r \<in> set rs" "c = compiled_of r" by (auto simp: set_compile_ok)
  then show ?thesis using assms rule_reads_plan[of r rs needs_default i ctx m]
    by (auto simp: set_compile_ok compiled_of_def)
qed

lemma evaluate_reads_plan:
  assumes "set_compile up rs = Inr s" and "agree (cs_needs s) i (ec_intel ctx)"
  shows "set_evaluate s (ctx\<lparr>ec_intel := i\<rparr>) = set_evaluate s ctx"
proof -
  have "instant_matches c (ctx\<lparr>ec_intel := i\<rparr>) = instant_matches c ctx" if "c \<in> set (cs_rules s)" for c
    using plan_suffices[OF assms that] by (auto simp: instant_matches_def split: compiled_match.splits)
  then show ?thesis by (simp add: set_evaluate_def cong: filter_cong)
qed

text \<open>A set with one rule of each kind: the treasury rule with its clause, and an instant one.\<close>

definition ex_up :: "string \<Rightarrow> string + string" where
  "ex_up url = Inr ''https''"

definition ex_sequence_rule :: rule where
  "ex_sequence_rule = \<lparr>ru_id = 1, ru_owner = 9, ru_name = ''layering'', ru_enabled = True,
     ru_conditions = [TransferAmount 1 None (Some 1000) None], ru_logic = LogicAll,
     ru_temporal = Some (Sequence [TransferAmount 1 None (Some 1000) None, InteractedWith None (Some MixerUser)] 100),
     ru_actions = [WebhookAlert ''https://example.org'']\<rparr>"

definition ex_score_rule :: rule where
  "ex_score_rule = \<lparr>ru_id = 2, ru_owner = 9, ru_name = ''risky'', ru_enabled = True,
     ru_conditions = [RiskScore (Some 80) None, SanctionMatch None], ru_logic = LogicAny,
     ru_temporal = None, ru_actions = [TagAddress ''watch'']\<rparr>"

lemma ex_rules_ok: "rule_ok ex_up ex_sequence_rule" "rule_ok ex_up ex_score_rule"
  by (simp_all add: rule_ok_def rule_validate_def validate_parts_def ex_sequence_rule_def ex_score_rule_def
        ex_up_def str_trim_def is_space_def validate_range_def risk_score_valid validate_field_def)

definition ex_set :: compiled_rule_set where
  "ex_set = \<lparr>cs_rules = map compiled_of [ex_sequence_rule, ex_score_rule],
     cs_needs = plan_of [ex_sequence_rule, ex_score_rule] needs_default\<rparr>"

lemma ex_set_compiles: "set_compile ex_up [ex_sequence_rule, ex_score_rule] = Inr ex_set"
  by (simp add: set_compile_ok ex_rules_ok ex_set_def)

section \<open>What a rule means\<close>

text \<open>
  The meaning of a compiled set: the rules that fire on an event are the documents without a
  temporal clause, in the order of the set, for which all, some or none of the conditions hold, as their
  logic says; a rule with a clause never fires on the spot, and is stepped instead.
\<close>

theorem evaluation_meaning:
  assumes "set_compile up rs = Inr s"
  shows "set_evaluate s ctx = map compiled_of (filter (\<lambda>r. ru_temporal r = None \<and>
      (let hits = length (filter (\<lambda>c. compile_condition c ctx) (ru_conditions r))
       in case ru_logic r of
            LogicAll \<Rightarrow> hits = length (ru_conditions r)
          | LogicAny \<Rightarrow> 0 < hits
          | LogicNot \<Rightarrow> hits = 0)) rs)
    \<and> temporal_rules s = map compiled_of (filter (\<lambda>r. ru_temporal r \<noteq> None) rs)"
proof -
  have all: "list_all P xs \<longleftrightarrow> length (filter P xs) = length xs" for P :: "condition \<Rightarrow> bool" and xs
    using length_filter_less[of _ xs P] by (fastforce simp: list_all_iff)
  have logic: "compile_logic cs l ctx = (let hits = length (filter (\<lambda>c. compile_condition c ctx) cs)
       in case l of LogicAll \<Rightarrow> hits = length cs | LogicAny \<Rightarrow> 0 < hits | LogicNot \<Rightarrow> hits = 0)" for cs l
    by (cases l) (simp_all add: compile_logic_def list.pred_map comp_def all list_ex_iff filter_empty_conv)
  have "instant_matches (compiled_of r) ctx \<longleftrightarrow> ru_temporal r = None \<and> compile_logic (ru_conditions r) (ru_logic r) ctx" for r
    by (simp add: instant_matches_def compiled_of_def compile_match_def split: option.splits temporal_constraint.splits)
  moreover have "cr_temporal (compiled_of r) \<noteq> None \<longleftrightarrow> ru_temporal r \<noteq> None" for r
    by (simp add: cr_temporal_def compiled_of_def compile_match_def split: option.splits temporal_constraint.splits)
  ultimately show ?thesis using assms
    by (simp add: set_compile_ok set_evaluate_def temporal_rules_def filter_map comp_def logic)
qed

theorem evaluation_meaning_witness:
  "set_evaluate ex_set (ctx_of StateChanged (intel_default\<lparr>in_risk_score := Some 90\<rparr>)) = [compiled_of ex_score_rule]
    \<and> set_evaluate ex_set (ctx_of StateChanged intel_default) = []
    \<and> temporal_rules ex_set = [compiled_of ex_sequence_rule]"
  using evaluation_meaning[OF ex_set_compiles, of "ctx_of StateChanged (intel_default\<lparr>in_risk_score := Some 90\<rparr>)"]
    evaluation_meaning[OF ex_set_compiles, of "ctx_of StateChanged intel_default"]
  by (simp add: ctx_of_def ex_sequence_rule_def ex_score_rule_def intel_default_def)

end
