(* ===== verification/Temporal_Rules.thy ===== *)
theory Temporal_Rules
  imports Rule_Model "HOL-Library.Sublist"
begin

text \<open>
  The temporal machines (\<open>crates/rule-engine/src/temporal.rs\<close>): one step of a sequence or frequency clause,
  the rewind of a reverted block, and the lifetime of a stored window (\<open>TtlPolicy\<close> of
  \<open>state_store.rs\<close>).

  \<open>temporal_step\<close> gives \<open>None\<close> for the panic of an index past the steps of a clause. A run folds it over the
  events of one address; its fires are paired with the blocks of their evidence.
\<close>

section \<open>Steps\<close>

datatype temporal_state = SSequence "nat list" | SFrequency "nat list"

type_synonym fired = "nat list"

fun state_matched :: "temporal_state option \<Rightarrow> nat list" where
  "state_matched (Some (SSequence matched)) = matched"
| "state_matched _ = []"

fun state_hits :: "temporal_state option \<Rightarrow> nat list" where
  "state_hits (Some (SFrequency hits)) = hits"
| "state_hits _ = []"

fun expire :: "nat \<Rightarrow> nat \<Rightarrow> nat list \<Rightarrow> nat list" where
  "expire w block [] = []"
| "expire w block (first # rest) = (if w < block - first then [] else first # rest)"

fun in_flight :: "(nat list \<Rightarrow> temporal_state) \<Rightarrow> nat list \<Rightarrow> temporal_state option" where
  "in_flight f [] = None"
| "in_flight f (b # bs) = Some (f (b # bs))"

fun temporal_step ::
  "compiled_temporal \<Rightarrow> temporal_state option \<Rightarrow> event_ctx \<Rightarrow> (temporal_state option \<times> fired option) option" where
  "temporal_step (CSequence steps w) state ctx =
     (let matched = expire w (ec_block ctx) (state_matched state);
          matched = (if length steps \<le> length matched then [] else matched)
      in if length steps \<le> length matched then None
         else if (steps ! length matched) ctx then
           (let matched = matched @ [ec_block ctx]
            in if length matched = length steps then Some (None, Some matched)
               else Some (in_flight SSequence matched, None))
         else Some (in_flight SSequence matched, None))"
| "temporal_step (CFrequency m n w) state ctx =
     (let hits = filter (\<lambda>hit. ec_block ctx - hit < w) (state_hits state)
      in if m ctx then
           (let hits = hits @ [ec_block ctx]
            in if n \<le> length hits then Some (None, Some hits)
               else Some (in_flight SFrequency hits, None))
         else Some (in_flight SFrequency hits, None))"

fun temporal_rewind :: "temporal_state \<Rightarrow> nat \<Rightarrow> temporal_state option" where
  "temporal_rewind (SSequence matched) reverted = in_flight SSequence (takeWhile (\<lambda>b. b < reverted) matched)"
| "temporal_rewind (SFrequency hits) reverted = in_flight SFrequency (filter (\<lambda>b. b \<noteq> reverted) hits)"

text \<open>A run over the events of one address: the final state and the fires, each after the event it is at.\<close>

fun temporal_run ::
  "compiled_temporal \<Rightarrow> temporal_state option \<Rightarrow> event_ctx list \<Rightarrow> (temporal_state option \<times> fired list) option" where
  "temporal_run t st [] = Some (st, [])"
| "temporal_run t st (ctx # ctxs) = do {
     (st', fired) \<leftarrow> temporal_step t st ctx;
     (st'', rest) \<leftarrow> temporal_run t st' ctxs;
     Some (st'', (case fired of Some bs \<Rightarrow> bs # rest | None \<Rightarrow> rest))
   }"

section \<open>Lifetimes\<close>

text \<open>Durations are nanoseconds.\<close>

record ttl_policy =
  tp_block_time :: nat
  tp_floor :: nat

definition ttl_for :: "ttl_policy \<Rightarrow> nat \<Rightarrow> nat" where
  "ttl_for p w = (let doubled = min (w * 2) (2 ^ 64 - 1);
                      blocks = (if doubled < 2 ^ 32 then doubled else 2 ^ 32 - 1)
     in max (min (tp_block_time p * blocks) duration_max) (tp_floor p))"

text \<open>The store sets the lifetime in whole seconds, at least one.\<close>

definition stored_seconds :: "nat \<Rightarrow> nat" where
  "stored_seconds ttl = max (ttl div 1000000000) 1"

definition ttl_default :: ttl_policy where
  "ttl_default = \<lparr>tp_block_time = 12 * 1000000000, tp_floor = 60 * 1000000000\<rparr>"

section \<open>Every step answers\<close>

lemma in_flight_matched [simp]: "state_matched (in_flight SSequence bs) = bs" "state_hits (in_flight SFrequency bs) = bs"
  by (cases bs; simp)+

lemma in_flight_none [simp]: "in_flight f bs = None \<longleftrightarrow> bs = []"
  by (cases bs) auto

lemma in_flight_some: "in_flight f bs = Some s \<longleftrightarrow> bs \<noteq> [] \<and> s = f bs"
  by (cases bs) auto

fun clause_ok :: "compiled_temporal \<Rightarrow> bool" where
  "clause_ok (CSequence steps w) \<longleftrightarrow> 2 \<le> length steps \<and> 0 < w"
| "clause_ok (CFrequency m n w) \<longleftrightarrow> 2 \<le> n \<and> 0 < w"

lemma compiled_clause_ok:
  assumes "set_compile up rs = Inr s" and "c \<in> set (temporal_rules s)" and "cr_temporal c = Some t"
  shows "clause_ok t"
proof -
  from assms obtain r where r: "rule_ok up r" "c = compiled_of r"
    by (auto simp: set_compile_ok temporal_rules_def list_all_iff)
  then obtain tc where tc: "ru_temporal r = Some tc" using assms(3)
    by (cases "ru_temporal r") (auto simp: compiled_of_def cr_temporal_def compile_match_def)
  then have "temporal_validate tc = Inr ()" using r(1)
    by (auto simp: rule_ok_def rule_validate_def validate_parts_def split: if_splits)
  then show ?thesis using assms(3) r(2) tc
    by (cases tc) (auto simp: compiled_of_def cr_temporal_def compile_match_def split: if_splits)
qed

lemma step_total:
  assumes "clause_ok t"
  obtains st' f where "temporal_step t st ctx = Some (st', f)"
  using assms by (cases t) (fastforce simp: Let_def split: if_splits)+

lemma run_total: "clause_ok t \<Longrightarrow> \<exists>st' fs. temporal_run t st ctxs = Some (st', fs)"
proof (induction ctxs arbitrary: st)
  case (Cons ctx ctxs)
  obtain st1 f where f: "temporal_step t st ctx = Some (st1, f)" using step_total[OF Cons.prems] by blast
  obtain st2 fs where "temporal_run t st1 ctxs = Some (st2, fs)" using Cons by blast
  with f show ?case by simp
qed simp

text \<open>
  A machine never indexes past its clause: for every temporal rule of a compiled set, every stored
  state, also one written under another definition of the rule, and every sequence of events, the run
  completes.
\<close>

theorem machines_never_panic:
  assumes "set_compile up rs = Inr s" and "c \<in> set (temporal_rules s)" and "cr_temporal c = Some t"
  shows "\<exists>st' fs. temporal_run t st ctxs = Some (st', fs)"
  using run_total[OF compiled_clause_ok[OF assms]] .

theorem machines_never_panic_witness:
  "\<exists>st' fs. temporal_run (CSequence (map compile_condition
       [TransferAmount 1 None (Some 1000) None, InteractedWith None (Some MixerUser)]) 100)
     (Some (SSequence [1, 2, 3, 4, 5])) [ctx_of StateChanged intel_default, ctx_of StateChanged intel_default]
   = Some (st', fs)"
proof (rule machines_never_panic[OF ex_set_compiles])
  show "compiled_of ex_sequence_rule \<in> set (temporal_rules ex_set)"
    by (simp add: temporal_rules_def ex_set_def compiled_of_def ex_sequence_rule_def cr_temporal_def compile_match_def)
qed (simp add: compiled_of_def ex_sequence_rule_def cr_temporal_def compile_match_def)

section \<open>Fires have evidence\<close>

text \<open>
  \<open>evidenced t past st\<close>: what a state records happened, in order, in \<open>past\<close>, and is less than a
  completed clause.
\<close>

definition matched_by :: "compiled_temporal \<Rightarrow> event_ctx list \<Rightarrow> bool" where
  "matched_by t cs = (case t of
      CSequence steps w \<Rightarrow> list_all2 (\<lambda>m c. m c) (take (length cs) steps) cs
    | CFrequency m n w \<Rightarrow> list_all m cs)"

fun progress :: "compiled_temporal \<Rightarrow> temporal_state option \<Rightarrow> nat list" where
  "progress (CSequence steps w) st = state_matched st"
| "progress (CFrequency m n w) st = state_hits st"

fun clause_size :: "compiled_temporal \<Rightarrow> nat" where
  "clause_size (CSequence steps w) = length steps"
| "clause_size (CFrequency m n w) = n"

definition evidenced :: "compiled_temporal \<Rightarrow> event_ctx list \<Rightarrow> temporal_state option \<Rightarrow> bool" where
  "evidenced t past st \<longleftrightarrow> length (progress t st) < clause_size t
     \<and> (\<exists>cs. subseq cs past \<and> matched_by t cs \<and> progress t st = map ec_block cs)"

text \<open>What the progress of the window that survives an event is.\<close>

fun surviving :: "compiled_temporal \<Rightarrow> nat \<Rightarrow> nat list \<Rightarrow> nat list" where
  "surviving (CSequence steps w) block bs = expire w block bs"
| "surviving (CFrequency m n w) block bs = filter (\<lambda>hit. block - hit < w) bs"

fun offered :: "compiled_temporal \<Rightarrow> nat list \<Rightarrow> event_ctx \<Rightarrow> bool" where
  "offered (CSequence steps w) bs ctx = (steps ! length bs) ctx"
| "offered (CFrequency m n w) bs ctx = m ctx"

fun store_as :: "compiled_temporal \<Rightarrow> nat list \<Rightarrow> temporal_state option" where
  "store_as (CSequence steps w) bs = in_flight SSequence bs"
| "store_as (CFrequency m n w) bs = in_flight SFrequency bs"

lemma progress_store [simp]: "progress t (store_as t bs) = bs"
  by (cases t) auto

lemma expire_length: "length (expire w block bs) \<le> length bs"
  by (cases bs) auto

lemma step_cases:
  assumes "length (progress t st) < clause_size t"
  shows "temporal_step t st ctx =
    (let bs = surviving t (ec_block ctx) (progress t st)
     in if offered t bs ctx
        then if length bs + 1 = clause_size t then Some (None, Some (bs @ [ec_block ctx]))
             else Some (store_as t (bs @ [ec_block ctx]), None)
        else Some (store_as t bs, None))"
proof (cases t)
  case (CSequence steps w)
  have "length (expire w (ec_block ctx) (state_matched st)) < length steps"
    using assms CSequence expire_length[of w "ec_block ctx" "state_matched st"] by simp
  then show ?thesis using CSequence by (auto simp: Let_def)
next
  case (CFrequency m n w)
  have "length (filter (\<lambda>hit. ec_block ctx - hit < w) (state_hits st)) < n"
    using assms CFrequency le_less_trans[OF length_filter_le] by fastforce
  then show ?thesis using CFrequency by (auto simp: Let_def)
qed

lemma matched_by_nil [simp]: "matched_by t []"
  by (cases t) (simp_all add: matched_by_def)

lemma surviving_evidence:
  assumes "matched_by t cs"
  shows "\<exists>cs'. subseq cs' cs \<and> matched_by t cs' \<and> surviving t b (map ec_block cs) = map ec_block cs'"
proof (cases t)
  case (CSequence steps w)
  then show ?thesis using assms by (cases cs) (auto intro: exI[of _ "[]"])
next
  case (CFrequency m n w)
  have "matched_by t (filter (\<lambda>c. b - ec_block c < w) cs)"
    using assms CFrequency by (auto simp: matched_by_def list_all_iff)
  moreover have "surviving t b (map ec_block cs) = map ec_block (filter (\<lambda>c. b - ec_block c < w) cs)"
    using CFrequency by (simp add: filter_map comp_def)
  ultimately show ?thesis using subseq_filter_left by blast
qed

lemma matched_by_offered:
  assumes "matched_by t cs" and "length cs < clause_size t" and "offered t (map ec_block cs) e"
  shows "matched_by t (cs @ [e])"
proof (cases t)
  case (CSequence steps w)
  then show ?thesis using assms
    by (auto simp: matched_by_def take_Suc_conv_app_nth intro!: list_all2_appendI)
next
  case (CFrequency m n w)
  then show ?thesis using assms by (simp add: matched_by_def)
qed

lemma surviving_length: "length (surviving t b bs) \<le> length bs"
  using expire_length by (cases t) auto

fun window_ok :: "compiled_temporal \<Rightarrow> nat \<Rightarrow> nat list \<Rightarrow> bool" where
  "window_ok (CSequence steps w) block bs \<longleftrightarrow> block - hd bs \<le> w"
| "window_ok (CFrequency m n w) block bs \<longleftrightarrow> list_all (\<lambda>b. block - b < w) bs"

lemma surviving_window_ok: "clause_ok t \<Longrightarrow> window_ok t b (surviving t b bs @ [b])"
proof (cases t)
  case (CSequence steps w)
  then show ?thesis by (cases bs) auto
qed (auto simp: list_all_iff)

text \<open>One step: the evidence of a fire, and what the state records after it.\<close>

lemma step_evidence:
  assumes ok: "clause_ok t" and ev: "evidenced t past st" and step: "temporal_step t st e = Some (st', f)"
  shows "evidenced t (case f of None \<Rightarrow> past @ [e] | Some bs \<Rightarrow> []) st'"
    and "\<And>bs. f = Some bs \<Longrightarrow> st' = None \<and> window_ok t (ec_block e) bs \<and>
       (\<exists>cs. subseq cs past \<and> bs = map ec_block (cs @ [e]) \<and> length (cs @ [e]) = clause_size t \<and> matched_by t (cs @ [e]))"
proof -
  from ev obtain cs where cs: "subseq cs past" "matched_by t cs" "progress t st = map ec_block cs"
    and len: "length (progress t st) < clause_size t" by (auto simp: evidenced_def)
  let ?bs = "surviving t (ec_block e) (progress t st)"
  obtain cs' where cs': "subseq cs' cs" "matched_by t cs'" "?bs = map ec_block cs'"
    using surviving_evidence[OF cs(2)] cs(3) by metis
  have sub: "subseq cs' past" using cs'(1) cs(1) by (rule subseq_order.trans)
  then have sub_e: "subseq (cs' @ [e]) (past @ [e])" "subseq cs' (past @ [e])"
    by (auto intro: subseq_order.trans)
  have bs_len: "length ?bs < clause_size t" using surviving_length len by (rule le_less_trans)
  then have cs'_len: "length cs' < clause_size t" using cs'(3) by simp
  have zero: "evidenced t [] None" using ok by (cases t) (auto simp: evidenced_def)
  note st = step_cases[OF len, of e, unfolded step]
  show "evidenced t (case f of None \<Rightarrow> past @ [e] | Some bs \<Rightarrow> []) st'"
  proof (cases "offered t ?bs e")
    case True
    then have "matched_by t (cs' @ [e])" using matched_by_offered[OF cs'(2) cs'_len] cs'(3) by simp
    then have m: "matched_by t (cs' @ [e])" .
    show ?thesis
    proof (cases "length ?bs + 1 = clause_size t")
      case True
      then show ?thesis using \<open>offered t ?bs e\<close> st zero by (simp add: Let_def)
    next
      case more: False
      then have p: "f = None" "progress t st' = map ec_block (cs' @ [e])" "length (progress t st') < clause_size t"
        using \<open>offered t ?bs e\<close> st bs_len cs'(3) by (auto simp: Let_def)
      have "evidenced t (past @ [e]) st'"
        unfolding evidenced_def by (intro conjI exI[of _ "cs' @ [e]"] p sub_e(1) m)
      then show ?thesis using p(1) by simp
    qed
  next
    case False
    then show ?thesis using st bs_len cs' sub_e(2) by (auto simp: Let_def evidenced_def)
  qed
  show "st' = None \<and> window_ok t (ec_block e) bs \<and>
      (\<exists>cs. subseq cs past \<and> bs = map ec_block (cs @ [e]) \<and> length (cs @ [e]) = clause_size t \<and> matched_by t (cs @ [e]))"
    if f: "f = Some bs" for bs
  proof -
    have off: "offered t ?bs e" and bs: "bs = ?bs @ [ec_block e]" "length ?bs + 1 = clause_size t" "st' = None"
      using st f by (auto simp: Let_def split: if_splits)
    have m: "matched_by t (cs' @ [e])" using matched_by_offered[OF cs'(2) cs'_len] off cs'(3) by simp
    have "length (cs' @ [e]) = clause_size t" using bs(2) cs'(3) by simp
    moreover have "bs = map ec_block (cs' @ [e])" using bs(1) cs'(3) by simp
    moreover have "window_ok t (ec_block e) bs" using surviving_window_ok[OF ok] bs(1) by simp
    ultimately show ?thesis using bs(3) sub m by blast
  qed
qed

lemma evidenced_mono: "evidenced t past st \<Longrightarrow> evidenced t (old @ past) st"
  by (auto simp: evidenced_def intro: list_emb_append2)

lemma run_evidence:
  assumes "clause_ok t"
  shows "evidenced t past st \<Longrightarrow> temporal_run t st es = Some (st', fs) \<Longrightarrow> evidenced t (past @ es) st'"
proof (induction es arbitrary: past st fs)
  case (Cons e es)
  from Cons.prems(2) obtain st1 f fs1 where st: "temporal_step t st e = Some (st1, f)" "temporal_run t st1 es = Some (st', fs1)"
    by (auto split: Option.bind_splits)
  have "evidenced t (past @ [e]) st1"
    using step_evidence(1)[OF assms Cons.prems(1) st(1)] evidenced_mono[of t "[]" st1 "past @ [e]"]
    by (cases f) auto
  from Cons.IH[OF this st(2)] show ?case by simp
qed simp

text \<open>
  C11: An alert is backed by evidence: when a machine that started idle fires, the blocks it reports are
  those of events it was offered since, in order and each once, the last being the event it fires on; they
  match the steps of a sequence one by one, or are as many matches as a frequency counts; the first lies
  within the window of the last, for a frequency all of them do; and the machine is idle again, so no
  event backs two alerts.
\<close>

theorem fires_have_evidence:
  assumes "clause_ok t" and "temporal_run t None past = Some (st, fs)" and "temporal_step t st e = Some (st', Some bs)"
  shows "st' = None \<and> window_ok t (ec_block e) bs \<and>
    (\<exists>cs. subseq cs past \<and> bs = map ec_block (cs @ [e]) \<and> length (cs @ [e]) = clause_size t \<and> matched_by t (cs @ [e]))"
proof -
  have "evidenced t [] None" using assms(1) by (cases t) (auto simp: evidenced_def)
  from run_evidence[OF assms(1) this assms(2)] have "evidenced t past st" by simp
  from step_evidence(2)[OF assms(1) this assms(3)] show ?thesis by simp
qed

definition at_block :: "nat \<Rightarrow> event_facts \<Rightarrow> intel \<Rightarrow> event_ctx" where
  "at_block b f i = \<lparr>ec_address = 7, ec_block = b, ec_facts = f, ec_intel = i\<rparr>"

definition ex_big :: "nat \<Rightarrow> event_ctx" where
  "ex_big b = at_block b (Transfer 1 None 5000 2) intel_default"

definition ex_mixer :: "nat \<Rightarrow> event_ctx" where
  "ex_mixer b = at_block b (Transfer 1 None 10 3) (intel_default\<lparr>in_counterparty_labels := {MixerUser}\<rparr>)"

definition ex_clause :: compiled_temporal where
  "ex_clause = CSequence (map compile_condition
     [TransferAmount 1 None (Some 1000) None, InteractedWith None (Some MixerUser)]) 100"

lemmas ex_events = ex_big_def ex_mixer_def ex_clause_def at_block_def intel_default_def

theorem fires_have_evidence_witness:
  "temporal_step ex_clause (Some (SSequence [100])) (ex_mixer 150) = Some (None, Some [100, 150])
    \<and> (\<exists>cs. subseq cs [ex_mixer 90, ex_big 100] \<and> [100, 150] = map ec_block (cs @ [ex_mixer 150]))"
proof -
  have run: "temporal_run ex_clause None [ex_mixer 90, ex_big 100] = Some (Some (SSequence [100]), [])"
    by (simp add: ex_events)
  have fire: "temporal_step ex_clause (Some (SSequence [100])) (ex_mixer 150) = Some (None, Some [100, 150])"
    by (simp add: ex_events)
  have "clause_ok ex_clause" by (simp add: ex_clause_def)
  from fires_have_evidence[OF this run fire] obtain cs
    where "subseq cs [ex_mixer 90, ex_big 100]" "[100, 150] = map ec_block (cs @ [ex_mixer 150])" by (elim conjE exE)
  then show ?thesis by (intro conjI fire exI[of _ cs])
qed

section \<open>Evidence makes fires\<close>

lemma anchored_complete:
  assumes "matched \<noteq> []" and "list_all (\<lambda>e. ec_block e - hd matched \<le> w) es" and "length matched < length steps"
    and "subseq cs es" and "list_all2 (\<lambda>m c. m c) (drop (length matched) steps) cs"
    and "temporal_run (CSequence steps w) (in_flight SSequence matched) es = Some (st, fs)"
  shows "fs \<noteq> []"
  using assms
proof (induction es arbitrary: matched cs fs)
  case Nil
  then have "cs = []" by simp
  then show ?case using Nil.prems(3,5) by simp
next
  case (Cons e es)
  have drop: "drop (length matched) steps = steps ! length matched # drop (length matched + 1) steps"
    using Cons.prems(3) by (simp add: Cons_nth_drop_Suc)
  obtain c cs' where cs: "cs = c # cs'" "(steps ! length matched) c" "list_all2 (\<lambda>m c. m c) (drop (length matched + 1) steps) cs'"
    using Cons.prems(5) unfolding drop by (auto simp: list_all2_Cons1)
  have keep: "expire w (ec_block e) matched = matched" using Cons.prems(1,2) by (cases matched) auto
  show ?case
  proof (cases "(steps ! length matched) e")
    case True
    show ?thesis
    proof (cases "length matched + 1 = length steps")
      case True
      then show ?thesis using \<open>(steps ! length matched) e\<close> Cons.prems(3,6) keep
        by (auto simp: Let_def split: Option.bind_splits)
    next
      case False
      have "subseq cs' es" using Cons.prems(4) cs(1) by (metis subseq_Cons' subseq_Cons2_iff)
      moreover have "hd (matched @ [ec_block e]) = hd matched" using Cons.prems(1) by simp
      moreover obtain fs' where "temporal_run (CSequence steps w) (in_flight SSequence (matched @ [ec_block e])) es = Some (st, fs')" "fs = fs'"
        using \<open>(steps ! length matched) e\<close> False Cons.prems(3,6) keep by (auto simp: Let_def split: Option.bind_splits)
      ultimately show ?thesis
        using Cons.IH[of "matched @ [ec_block e]" cs' fs'] Cons.prems(2,3) False cs(3) by simp
    qed
  next
    case False
    then have "c \<noteq> e" using cs(2) by blast
    then have "subseq cs es" using Cons.prems(4) cs(1) by auto
    moreover obtain fs' where "temporal_run (CSequence steps w) (in_flight SSequence matched) es = Some (st, fs')" "fs = fs'"
      using False Cons.prems(3,6) keep by (auto simp: Let_def split: Option.bind_splits)
    ultimately show ?thesis using Cons.IH[of matched cs fs'] Cons.prems(1,2,3,5) by simp
  qed
qed

text \<open>
  C27: A sequence misses nothing after its anchor: if an idle machine is offered a match of the first step
  and, among the events that follow within the window of that block, matches of the other steps occur in
  order, possibly with other events between them, then the machine fires.
\<close>

theorem anchored_sequence_fires:
  assumes "2 \<le> length steps" and "(steps ! 0) e" and "list_all (\<lambda>c. ec_block c - ec_block e \<le> w) es"
    and "subseq cs es" and "list_all2 (\<lambda>m c. m c) (tl steps) cs"
    and "temporal_run (CSequence steps w) None (e # es) = Some (st, fs)"
  shows "fs \<noteq> []"
proof -
  have "temporal_run (CSequence steps w) (in_flight SSequence [ec_block e]) es = Some (st, fs)"
    using assms(1,2,6) by (auto simp: Let_def split: Option.bind_splits if_splits)
  then show ?thesis using anchored_complete[of "[ec_block e]" w es steps cs st fs] assms
    by (simp add: drop_Suc)
qed

theorem anchored_sequence_fires_witness:
  "temporal_run ex_clause None [ex_big 100, ex_big 120, ex_mixer 150] = Some (None, [[100, 150]])
    \<and> [[100, 150]] \<noteq> ([] :: fired list)"
proof -
  have run: "temporal_run ex_clause None (ex_big 100 # [ex_big 120, ex_mixer 150]) = Some (None, [[100, 150]])"
    by (simp add: ex_events)
  show ?thesis
    using anchored_sequence_fires[OF _ _ _ _ _ run[unfolded ex_clause_def], of "[ex_mixer 150]"] run
    by (simp add: ex_events subseq_Cons' del: temporal_step.simps)
qed

text \<open>
  A window that opens later is not seen: while a first step is in progress, a second match of it does
  not start a window of its own, so when the first one expires the machine is idle although the ordered
  matches lie within the window. Without the stale event the same two events do fire.
\<close>

theorem stale_anchor_hides_a_window:
  "temporal_run ex_clause None [ex_big 0, ex_big 50, ex_mixer 110] = Some (None, [])
    \<and> temporal_run ex_clause None [ex_big 50, ex_mixer 110] = Some (None, [[50, 110]])"
  by (simp add: ex_events)

section \<open>A frequency counts the window of every event\<close>

text \<open>The reference keeps the events since the last fire and counts the window afresh at each event.\<close>

fun frequency_reference :: "matcher \<Rightarrow> nat \<Rightarrow> nat \<Rightarrow> event_ctx list \<Rightarrow> event_ctx list \<Rightarrow> fired list" where
  "frequency_reference m n w since [] = []"
| "frequency_reference m n w since (e # es) =
     (let window = filter (\<lambda>c. m c \<and> ec_block e - ec_block c < w) (since @ [e])
      in if m e \<and> n \<le> length window then map ec_block window # frequency_reference m n w [] es
         else frequency_reference m n w (since @ [e]) es)"

definition counts :: "matcher \<Rightarrow> nat \<Rightarrow> nat \<Rightarrow> event_ctx list \<Rightarrow> nat list \<Rightarrow> bool" where
  "counts m w low since hits \<longleftrightarrow> (\<forall>b\<ge>low. filter (\<lambda>h. b - h < w) hits
     = map ec_block (filter (\<lambda>c. m c \<and> b - ec_block c < w) since))"

lemma counts_step:
  assumes "counts m w low since hits" and "low \<le> ec_block e" and "0 < w"
  shows "counts m w (ec_block e) (since @ [e])
     (filter (\<lambda>h. ec_block e - h < w) hits @ (if m e then [ec_block e] else []))"
  unfolding counts_def
proof (intro allI impI)
  fix b assume b: "ec_block e \<le> b"
  have "filter (\<lambda>h. b - h < w) (filter (\<lambda>h. ec_block e - h < w) hits) = filter (\<lambda>h. b - h < w) hits"
    using b by (auto simp: filter_filter intro!: filter_cong)
  moreover have "filter (\<lambda>h. b - h < w) hits = map ec_block (filter (\<lambda>c. m c \<and> b - ec_block c < w) since)"
    using assms(1,2) b by (simp add: counts_def)
  ultimately show "filter (\<lambda>h. b - h < w) (filter (\<lambda>h. ec_block e - h < w) hits @ (if m e then [ec_block e] else []))
      = map ec_block (filter (\<lambda>c. m c \<and> b - ec_block c < w) (since @ [e]))"
    by simp
qed

lemma frequency_step:
  "temporal_step (CFrequency m n w) st e =
     (let hits = filter (\<lambda>h. ec_block e - h < w) (state_hits st) @ (if m e then [ec_block e] else [])
      in if m e \<and> n \<le> length hits then Some (None, Some hits) else Some (in_flight SFrequency hits, None))"
  by (simp add: Let_def)

lemma frequency_counts:
  assumes "0 < w" and "counts m w low since (state_hits st)" and "sorted (low # map ec_block es)"
    and "temporal_run (CFrequency m n w) st es = Some (st', fs)"
  shows "fs = frequency_reference m n w since es"
  using assms(2-4)
proof (induction es arbitrary: low since st fs)
  case (Cons e es)
  let ?hits = "filter (\<lambda>h. ec_block e - h < w) (state_hits st)"
  let ?window = "filter (\<lambda>c. m c \<and> ec_block e - ec_block c < w) (since @ [e])"
  have low: "low \<le> ec_block e" and so: "sorted (ec_block e # map ec_block es)" using Cons.prems(2) by auto
  note next_counts = counts_step[OF Cons.prems(1) low assms(1)]
  have window: "?hits @ (if m e then [ec_block e] else []) = map ec_block ?window"
    using next_counts[unfolded counts_def, rule_format, of "ec_block e"] assms(1) by (simp add: filter_filter)
  from Cons.prems(3) obtain st1 f fs1 where st: "temporal_step (CFrequency m n w) st e = Some (st1, f)"
    "temporal_run (CFrequency m n w) st1 es = Some (st', fs1)" "fs = (case f of Some bs \<Rightarrow> bs # fs1 | None \<Rightarrow> fs1)"
    by (auto split: Option.bind_splits)
  define win where "win = ?window"
  have step: "temporal_step (CFrequency m n w) st e =
     (if m e \<and> n \<le> length win then Some (None, Some (map ec_block win))
      else Some (in_flight SFrequency (map ec_block win), None))"
    unfolding frequency_step Let_def window win_def by simp
  have reference: "frequency_reference m n w since (e # es) =
      (if m e \<and> n \<le> length win then map ec_block win # frequency_reference m n w [] es
       else frequency_reference m n w (since @ [e]) es)"
    unfolding win_def by (simp only: frequency_reference.simps Let_def)
  show ?case
  proof (cases "m e \<and> n \<le> length win")
    case True
    then have f: "st1 = None" "f = Some (map ec_block win)" using st(1) unfolding step by simp_all
    have "counts m w (ec_block e) [] (state_hits None)" by (simp add: counts_def)
    then have "fs1 = frequency_reference m n w [] es" using Cons.IH[OF _ so] st(2) f(1) by blast
    then show ?thesis using True st(3) f(2) unfolding reference by simp
  next
    case False
    then have f: "st1 = in_flight SFrequency (map ec_block win)" "f = None" using st(1) unfolding step by auto
    have "counts m w (ec_block e) (since @ [e]) (state_hits st1)"
      using next_counts unfolding window f(1) win_def by simp
    then have "fs1 = frequency_reference m n w (since @ [e]) es" using Cons.IH[OF _ so st(2)] by blast
    then show ?thesis using st(3) f(2) unfolding reference if_not_P[OF False] by simp
  qed
qed simp

text \<open>
  C21: The sliding window of a frequency clause, pruned as it goes, is exact: over events in block order
  the machine fires exactly when recounting the events since the last fire finds the event itself
  and enough others in the last \<open>w\<close> blocks, and with the same blocks as evidence.
\<close>

theorem frequency_equals_reference:
  assumes "0 < w" and "sorted (map ec_block es)" and "temporal_run (CFrequency m n w) None es = Some (st, fs)"
  shows "fs = frequency_reference m n w [] es"
  by (rule frequency_counts[OF assms(1) _ _ assms(3), of 0]) (use assms(2) in \<open>simp_all add: counts_def\<close>)

theorem frequency_equals_reference_witness:
  "frequency_reference (compile_condition (TransferAmount 1 None (Some 1000) None)) 2 10 []
     [ex_big 5, ex_mixer 9, ex_big 15, ex_big 24] = [[15, 24]]"
proof -
  have "temporal_run (CFrequency (compile_condition (TransferAmount 1 None (Some 1000) None)) 2 10) None
     [ex_big 5, ex_mixer 9, ex_big 15, ex_big 24] = Some (None, [[15, 24]])"
    by (simp add: ex_events)
  from frequency_equals_reference[OF _ _ this] show ?thesis by (simp add: ex_events)
qed

section \<open>A stored window may lapse once it is over\<close>

lemma expired_is_idle:
  assumes "list_all (\<lambda>b. within_blocks t < ec_block ctx - b) (progress t (Some st))"
  shows "temporal_step t (Some st) ctx = temporal_step t None ctx"
proof (cases t)
  case (CSequence steps w)
  have "expire w (ec_block ctx) (state_matched (Some st)) = []"
    using assms CSequence by (cases "state_matched (Some st)") auto
  then show ?thesis using CSequence by simp
next
  case (CFrequency m n w)
  have "filter (\<lambda>h. ec_block ctx - h < w) (state_hits (Some st)) = []"
    using assms CFrequency by (auto simp: filter_empty_conv list_all_iff)
  then show ?thesis unfolding CFrequency frequency_step by simp
qed

lemma ttl_covers:
  assumes "2 * w < 2 ^ 32" and "tp_block_time p * (2 * w) \<le> duration_max" and "1000000000 dvd tp_block_time p"
  shows "tp_block_time p * (2 * w) \<le> stored_seconds (ttl_for p w) * 1000000000"
proof -
  have "min (w * 2) (2 ^ 64 - 1) = 2 * w" using assms(1) by simp
  then have "tp_block_time p * (2 * w) \<le> ttl_for p w" using assms(1,2) by (simp add: ttl_for_def Let_def mult.commute)
  then have "tp_block_time p * (2 * w) div 1000000000 \<le> stored_seconds (ttl_for p w)"
    unfolding stored_seconds_def by (meson div_le_mono max.coboundedI1)
  then have "tp_block_time p * (2 * w) div 1000000000 * 1000000000 \<le> stored_seconds (ttl_for p w) * 1000000000"
    by (rule mult_le_mono1)
  moreover have "1000000000 dvd tp_block_time p * (2 * w)" using assms(3) by simp
  ultimately show ?thesis by (metis dvd_div_mult_self)
qed

text \<open>
  The lapse of a stored window changes no answer as long as the chain keeps pace: if the last block
  recorded in the state is the one it was stored at, the lifetime has run out, and the blocks since came
  at more than half the expected rate, then the next event finds the stored window closed and is handled
  as by an idle machine.
\<close>

theorem ttl_lapse_is_window_close:
  assumes "list_all (\<lambda>b. b \<le> saved) (progress t (Some st))"
    and "stored_seconds (ttl_for p (within_blocks t)) * 1000000000 \<le> elapsed"
    and "elapsed < 2 * tp_block_time p * (ec_block ctx - saved)"
    and "2 * within_blocks t < 2 ^ 32" and "tp_block_time p * (2 * within_blocks t) \<le> duration_max"
    and "1000000000 dvd tp_block_time p"
  shows "temporal_step t (Some st) ctx = temporal_step t None ctx"
proof (rule expired_is_idle)
  have "tp_block_time p * (2 * within_blocks t) < 2 * tp_block_time p * (ec_block ctx - saved)"
    using ttl_covers[OF assms(4-6)] assms(2,3) by linarith
  then have "within_blocks t < ec_block ctx - saved" by (simp add: mult.left_commute mult.assoc)
  then show "list_all (\<lambda>b. within_blocks t < ec_block ctx - b) (progress t (Some st))"
    using assms(1) by (auto simp: list_all_iff)
qed

theorem ttl_lapse_is_window_close_witness:
  "temporal_step ex_clause (Some (SSequence [100])) (ex_mixer 201) = temporal_step ex_clause None (ex_mixer 201)
    \<and> temporal_step ex_clause (Some (SSequence [100])) (ex_mixer 200) \<noteq> temporal_step ex_clause None (ex_mixer 200)"
proof
  show "temporal_step ex_clause (Some (SSequence [100])) (ex_mixer 201) = temporal_step ex_clause None (ex_mixer 201)"
    by (rule ttl_lapse_is_window_close[where p = ttl_default and saved = 100 and elapsed = 2400000000000])
      (simp_all add: ex_events ttl_default_def ttl_for_def stored_seconds_def duration_max_def)
  show "temporal_step ex_clause (Some (SSequence [100])) (ex_mixer 200) \<noteq> temporal_step ex_clause None (ex_mixer 200)"
    by (simp add: ex_events)
qed

section \<open>Rewinding a block\<close>

definition rewind_state :: "temporal_state option \<Rightarrow> nat \<Rightarrow> temporal_state option" where
  "rewind_state st r = (case st of Some s \<Rightarrow> temporal_rewind s r | None \<Rightarrow> None)"

lemma rewind_store: "rewind_state (store_as t bs) r = (case t of
    CSequence steps w \<Rightarrow> store_as t (takeWhile (\<lambda>b. b < r) bs)
  | CFrequency m n w \<Rightarrow> store_as t (filter (\<lambda>b. b \<noteq> r) bs))"
  by (cases t; cases bs) (auto simp: rewind_state_def)

lemma rewind_appended:
  assumes "list_all (\<lambda>b. b < r) bs"
  shows "rewind_state (store_as t (bs @ replicate k r)) r = store_as t bs"
proof -
  have "takeWhile (\<lambda>b. b < r) (bs @ replicate k r) = bs"
    using assms by (auto simp: list_all_iff takeWhile_append2 intro: takeWhile_eq_all_conv[THEN iffD2])
  moreover have "filter (\<lambda>b. b \<noteq> r) (bs @ replicate k r) = bs"
    using assms by (auto simp: list_all_iff intro!: filter_id_conv[THEN iffD2])
  ultimately show ?thesis by (simp add: rewind_store split: compiled_temporal.splits)
qed

lemma surviving_append:
  assumes "clause_ok t" and "surviving t r bs = bs"
  shows "surviving t r (bs @ replicate k r) = bs @ replicate k r"
proof (cases t)
  case (CSequence steps w)
  then show ?thesis using assms by (cases bs; cases k) auto
next
  case (CFrequency m n w)
  then show ?thesis using assms by simp
qed

lemma run_at_block:
  assumes "clause_ok t" and "surviving t r bs = bs"
  shows "length (bs @ replicate k r) < clause_size t \<Longrightarrow> list_all (\<lambda>e. ec_block e = r) es \<Longrightarrow>
    temporal_run t (store_as t (bs @ replicate k r)) es = Some (st', []) \<Longrightarrow> \<exists>j. st' = store_as t (bs @ replicate j r)"
proof (induction es arbitrary: k)
  case (Cons e es)
  note s = step_cases[of t "store_as t (bs @ replicate k r)" e, unfolded progress_store, OF Cons.prems(1)]
  from Cons.prems(2) have e: "ec_block e = r" "list_all (\<lambda>e. ec_block e = r) es" by auto
  from Cons.prems(3) obtain st1 where st: "temporal_step t (store_as t (bs @ replicate k r)) e = Some (st1, None)"
    "temporal_run t st1 es = Some (st', [])"
    by (auto split: Option.bind_splits option.splits)
  have shift: "bs @ replicate k r @ [r] = bs @ replicate (Suc k) r" by (simp add: replicate_append_same)
  from s st(1) e(1) surviving_append[OF assms] Cons.prems(1)
  consider "st1 = store_as t (bs @ replicate k r)"
    | "st1 = store_as t (bs @ replicate (Suc k) r)" "length (bs @ replicate (Suc k) r) < clause_size t"
    by (auto simp: Let_def shift split: if_splits)
  then show ?case
  proof cases
    case 1
    then show ?thesis using Cons.IH[OF Cons.prems(1) e(2)] st(2) by simp
  next
    case 2
    then show ?thesis using Cons.IH[OF 2(2) e(2)] st(2) by simp
  qed
qed (auto intro: exI[of _ k])

lemma run_canonical:
  assumes "clause_ok t"
  shows "st = store_as t (progress t st) \<Longrightarrow> length (progress t st) < clause_size t \<Longrightarrow>
    temporal_run t st es = Some (st', fs) \<Longrightarrow> st' = store_as t (progress t st')"
proof (induction es arbitrary: st fs)
  case (Cons e es)
  from Cons.prems(3) obtain st1 f fs1 where s: "temporal_step t st e = Some (st1, f)" "temporal_run t st1 es = Some (st', fs1)"
    by (auto split: Option.bind_splits)
  have none: "None = store_as t (progress t None)" "length (progress t None) < clause_size t"
    using assms by (cases t; auto)+
  have "length (surviving t (ec_block e) (progress t st)) < clause_size t"
    using surviving_length Cons.prems(2) by (rule le_less_trans)
  then have "st1 = store_as t (progress t st1)" "length (progress t st1) < clause_size t"
    using step_cases[OF Cons.prems(2), of e] s(1) none by (auto simp: Let_def split: if_splits)
  then show ?case using Cons.IH s(2) by blast
qed simp

text \<open>
  C22: A rewind undoes the events of the reverted block: take any history of earlier blocks and then the
  events of one block, of which none closed the window and none completed the clause; rewinding the block
  gives back the state before it, exactly.
\<close>

theorem rewind_undoes_the_block:
  assumes "clause_ok t" and "temporal_run t None past = Some (st, fs)" and "list_all (\<lambda>e. ec_block e < r) past"
    and "list_all (\<lambda>e. ec_block e = r) es" and "temporal_run t st es = Some (st', [])"
    and "surviving t r (progress t st) = progress t st"
  shows "rewind_state st' r = st"
proof -
  have none: "None = store_as t (progress t None)" "length (progress t None) < clause_size t"
    using assms(1) by (cases t; auto)+
  have st: "st = store_as t (progress t st)" using run_canonical[OF assms(1) none assms(2)] .
  have "evidenced t [] None" using assms(1) by (cases t) (auto simp: evidenced_def)
  from run_evidence[OF assms(1) this assms(2)] obtain cs
    where cs: "subseq cs past" "progress t st = map ec_block cs" "length (progress t st) < clause_size t"
    by (auto simp: evidenced_def)
  then have below: "list_all (\<lambda>b. b < r) (progress t st)"
    using assms(3) by (auto simp: list_all_iff dest: list_emb_set)
  have "temporal_run t (store_as t (progress t st @ replicate 0 r)) es = Some (st', [])" using assms(5) st by simp
  from run_at_block[OF assms(1,6) _ assms(4) this] cs(3) obtain j where "st' = store_as t (progress t st @ replicate j r)"
    by auto
  then show ?thesis using rewind_appended[OF below] st by simp
qed

theorem rewind_undoes_the_block_witness:
  "rewind_state (Some (SFrequency [100, 104, 104])) 104 = Some (SFrequency [100])"
proof (rule rewind_undoes_the_block)
  let ?t = "CFrequency (compile_condition (TransferAmount 1 None (Some 1000) None)) 4 50"
  show "clause_ok ?t" by simp
  show "temporal_run ?t None [ex_big 100] = Some (Some (SFrequency [100]), [])" by (simp add: ex_events)
  show "temporal_run ?t (Some (SFrequency [100])) [ex_big 104, ex_big 104] = Some (Some (SFrequency [100, 104, 104]), [])"
    by (simp add: ex_events)
qed (simp_all add: ex_events)

text \<open>
  The conditions are needed: what a fire in the reverted block consumed does not come back. The first
  step at block 100 survives the reorganisation of block 150, but the machine that fired at 150 is idle
  after the rewind, and a second completion at the block that replaces it raises no alert.
\<close>

theorem rewind_forgets_a_fired_window:
  "temporal_run ex_clause None [ex_big 100] = Some (Some (SSequence [100]), [])
    \<and> temporal_run ex_clause None [ex_big 100, ex_mixer 150] = Some (None, [[100, 150]])
    \<and> rewind_state None 150 = None
    \<and> temporal_run ex_clause None [ex_mixer 151] = Some (None, [])
    \<and> temporal_run ex_clause (Some (SSequence [100])) [ex_mixer 151] = Some (None, [[100, 151]])"
  by (simp add: ex_events rewind_state_def)

end
