(* ===== verification/Temporal_Pool.thy ===== *)
theory Temporal_Pool
  imports Temporal_Rules
begin

text \<open>
  The shell around the temporal machines (\<open>crates/rule-engine/src/worker.rs\<close>, \<open>state_store.rs\<close>): the
  store of in-flight machines and its keys, the bounded cache of a worker, the worker, and the pool that
  routes the events of an address to one worker.

  The store is a map from keys to cells; a cell is a machine with its lifetime in seconds, or a value that no
  longer decodes. A transient fault is retried until it passes, so an operation either succeeds or fails
  for good; which ones do is a field of the environment. The commands are executed one after the other in
  an order that every mailbox agrees with; a flush marks a point of that order and changes nothing.
  Shutdown abandons the rest of the commands, so what was executed is a run of a prefix. The delivery of
  the fires and the tracing are left out.
\<close>

section \<open>Keys and cells\<close>

type_synonym state_key = "uuid \<times> address"

datatype cell = Stored temporal_state nat | Junk

type_synonym state_store = "state_key \<rightharpoonup> cell"

datatype store_error = Malformed

definition store_load :: "state_store \<Rightarrow> state_key \<Rightarrow> store_error + temporal_state option" where
  "store_load s k = (case s k of
      None \<Rightarrow> Inr None | Some (Stored st ttl) \<Rightarrow> Inr (Some st) | Some Junk \<Rightarrow> Inl Malformed)"

definition store_save :: "state_key \<Rightarrow> temporal_state \<Rightarrow> nat \<Rightarrow> state_store \<Rightarrow> state_store" where
  "store_save k st ttl s = s(k \<mapsto> Stored st (stored_seconds ttl))"

definition store_clear :: "state_key \<Rightarrow> state_store \<Rightarrow> state_store" where
  "store_clear k s = s(k := None)"

text \<open>
  Keys as text; printing and reading a UUID and an address belong to their libraries.
\<close>

record text_codec =
  tx_uuid :: "uuid \<Rightarrow> string"
  tx_uuid_parse :: "string \<Rightarrow> uuid option"
  tx_address :: "address \<Rightarrow> string"
  tx_address_parse :: "string \<Rightarrow> address option"

definition key_prefix :: string where
  "key_prefix = ''rules:temporal:''"

definition redis_key :: "text_codec \<Rightarrow> state_key \<Rightarrow> string" where
  "redis_key tx k = key_prefix @ tx_uuid tx (fst k) @ CHR '':'' # tx_address tx (snd k)"

fun split_once :: "char \<Rightarrow> string \<Rightarrow> (string \<times> string) option" where
  "split_once c [] = None"
| "split_once c (x # xs) = (if x = c then Some ([], xs)
     else map_option (\<lambda>(l, r). (x # l, r)) (split_once c xs))"

definition strip_prefix :: "string \<Rightarrow> string \<Rightarrow> string option" where
  "strip_prefix p s = (if take (length p) s = p then Some (drop (length p) s) else None)"

definition parse_redis_key :: "text_codec \<Rightarrow> string \<Rightarrow> state_key option" where
  "parse_redis_key tx raw =
     do {
       rest \<leftarrow> strip_prefix key_prefix raw;
       (rule, addr) \<leftarrow> split_once (CHR '':'') rest;
       r \<leftarrow> tx_uuid_parse tx rule;
       a \<leftarrow> tx_address_parse tx addr;
       Some (r, a)
     }"

definition in_flight_keys :: "text_codec \<Rightarrow> string list \<Rightarrow> state_key list" where
  "in_flight_keys tx raws = List.map_filter (parse_redis_key tx) raws"

section \<open>The cache of a worker\<close>

record state_cache =
  sc_capacity :: nat
  sc_map :: "(state_key \<times> temporal_state option) list"
  sc_order :: "state_key list"

definition cache_new :: "nat \<Rightarrow> state_cache" where
  "cache_new capacity = \<lparr>sc_capacity = capacity, sc_map = [], sc_order = []\<rparr>"

definition cache_get :: "state_cache \<Rightarrow> state_key \<Rightarrow> temporal_state option option" where
  "cache_get c k = (if sc_capacity c = 0 then None else hm_get (sc_map c) k)"

definition cache_insert :: "state_key \<Rightarrow> temporal_state option \<Rightarrow> state_cache \<Rightarrow> state_cache" where
  "cache_insert k m c =
     (if sc_capacity c = 0 then c
      else let entries = hm_insert k m (sc_map c)
        in if hm_contains (sc_map c) k then c\<lparr>sc_map := entries\<rparr>
           else let order = sc_order c @ [k]
             in if sc_capacity c < length entries
                then c\<lparr>sc_map := hm_remove (hd order) entries, sc_order := tl order\<rparr>
                else c\<lparr>sc_map := entries, sc_order := order\<rparr>)"

section \<open>The worker\<close>

record worker_env =
  we_ttl :: ttl_policy
  we_save_fails :: "state_key \<Rightarrow> bool"
  we_clear_fails :: "state_key \<Rightarrow> bool"

type_synonym worker_state = "state_cache \<times> state_store"

definition load_state :: "worker_env \<Rightarrow> state_key \<Rightarrow> worker_state \<Rightarrow> temporal_state option \<times> worker_state" where
  "load_state env k ws = (case cache_get (fst ws) k of
      Some cached \<Rightarrow> (cached, ws)
    | None \<Rightarrow> (case store_load (snd ws) k of
          Inr loaded \<Rightarrow> (loaded, cache_insert k loaded (fst ws), snd ws)
        | Inl err \<Rightarrow> (None, cache_insert k None (fst ws),
            if we_clear_fails env k then snd ws else store_clear k (snd ws))))"

definition save_state :: "worker_env \<Rightarrow> state_key \<Rightarrow> temporal_state \<Rightarrow> nat \<Rightarrow> worker_state \<Rightarrow> worker_state" where
  "save_state env k st w ws =
     (if we_save_fails env k then (cache_insert k None (fst ws), snd ws)
      else (cache_insert k (Some st) (fst ws), store_save k st (ttl_for (we_ttl env) w) (snd ws)))"

definition clear_state :: "worker_env \<Rightarrow> state_key \<Rightarrow> worker_state \<Rightarrow> worker_state" where
  "clear_state env k ws = (cache_insert k None (fst ws),
     if we_clear_fails env k then snd ws else store_clear k (snd ws))"

record temporal_fire =
  tf_rule_id :: uuid
  tf_owner :: uuid
  tf_rule_name :: string
  tf_actions :: "action list"
  tf_address :: address
  tf_block :: nat
  tf_matched_blocks :: "nat list"

definition fire_of :: "compiled_rule \<Rightarrow> event_ctx \<Rightarrow> fired \<Rightarrow> temporal_fire" where
  "fire_of rule ctx bs = \<lparr>tf_rule_id = cr_id rule, tf_owner = cr_owner rule, tf_rule_name = cr_name rule,
     tf_actions = cr_actions rule, tf_address = ec_address ctx, tf_block = ec_block ctx, tf_matched_blocks = bs\<rparr>"

definition step_rule ::
  "worker_env \<Rightarrow> event_ctx \<Rightarrow> compiled_rule \<Rightarrow> worker_state \<Rightarrow> (worker_state \<times> temporal_fire list) option" where
  "step_rule env ctx rule ws =
     do {
       clause \<leftarrow> cr_temporal rule;
       let key = (cr_id rule, ec_address ctx);
       let (prior, ws1) = load_state env key ws;
       (next, fired) \<leftarrow> temporal_step clause prior ctx;
       let ws2 = (if next \<noteq> prior
          then (case next of Some state \<Rightarrow> save_state env key state (within_blocks clause) ws1
                           | None \<Rightarrow> clear_state env key ws1)
          else ws1);
       Some (ws2, (case fired of Some bs \<Rightarrow> [fire_of rule ctx bs] | None \<Rightarrow> []))
     }"

fun step_rules ::
  "worker_env \<Rightarrow> event_ctx \<Rightarrow> compiled_rule list \<Rightarrow> worker_state \<Rightarrow> (worker_state \<times> temporal_fire list) option" where
  "step_rules env ctx [] ws = Some (ws, [])"
| "step_rules env ctx (rule # rules) ws =
     do {
       (ws', fs) \<leftarrow> step_rule env ctx rule ws;
       (ws'', fs') \<leftarrow> step_rules env ctx rules ws';
       Some (ws'', fs @ fs')
     }"

definition live_clause :: "compiled_rule_set \<Rightarrow> uuid \<Rightarrow> compiled_temporal option" where
  "live_clause rules i = Option.bind (find (\<lambda>rule. cr_id rule = i) (temporal_rules rules)) cr_temporal"

definition rewind_key ::
  "worker_env \<Rightarrow> compiled_rule_set \<Rightarrow> state_key \<Rightarrow> nat \<Rightarrow> worker_state \<Rightarrow> worker_state" where
  "rewind_key env rules key reverted ws = (let (prior, ws1) = load_state env key ws
     in case prior of
          None \<Rightarrow> ws1
        | Some st \<Rightarrow> (case temporal_rewind st reverted of
              Some next \<Rightarrow>
                if next = st then ws1
                else (case live_clause rules (fst key) of
                    Some clause \<Rightarrow> save_state env key next (within_blocks clause) ws1
                  | None \<Rightarrow> clear_state env key ws1)
            | None \<Rightarrow> clear_state env key ws1))"

datatype command = Step event_ctx | RewindKey state_key nat

definition worker_exec ::
  "worker_env \<Rightarrow> compiled_rule_set \<Rightarrow> command \<Rightarrow> worker_state \<Rightarrow> (worker_state \<times> temporal_fire list) option" where
  "worker_exec env rules cmd ws = (case cmd of
      Step ctx \<Rightarrow> step_rules env ctx (temporal_rules rules) ws
    | RewindKey key reverted \<Rightarrow> Some (rewind_key env rules key reverted ws, []))"

section \<open>The pool\<close>

text \<open>The leading eight bytes of an address, big-endian, modulo the number of workers.\<close>

definition partition_for :: "address \<Rightarrow> nat \<Rightarrow> nat" where
  "partition_for a partitions = unat (drop_bit 96 a) mod partitions"

record temporal_pool =
  pool_caches :: "state_cache list"
  pool_store :: state_store

definition pool_spawn :: "nat \<Rightarrow> nat \<Rightarrow> state_store \<Rightarrow> temporal_pool" where
  "pool_spawn partitions cache_entries s =
     \<lparr>pool_caches = replicate partitions (cache_new cache_entries), pool_store = s\<rparr>"

fun command_address :: "command \<Rightarrow> address" where
  "command_address (Step ctx) = ec_address ctx"
| "command_address (RewindKey key reverted) = snd key"

definition pool_exec ::
  "worker_env \<Rightarrow> compiled_rule_set \<Rightarrow> command \<Rightarrow> temporal_pool \<Rightarrow> (temporal_pool \<times> temporal_fire list) option" where
  "pool_exec env rules cmd p =
     (if pool_caches p = [] then None
      else let i = partition_for (command_address cmd) (length (pool_caches p))
        in do {
             ((c, s), fs) \<leftarrow> worker_exec env rules cmd (pool_caches p ! i, pool_store p);
             Some (\<lparr>pool_caches = (pool_caches p)[i := c], pool_store = s\<rparr>, fs)
           })"

fun pool_run ::
  "worker_env \<Rightarrow> compiled_rule_set \<Rightarrow> command list \<Rightarrow> temporal_pool \<Rightarrow> (temporal_pool \<times> temporal_fire list) option" where
  "pool_run env rules [] p = Some (p, [])"
| "pool_run env rules (cmd # cmds) p =
     do {
       (p', fs) \<leftarrow> pool_exec env rules cmd p;
       (p'', fs') \<leftarrow> pool_run env rules cmds p';
       Some (p'', fs @ fs')
     }"

text \<open>The scan may list a key more than once and in any order.\<close>

definition pool_rewind ::
  "worker_env \<Rightarrow> compiled_rule_set \<Rightarrow> state_key list \<Rightarrow> nat \<Rightarrow> temporal_pool \<Rightarrow> temporal_pool option" where
  "pool_rewind env rules keys reverted p =
     map_option fst (pool_run env rules (map (\<lambda>k. RewindKey k reverted) keys) p)"

section \<open>Keys survive the store\<close>

lemma split_once_append: "c \<notin> set xs \<Longrightarrow> split_once c (xs @ c # ys) = Some (xs, ys)"
  by (induction xs) auto

text \<open>
  The key of a machine is read back from the store as the machine it names, and a scanned key that does
  not start with the prefix is skipped: provided the UUID and address libraries read what they
  print, and print a UUID without a colon.
\<close>

theorem redis_key_roundtrip:
  assumes "\<And>u. tx_uuid_parse tx (tx_uuid tx u) = Some u" and "\<And>a. tx_address_parse tx (tx_address tx a) = Some a"
    and "\<And>u. CHR '':'' \<notin> set (tx_uuid tx u)"
  shows "parse_redis_key tx (redis_key tx k) = Some k
    \<and> in_flight_keys tx (map (redis_key tx) ks @ [''foreign'']) = ks"
proof -
  have one: "parse_redis_key tx (redis_key tx k) = Some k" for k
    using assms by (cases k) (simp add: parse_redis_key_def redis_key_def strip_prefix_def split_once_append)
  have "in_flight_keys tx (map (redis_key tx) ks @ [''foreign'']) = ks"
    by (induction ks) (simp_all add: in_flight_keys_def one,
      simp add: parse_redis_key_def strip_prefix_def key_prefix_def)
  with one show ?thesis by blast
qed

definition ex_codec_text :: text_codec where
  "ex_codec_text = \<lparr>tx_uuid = (\<lambda>u. replicate (unat u) (CHR ''u'')), tx_uuid_parse = (\<lambda>s. Some (of_nat (length s))),
     tx_address = (\<lambda>a. replicate (unat a) (CHR ''a'')), tx_address_parse = (\<lambda>s. Some (of_nat (length s)))\<rparr>"

theorem redis_key_roundtrip_witness:
  "parse_redis_key ex_codec_text (redis_key ex_codec_text (3, 5)) = Some (3, 5)"
  using redis_key_roundtrip[of ex_codec_text "(3, 5)" "[]"] by (simp add: ex_codec_text_def)

section \<open>A cache that never lies\<close>

text \<open>
  The contract the worker relies on: an entry read back after an insertion is the inserted one or was there
  before. \<open>truthful\<close>: every entry is about an owned key and says what the view says.
\<close>

definition truthful :: "('k \<Rightarrow> 'm option) \<Rightarrow> ('k \<Rightarrow> bool) \<Rightarrow> ('k \<Rightarrow> 'm) \<Rightarrow> bool" where
  "truthful look owned view \<longleftrightarrow> (\<forall>k v. look k = Some v \<longrightarrow> owned k \<and> v = view k)"

locale machine_cache =
  fixes lookup :: "'c \<Rightarrow> 'k \<Rightarrow> 'm option" and put :: "'k \<Rightarrow> 'm \<Rightarrow> 'c \<Rightarrow> 'c" and inv :: "'c \<Rightarrow> bool"
  assumes put_inv: "inv c \<Longrightarrow> inv (put k m c)"
    and lookup_put: "inv c \<Longrightarrow> lookup (put k m c) k' = Some v \<Longrightarrow>
      (if k' = k then v = m else lookup c k' = Some v)"
begin

lemma put_truthful:
  assumes "inv c" and "truthful (lookup c) owned view" and "owned k"
  shows "truthful (lookup (put k m c)) owned (view(k := m))"
  unfolding truthful_def
proof (intro allI impI)
  fix k' v
  assume "lookup (put k m c) k' = Some v"
  from lookup_put[OF assms(1) this] assms(2,3) show "owned k' \<and> v = (view(k := m)) k'"
    by (auto simp: truthful_def split: if_splits)
qed

lemma foreign_writes:
  assumes "truthful (lookup c) owned view" and "\<And>k. owned k \<Longrightarrow> view' k = view k"
  shows "truthful (lookup c) owned view'"
  using assms by (auto simp: truthful_def)

lemma lookup_truthful: "truthful (lookup c) owned view \<Longrightarrow> lookup c k = Some v \<Longrightarrow> v = view k"
  by (simp add: truthful_def)

end

definition cache_inv :: "state_cache \<Rightarrow> bool" where
  "cache_inv c \<longleftrightarrow> hm_distinct (sc_map c) \<and> distinct (sc_order c)
     \<and> set (sc_order c) = set (hm_keys (sc_map c)) \<and> length (sc_map c) \<le> sc_capacity c"

lemma cache_new_inv: "cache_inv (cache_new n)"
  by (simp add: cache_inv_def cache_new_def)

lemma cache_insert_inv:
  assumes "cache_inv c"
  shows "cache_inv (cache_insert k m c)"
proof (cases "hm_contains (sc_map c) k")
  case True
  then have "insert k (set (hm_keys (sc_map c))) = set (hm_keys (sc_map c))" by (simp only: hm_contains_iff insert_absorb)
  then have "set (hm_keys (hm_insert k m (sc_map c))) = set (hm_keys (sc_map c))" by (simp only: keys_hm_insert)
  then show ?thesis using assms True
    by (auto simp: cache_inv_def cache_insert_def hm_distinct_insert length_hm_insert simp del: set_map)
next
  case False
  then have k: "k \<notin> set (hm_keys (sc_map c))" by (simp add: map_of_eq_None_iff)
  let ?entries = "hm_insert k m (sc_map c)" and ?order = "sc_order c @ [k]"
  have e: "hm_distinct ?entries" "distinct ?order" "set ?order = set (hm_keys ?entries)" "length ?entries = Suc (length (sc_map c))"
    using assms False k
    by (simp_all add: cache_inv_def hm_distinct_insert keys_hm_insert length_hm_insert del: set_map)
  show ?thesis
  proof (cases "sc_capacity c < length ?entries")
    case True
    obtain x xs where x: "?order = x # xs" by (cases ?order) auto
    then have "x \<in> set (hm_keys ?entries)" using e(3) by auto
    then have "hm_contains ?entries x" by (simp only: hm_contains_iff)
    then have "Suc (length (hm_remove x ?entries)) = length ?entries" by (rule length_hm_remove[OF e(1)])
    moreover have "set xs = set (hm_keys (hm_remove x ?entries))" "distinct xs"
      using e(2,3) x by (auto simp: keys_hm_remove simp del: set_map)
    ultimately show ?thesis using assms e(1,4) True False x
      by (auto simp: cache_inv_def cache_insert_def Let_def hm_distinct_remove)
  next
    case more: False
    then show ?thesis using assms e False by (simp add: cache_inv_def cache_insert_def Let_def)
  qed
qed

lemma cache_get_insert:
  assumes "cache_inv c" and "cache_get (cache_insert k m c) k' = Some v"
  shows "if k' = k then v = m else cache_get c k' = Some v"
proof -
  have "hm_get (hm_remove (hd (sc_order c @ [k])) (hm_insert k m (sc_map c))) k' = Some v \<Longrightarrow>
      hm_get (hm_insert k m (sc_map c)) k' = Some v"
    by (simp add: hm_get_remove split: if_splits)
  then have "hm_get (hm_insert k m (sc_map c)) k' = Some v" "sc_capacity c \<noteq> 0"
    using assms(2) by (auto simp: cache_get_def cache_insert_def Let_def split: if_splits)
  then show ?thesis by (auto simp: cache_get_def hm_get_insert split: if_splits)
qed

interpretation cache: machine_cache cache_get cache_insert cache_inv
  by unfold_locales (use cache_insert_inv cache_get_insert in blast)+

text \<open>
  The cache of a worker stays within its capacity, keeps one entry per key and queues exactly the keys
  it holds, whatever is inserted; and what it answers for a key is the machine last inserted for it.
\<close>

definition cache_inserts :: "(state_key \<times> temporal_state option) list \<Rightarrow> state_cache \<Rightarrow> state_cache" where
  "cache_inserts entries c = fold (\<lambda>(k, m). cache_insert k m) entries c"

theorem cache_bounded_and_truthful:
  "cache_inv (cache_inserts entries (cache_new n))
    \<and> length (sc_map (cache_inserts entries (cache_new n))) \<le> n
    \<and> (case cache_get (cache_inserts entries (cache_new n)) k of
         None \<Rightarrow> True | Some m \<Rightarrow> hm_get (rev entries) k = Some m)"
proof -
  define c where "c = cache_inserts entries (cache_new n)"
  have cap: "sc_capacity (cache_insert k m c) = sc_capacity c" for k m c
    by (simp add: cache_insert_def Let_def)
  have "cache_inv c \<and> sc_capacity c = n \<and> (\<forall>m. cache_get c k = Some m \<longrightarrow> hm_get (rev entries) k = Some m)"
    unfolding c_def
  proof (induction entries rule: rev_induct)
    case Nil
    show ?case using cache_new_inv by (simp add: cache_inserts_def) (simp add: cache_new_def cache_get_def)
  next
    case (snoc e entries)
    obtain k1 m1 where e: "e = (k1, m1)" by fastforce
    have step: "cache_inserts (entries @ [e]) (cache_new n) = cache_insert k1 m1 (cache_inserts entries (cache_new n))"
      by (simp add: cache_inserts_def e)
    show ?case unfolding step using snoc.IH cache_insert_inv cap
      by (auto simp: e dest: cache_get_insert[rotated] split: if_splits)
  qed
  then show ?thesis by (auto simp: c_def[symmetric] cache_inv_def split: option.splits)
qed

section \<open>The machines behind the shell\<close>

text \<open>
  The specification has no store, no cache and no workers: one machine per key, stepped by every temporal rule.
\<close>

type_synonym machines = "state_key \<Rightarrow> temporal_state option"

definition spec_rule :: "event_ctx \<Rightarrow> compiled_rule \<Rightarrow> machines \<Rightarrow> (machines \<times> temporal_fire list) option" where
  "spec_rule ctx rule ms =
     do {
       clause \<leftarrow> cr_temporal rule;
       (next, fired) \<leftarrow> temporal_step clause (ms (cr_id rule, ec_address ctx)) ctx;
       Some (ms((cr_id rule, ec_address ctx) := next), (case fired of Some bs \<Rightarrow> [fire_of rule ctx bs] | None \<Rightarrow> []))
     }"

fun spec_rules :: "event_ctx \<Rightarrow> compiled_rule list \<Rightarrow> machines \<Rightarrow> (machines \<times> temporal_fire list) option" where
  "spec_rules ctx [] ms = Some (ms, [])"
| "spec_rules ctx (rule # rules) ms =
     do {
       (ms', fs) \<leftarrow> spec_rule ctx rule ms;
       (ms'', fs') \<leftarrow> spec_rules ctx rules ms';
       Some (ms'', fs @ fs')
     }"

definition spec_rewind :: "compiled_rule_set \<Rightarrow> nat \<Rightarrow> uuid \<Rightarrow> temporal_state option \<Rightarrow> temporal_state option" where
  "spec_rewind rules reverted i st =
     (if rewind_state st reverted = st \<or> live_clause rules i \<noteq> None then rewind_state st reverted else None)"

definition spec_exec :: "compiled_rule_set \<Rightarrow> command \<Rightarrow> machines \<Rightarrow> (machines \<times> temporal_fire list) option" where
  "spec_exec rules cmd ms = (case cmd of
      Step ctx \<Rightarrow> spec_rules ctx (temporal_rules rules) ms
    | RewindKey key reverted \<Rightarrow> Some (ms(key := spec_rewind rules reverted (fst key) (ms key)), []))"

fun spec_run :: "compiled_rule_set \<Rightarrow> command list \<Rightarrow> machines \<Rightarrow> (machines \<times> temporal_fire list) option" where
  "spec_run rules [] ms = Some (ms, [])"
| "spec_run rules (cmd # cmds) ms =
     do {
       (ms', fs) \<leftarrow> spec_exec rules cmd ms;
       (ms'', fs') \<leftarrow> spec_run rules cmds ms';
       Some (ms'', fs @ fs')
     }"

section \<open>The shell refines the machines\<close>

definition stored_view :: "state_store \<Rightarrow> machines" where
  "stored_view s k = (case s k of Some (Stored st ttl) \<Rightarrow> Some st | _ \<Rightarrow> None)"

definition faultless :: "worker_env \<Rightarrow> bool" where
  "faultless env \<longleftrightarrow> we_save_fails env = (\<lambda>k. False) \<and> we_clear_fails env = (\<lambda>k. False)"

definition worker_ok :: "(state_key \<Rightarrow> bool) \<Rightarrow> worker_state \<Rightarrow> bool" where
  "worker_ok owned ws \<longleftrightarrow> cache_inv (fst ws) \<and> truthful (cache_get (fst ws)) owned (stored_view (snd ws))"

text \<open>\<open>moves owned ws ws' ms\<close>: the worker is sound after the operation, and the machines are \<open>ms\<close>.\<close>

definition moves :: "(state_key \<Rightarrow> bool) \<Rightarrow> worker_state \<Rightarrow> machines \<Rightarrow> bool" where
  "moves owned ws ms \<longleftrightarrow> worker_ok owned ws \<and> stored_view (snd ws) = ms"

lemma movesD:
  assumes "moves owned ws ms"
  shows "cache_inv (fst ws)" and "truthful (cache_get (fst ws)) owned ms" and "stored_view (snd ws) = ms"
  using assms by (auto simp: moves_def worker_ok_def)

lemma movesI: "cache_inv c \<Longrightarrow> truthful (cache_get c) owned ms \<Longrightarrow> stored_view s = ms \<Longrightarrow> moves owned (c, s) ms"
  by (simp add: moves_def worker_ok_def)

lemma stored_view_save [simp]: "stored_view (store_save k st ttl s) = (stored_view s)(k := Some st)"
  by (auto simp: stored_view_def store_save_def)

lemma stored_view_clear [simp]: "stored_view (store_clear k s) = (stored_view s)(k := None)"
  by (auto simp: stored_view_def store_clear_def)

lemma stored_view_load: "stored_view s k = (case store_load s k of Inr m \<Rightarrow> m | Inl e \<Rightarrow> None)"
  by (auto simp: stored_view_def store_load_def split: option.splits cell.splits)

lemma insert_moves:
  assumes "moves owned ws ms" and "owned k" and "stored_view s' = ms(k := m)"
  shows "moves owned (cache_insert k m (fst ws), s') (ms(k := m))"
  by (rule movesI[OF cache_insert_inv[OF movesD(1)[OF assms(1)]]
        cache.put_truthful[OF movesD(1)[OF assms(1)] movesD(2)[OF assms(1)] assms(2)] assms(3)])

lemma load_moves:
  assumes "moves owned ws ms" and "owned k"
  shows "fst (load_state env k ws) = ms k" and "moves owned (snd (load_state env k ws)) ms"
proof -
  have view: "stored_view (snd ws) = ms" using assms(1) by (simp add: moves_def)
  have "fst (load_state env k ws) = ms k \<and> moves owned (snd (load_state env k ws)) ms"
  proof (cases "cache_get (fst ws) k")
    case (Some m)
    then have "m = ms k" using cache.lookup_truthful[OF movesD(2)[OF assms(1)]] by blast
    then show ?thesis using Some assms(1) by (simp add: load_state_def)
  next
    case None
    show ?thesis
    proof (cases "store_load (snd ws) k")
      case (Inr m)
      then have m: "m = ms k" using stored_view_load[of "snd ws" k] view by simp
      then show ?thesis using None Inr insert_moves[OF assms, of "snd ws" m] view by (simp add: load_state_def)
    next
      case (Inl e)
      then have m: "ms k = None" using stored_view_load[of "snd ws" k] view by simp
      then have same: "ms(k := None) = ms" by auto
      then show ?thesis
        using None Inl m view insert_moves[OF assms, of "snd ws" None] insert_moves[OF assms, of "store_clear k (snd ws)" None]
        by (simp add: load_state_def)
    qed
  qed
  then show "fst (load_state env k ws) = ms k" "moves owned (snd (load_state env k ws)) ms" by simp_all
qed

lemma save_moves:
  assumes "faultless env" and "moves owned ws ms" and "owned k"
  shows "moves owned (save_state env k st w ws) (ms(k := Some st))"
  using insert_moves[OF assms(2,3), of "store_save k st (ttl_for (we_ttl env) w) (snd ws)" "Some st"] assms(1,2)
  by (simp add: save_state_def faultless_def moves_def)

lemma clear_moves:
  assumes "faultless env" and "moves owned ws ms" and "owned k"
  shows "moves owned (clear_state env k ws) (ms(k := None))"
  using insert_moves[OF assms(2,3), of "store_clear k (snd ws)" None] assms(1,2)
  by (simp add: clear_state_def faultless_def moves_def)

lemma step_rule_moves:
  assumes "faultless env" and "moves owned ws ms" and "owned (cr_id rule, ec_address ctx)"
    and "spec_rule ctx rule ms = Some (ms', fs)"
  shows "\<exists>ws'. step_rule env ctx rule ws = Some (ws', fs) \<and> moves owned ws' ms'"
proof -
  let ?k = "(cr_id rule, ec_address ctx)"
  from assms(4) obtain clause nxt fired where c: "cr_temporal rule = Some clause"
    "temporal_step clause (ms ?k) ctx = Some (nxt, fired)" "ms' = ms(?k := nxt)"
    "fs = (case fired of Some bs \<Rightarrow> [fire_of rule ctx bs] | None \<Rightarrow> [])"
    by (auto simp: spec_rule_def split: Option.bind_splits)
  obtain prior ws1 where l: "load_state env ?k ws = (prior, ws1)" by (rule prod.exhaust)
  then have p: "prior = ms ?k" "moves owned ws1 ms" using load_moves[OF assms(2,3), of env] by simp_all
  define ws2 where "ws2 = (if nxt \<noteq> prior then (case nxt of Some state \<Rightarrow> save_state env ?k state (within_blocks clause) ws1
      | None \<Rightarrow> clear_state env ?k ws1) else ws1)"
  have "moves owned ws2 ms'"
    using p c(3) save_moves[OF assms(1) p(2) assms(3)] clear_moves[OF assms(1) p(2) assms(3)]
    by (cases nxt) (auto simp: ws2_def fun_upd_idem)
  moreover have "step_rule env ctx rule ws = Some (ws2, fs)"
    using c l p(1) by (simp add: step_rule_def ws2_def Let_def)
  ultimately show ?thesis by blast
qed

lemma step_rules_moves:
  assumes "faultless env" and "\<And>i. owned (i, ec_address ctx)"
  shows "moves owned ws ms \<Longrightarrow> spec_rules ctx rules ms = Some (ms', fs) \<Longrightarrow>
    \<exists>ws'. step_rules env ctx rules ws = Some (ws', fs) \<and> moves owned ws' ms'"
proof (induction rules arbitrary: ws ms fs)
  case (Cons rule rules)
  from Cons.prems(2) obtain ms1 fs1 fs2 where s: "spec_rule ctx rule ms = Some (ms1, fs1)"
    "spec_rules ctx rules ms1 = Some (ms', fs2)" "fs = fs1 @ fs2"
    by (auto split: Option.bind_splits)
  obtain ws1 where ws1: "step_rule env ctx rule ws = Some (ws1, fs1)" "moves owned ws1 ms1"
    using step_rule_moves[OF assms(1) Cons.prems(1) assms(2) s(1)] by blast
  obtain ws2 where "step_rules env ctx rules ws1 = Some (ws2, fs2)" "moves owned ws2 ms'"
    using Cons.IH[OF ws1(2) s(2)] by blast
  then show ?case using ws1 s(3) by simp
qed simp

lemma rewind_moves:
  assumes "faultless env" and "moves owned ws ms" and "owned key"
  shows "moves owned (rewind_key env rules key reverted ws) (ms(key := spec_rewind rules reverted (fst key) (ms key)))"
proof -
  obtain prior ws1 where l: "load_state env key ws = (prior, ws1)" by (rule prod.exhaust)
  then have p: "prior = ms key" "moves owned ws1 ms" using load_moves[OF assms(2,3), of env] by simp_all
  show ?thesis
  proof (cases "ms key")
    case None
    then have "ms(key := None) = ms" by auto
    then show ?thesis using l p None by (simp add: rewind_key_def spec_rewind_def rewind_state_def)
  next
    case (Some st)
    then have same: "ms(key := Some st) = ms" by auto
    show ?thesis
      using l p Some same save_moves[OF assms(1) p(2) assms(3)] clear_moves[OF assms(1) p(2) assms(3)]
      by (cases "temporal_rewind st reverted"; cases "live_clause rules (fst key)")
        (auto simp: rewind_key_def spec_rewind_def rewind_state_def)
  qed
qed

lemma exec_moves:
  assumes "faultless env" and "\<And>i. owned (i, command_address cmd)" and "moves owned ws ms"
    and "spec_exec rules cmd ms = Some (ms', fs)"
  shows "\<exists>ws'. worker_exec env rules cmd ws = Some (ws', fs) \<and> moves owned ws' ms'"
proof (cases cmd)
  case (Step ctx)
  then show ?thesis using step_rules_moves[OF assms(1) _ assms(3)] assms(2,4)
    by (simp add: worker_exec_def spec_exec_def)
next
  case (RewindKey key reverted)
  have "owned key" using assms(2)[of "fst key"] RewindKey by simp
  from rewind_moves[OF assms(1,3) this] show ?thesis using assms(4) RewindKey
    by (auto simp: worker_exec_def spec_exec_def)
qed

section \<open>Commands of different addresses do not meet\<close>

lemma spec_rule_local:
  assumes "spec_rule ctx rule ms = Some (ms', fs)" and "\<And>i. ns (i, ec_address ctx) = ms (i, ec_address ctx)"
  shows "\<exists>ns'. spec_rule ctx rule ns = Some (ns', fs) \<and> (\<forall>i. ns' (i, ec_address ctx) = ms' (i, ec_address ctx))"
  using assms by (auto simp: spec_rule_def split: Option.bind_splits)

lemma spec_rules_local:
  "spec_rules ctx rs ms = Some (ms', fs) \<Longrightarrow> (\<And>i. ns (i, ec_address ctx) = ms (i, ec_address ctx)) \<Longrightarrow>
     \<exists>ns'. spec_rules ctx rs ns = Some (ns', fs) \<and> (\<forall>i. ns' (i, ec_address ctx) = ms' (i, ec_address ctx))"
proof (induction rs arbitrary: ms ns fs)
  case (Cons rule rs)
  from Cons.prems(1) obtain ms1 fs1 fs2 where s: "spec_rule ctx rule ms = Some (ms1, fs1)"
    "spec_rules ctx rs ms1 = Some (ms', fs2)" "fs = fs1 @ fs2"
    by (auto split: Option.bind_splits)
  obtain ns1 where ns1: "spec_rule ctx rule ns = Some (ns1, fs1)" "\<forall>i. ns1 (i, ec_address ctx) = ms1 (i, ec_address ctx)"
    using spec_rule_local[OF s(1) Cons.prems(2)] by blast
  obtain ns2 where "spec_rules ctx rs ns1 = Some (ns2, fs2)" "\<forall>i. ns2 (i, ec_address ctx) = ms' (i, ec_address ctx)"
    using Cons.IH[OF s(2), of ns1] ns1(2) by blast
  then show ?case using ns1(1) s(3) by simp
qed simp

lemma spec_exec_local:
  assumes "spec_exec rules cmd ms = Some (ms', fs)" and "\<And>i. ns (i, command_address cmd) = ms (i, command_address cmd)"
  shows "\<exists>ns'. spec_exec rules cmd ns = Some (ns', fs) \<and> (\<forall>i. ns' (i, command_address cmd) = ms' (i, command_address cmd))"
proof (cases cmd)
  case (Step ctx)
  then show ?thesis using assms spec_rules_local[of ctx "temporal_rules rules" ms ms' fs ns] by (simp add: spec_exec_def)
next
  case (RewindKey key reverted)
  have "ns key = ms key" using assms(2)[of "fst key"] RewindKey by simp
  then show ?thesis using assms RewindKey by (auto simp: spec_exec_def)
qed

lemma spec_rules_frame:
  "spec_rules ctx rs ms = Some (ms', fs) \<Longrightarrow>
     (\<forall>k. snd k \<noteq> ec_address ctx \<longrightarrow> ms' k = ms k) \<and> (\<forall>f\<in>set fs. tf_address f = ec_address ctx)"
proof (induction rs arbitrary: ms fs)
  case (Cons rule rs)
  from Cons.prems obtain ms1 fs1 fs2 where s: "spec_rule ctx rule ms = Some (ms1, fs1)"
    "spec_rules ctx rs ms1 = Some (ms', fs2)" "fs = fs1 @ fs2"
    by (auto split: Option.bind_splits)
  then show ?case using Cons.IH[OF s(2)]
    by (auto simp: spec_rule_def fire_of_def split: Option.bind_splits option.splits)
qed simp

lemma spec_exec_frame:
  assumes "spec_exec rules cmd ms = Some (ms', fs)"
  shows "snd k \<noteq> command_address cmd \<Longrightarrow> ms' k = ms k" and "f \<in> set fs \<Longrightarrow> tf_address f = command_address cmd"
proof -
  have "(snd k \<noteq> command_address cmd \<longrightarrow> ms' k = ms k) \<and> (f \<in> set fs \<longrightarrow> tf_address f = command_address cmd)"
  proof (cases cmd)
    case (Step ctx)
    then have "spec_rules ctx (temporal_rules rules) ms = Some (ms', fs)" using assms by (simp add: spec_exec_def)
    from spec_rules_frame[OF this] Step show ?thesis by (cases k) auto
  next
    case (RewindKey key reverted)
    then show ?thesis using assms by (auto simp: spec_exec_def)
  qed
  then show "snd k \<noteq> command_address cmd \<Longrightarrow> ms' k = ms k" "f \<in> set fs \<Longrightarrow> tf_address f = command_address cmd"
    by blast+
qed

lemma spec_run_local:
  "spec_run rules cmds ms = Some (ms', fs) \<Longrightarrow> (\<And>i. ns (i, a) = ms (i, a)) \<Longrightarrow>
     \<exists>ns'. spec_run rules (filter (\<lambda>c. command_address c = a) cmds) ns = Some (ns', filter (\<lambda>f. tf_address f = a) fs)
        \<and> (\<forall>i. ns' (i, a) = ms' (i, a))"
proof (induction cmds arbitrary: ms ns fs)
  case (Cons cmd cmds)
  from Cons.prems(1) obtain ms1 fs1 fs2 where s: "spec_exec rules cmd ms = Some (ms1, fs1)"
    "spec_run rules cmds ms1 = Some (ms', fs2)" "fs = fs1 @ fs2"
    by (auto split: Option.bind_splits)
  show ?case
  proof (cases "command_address cmd = a")
    case True
    obtain ns1 where ns1: "spec_exec rules cmd ns = Some (ns1, fs1)" "\<forall>i. ns1 (i, a) = ms1 (i, a)"
      using spec_exec_local[OF s(1), of ns] Cons.prems(2) True by blast
    obtain ns2 where "spec_run rules (filter (\<lambda>c. command_address c = a) cmds) ns1 = Some (ns2, filter (\<lambda>f. tf_address f = a) fs2)"
      "\<forall>i. ns2 (i, a) = ms' (i, a)"
      using Cons.IH[OF s(2), of ns1] ns1(2) by blast
    moreover have "filter (\<lambda>f. tf_address f = a) fs1 = fs1"
      using True by (intro filter_True) (auto dest: spec_exec_frame(2)[OF s(1)])
    ultimately show ?thesis using ns1(1) s(3) True by simp
  next
    case False
    have "filter (\<lambda>f. tf_address f = a) fs1 = []"
      using False by (intro filter_False) (auto dest: spec_exec_frame(2)[OF s(1)])
    moreover have "ns (i, a) = ms1 (i, a)" for i
      using spec_exec_frame(1)[OF s(1), of "(i, a)"] Cons.prems(2) False by simp
    ultimately show ?thesis using Cons.IH[OF s(2), of ns] s(3) False by simp
  qed
qed simp

lemma clauses_total:
  assumes "set_compile up docs = Inr rules"
  shows "\<exists>ms' fs. spec_run rules cmds ms = Some (ms', fs)"
proof -
  have rs: "\<exists>ms' fs. spec_rules ctx rs ms = Some (ms', fs)" if "set rs \<subseteq> set (temporal_rules rules)" for ctx rs ms
    using that
  proof (induction rs arbitrary: ms)
    case (Cons rule rs)
    then obtain t where t: "cr_temporal rule = Some t" by (auto simp: temporal_rules_def)
    have "rule \<in> set (temporal_rules rules)" using Cons.prems by simp
    then have "clause_ok t" using t by (rule compiled_clause_ok[OF assms])
    then obtain st' f where "temporal_step t (ms (cr_id rule, ec_address ctx)) ctx = Some (st', f)"
      by (rule step_total)
    with t have "\<exists>ms1 fs1. spec_rule ctx rule ms = Some (ms1, fs1)" by (simp add: spec_rule_def)
    then obtain ms1 fs1 where s1: "spec_rule ctx rule ms = Some (ms1, fs1)" by (elim exE)
    obtain ms2 fs2 where "spec_rules ctx rs ms1 = Some (ms2, fs2)" using Cons.IH[of ms1] Cons.prems by auto
    with s1 show ?case by simp
  qed simp
  show ?thesis
  proof (induction cmds arbitrary: ms)
    case (Cons cmd cmds)
    have "\<exists>ms1 fs1. spec_exec rules cmd ms = Some (ms1, fs1)"
      using rs[OF order_refl] by (cases cmd) (simp_all add: spec_exec_def)
    then obtain ms1 fs1 where s1: "spec_exec rules cmd ms = Some (ms1, fs1)" by (elim exE)
    obtain ms2 fs2 where "spec_run rules cmds ms1 = Some (ms2, fs2)" using Cons.IH[of ms1] by (elim exE)
    with s1 show ?case by simp
  qed simp
qed

section \<open>The pool refines the machines\<close>

definition owns :: "nat \<Rightarrow> nat \<Rightarrow> state_key \<Rightarrow> bool" where
  "owns n i k \<longleftrightarrow> partition_for (snd k) n = i"

definition pool_moves :: "temporal_pool \<Rightarrow> machines \<Rightarrow> bool" where
  "pool_moves p ms \<longleftrightarrow> pool_caches p \<noteq> [] \<and> (\<forall>i<length (pool_caches p).
     moves (owns (length (pool_caches p)) i) (pool_caches p ! i, pool_store p) ms)"

lemma spawn_moves: "0 < n \<Longrightarrow> pool_moves (pool_spawn n cap s) (stored_view s)"
  by (auto simp: pool_moves_def pool_spawn_def intro!: movesI cache_new_inv)
    (simp add: truthful_def cache_get_def cache_new_def)

lemma pool_exec_moves:
  assumes "faultless env" and "pool_moves p ms" and "spec_exec rules cmd ms = Some (ms', fs)"
  shows "\<exists>p'. pool_exec env rules cmd p = Some (p', fs) \<and> pool_moves p' ms'"
proof -
  let ?n = "length (pool_caches p)" and ?j = "partition_for (command_address cmd) (length (pool_caches p))"
  have n: "pool_caches p \<noteq> []" and m: "\<And>i. i < ?n \<Longrightarrow> moves (owns ?n i) (pool_caches p ! i, pool_store p) ms"
    using assms(2) by (auto simp: pool_moves_def)
  have j: "?j < ?n" using n by (simp add: partition_for_def)
  have "owns ?n ?j (i, command_address cmd)" for i by (simp add: owns_def)
  from exec_moves[OF assms(1) this m[OF j] assms(3)] obtain c s where
    w: "worker_exec env rules cmd (pool_caches p ! ?j, pool_store p) = Some ((c, s), fs)" "moves (owns ?n ?j) (c, s) ms'"
    by auto
  let ?p = "\<lparr>pool_caches = (pool_caches p)[?j := c], pool_store = s\<rparr>"
  have "moves (owns ?n i) ((pool_caches p)[?j := c] ! i, s) ms'" if i: "i < ?n" for i
  proof (cases "i = ?j")
    case True
    then show ?thesis using w(2) j by simp
  next
    case False
    have same: "ms' k = ms k" if "owns ?n i k" for k
    proof -
      have "snd k \<noteq> command_address cmd" using that False by (auto simp: owns_def)
      then show ?thesis by (rule spec_exec_frame(1)[OF assms(3)])
    qed
    from cache.foreign_writes[OF movesD(2)[OF m[OF i], simplified] same]
    show ?thesis using False movesI[OF movesD(1)[OF m[OF i], simplified] _ movesD(3)[OF w(2), simplified]] by simp
  qed
  then have "pool_moves ?p ms'" using n by (simp add: pool_moves_def)
  moreover have "pool_exec env rules cmd p = Some (?p, fs)" using n w(1) by (simp add: pool_exec_def Let_def)
  ultimately show ?thesis by blast
qed

lemma pool_run_moves:
  assumes "faultless env"
  shows "pool_moves p ms \<Longrightarrow> spec_run rules cmds ms = Some (ms', fs) \<Longrightarrow>
    \<exists>p'. pool_run env rules cmds p = Some (p', fs) \<and> pool_moves p' ms'"
proof (induction cmds arbitrary: p ms fs)
  case (Cons cmd cmds)
  from Cons.prems(2) obtain ms1 fs1 fs2 where s: "spec_exec rules cmd ms = Some (ms1, fs1)"
    "spec_run rules cmds ms1 = Some (ms', fs2)" "fs = fs1 @ fs2"
    by (auto split: Option.bind_splits)
  obtain p1 where p1: "pool_exec env rules cmd p = Some (p1, fs1)" "pool_moves p1 ms1"
    using pool_exec_moves[OF assms Cons.prems(1) s(1)] by blast
  then obtain p2 where "pool_run env rules cmds p1 = Some (p2, fs2)" "pool_moves p2 ms'"
    using Cons.IH[OF _ s(2)] by blast
  then show ?case using p1(1) s(3) by simp
qed simp

lemma pool_moves_view: "pool_moves p ms \<Longrightarrow> stored_view (pool_store p) = ms"
  using movesD(3) by (fastforce simp: pool_moves_def)

lemma pool_run_spec:
  assumes "set_compile up docs = Inr rules" and "faultless env" and "0 < n"
  obtains p ms fs where "pool_run env rules cmds (pool_spawn n cap s) = Some (p, fs)"
    "spec_run rules cmds (stored_view s) = Some (ms, fs)" "stored_view (pool_store p) = ms"
proof -
  obtain ms fs where s: "spec_run rules cmds (stored_view s) = Some (ms, fs)" using clauses_total[OF assms(1)] by blast
  from pool_run_moves[OF assms(2) spawn_moves[OF assms(3)] s] pool_moves_view that s show ?thesis by blast
qed

lemma pool_run_total:
  assumes "set_compile up docs = Inr rules" and "faultless env" and "0 < n"
  shows "\<exists>p fs. pool_run env rules cmds (pool_spawn n cap s) = Some (p, fs)"
  using pool_run_spec[OF assms, of cmds cap s] by blast

text \<open>
  C3: The pool is its machines: for a compiled set and a store whose writes succeed, whatever the
  number of workers and the size of their caches, the commands leave in the store, and fire, exactly what one machine per
  key does that is stepped and rewound with no store, cache or worker between. No run gets stuck.
\<close>

theorem pool_refines_machines:
  assumes "set_compile up docs = Inr rules" and "faultless env" and "0 < n"
  shows "map_option (\<lambda>(p, fs). (stored_view (pool_store p), fs)) (pool_run env rules cmds (pool_spawn n cap s))
      = spec_run rules cmds (stored_view s)
    \<and> spec_run rules cmds (stored_view s) \<noteq> None"
proof -
  obtain p ms fs where "pool_run env rules cmds (pool_spawn n cap s) = Some (p, fs)"
    "spec_run rules cmds (stored_view s) = Some (ms, fs)" "stored_view (pool_store p) = ms"
    using pool_run_spec[OF assms, of cmds cap s] by blast
  then show ?thesis by simp
qed

definition ex_env :: worker_env where
  "ex_env = \<lparr>we_ttl = ttl_default, we_save_fails = (\<lambda>k. False), we_clear_fails = (\<lambda>k. False)\<rparr>"

theorem pool_refines_machines_witness:
  "map_option (\<lambda>(p, fs). (stored_view (pool_store p), fs))
     (pool_run ex_env ex_set [Step (ex_big 100), Step (ex_mixer 150)] (pool_spawn 8 1 Map.empty))
   = spec_run ex_set [Step (ex_big 100), Step (ex_mixer 150)] (\<lambda>k. None)"
proof -
  have "stored_view Map.empty = (\<lambda>k. None)" by (rule ext) (simp add: stored_view_def)
  moreover have "faultless ex_env" by (simp add: faultless_def ex_env_def)
  ultimately show ?thesis
    using pool_refines_machines[OF ex_set_compiles, of ex_env 8 "[Step (ex_big 100), Step (ex_mixer 150)]" 1 Map.empty] by simp
qed

text \<open>
  C14: The mailboxes suffice: let the workers execute the commands in any order that keeps the order within
  each mailbox; the machines at the end, and the fires of each address in their order, are those of the
  commands in the order they were sent, also when another pool with another number of workers did it.
\<close>

theorem mailbox_order_suffices:
  assumes "set_compile up docs = Inr rules" and "faultless env" and "0 < n" and "0 < n'"
    and "\<forall>i. filter (\<lambda>c. partition_for (command_address c) n = i) executed = filter (\<lambda>c. partition_for (command_address c) n = i) sent"
    and "pool_run env rules executed (pool_spawn n cap s) = Some (q, gs)"
    and "pool_run env rules sent (pool_spawn n' cap' s) = Some (p, fs)"
  shows "stored_view (pool_store q) = stored_view (pool_store p)
    \<and> filter (\<lambda>f. tf_address f = a) gs = filter (\<lambda>f. tf_address f = a) fs"
proof -
  obtain ms where e: "spec_run rules executed (stored_view s) = Some (ms, gs)" "stored_view (pool_store q) = ms"
    using pool_run_spec[OF assms(1-3), of executed cap s] assms(6) by force
  obtain ns where t: "spec_run rules sent (stored_view s) = Some (ns, fs)" "stored_view (pool_store p) = ns"
    using pool_run_spec[OF assms(1,2,4), of sent cap' s] assms(7) by force
  have same: "filter (\<lambda>c. command_address c = a) executed = filter (\<lambda>c. command_address c = a) sent" for a
  proof -
    have "filter (\<lambda>c. command_address c = a) cs = filter (\<lambda>c. command_address c = a)
        (filter (\<lambda>c. partition_for (command_address c) n = partition_for a n) cs)" for cs
      by (auto simp: filter_filter intro: filter_cong)
    then show ?thesis using assms(5) by metis
  qed
  have at: "ms (i, a) = ns (i, a) \<and> filter (\<lambda>f. tf_address f = a) gs = filter (\<lambda>f. tf_address f = a) fs" for a i
    using spec_run_local[OF e(1), of "stored_view s" a] spec_run_local[OF t(1), of "stored_view s" a] same[of a] by auto
  then have "ms = ns" by auto
  then show ?thesis using at e(2) t(2) by simp
qed

theorem mailbox_order_suffices_witness:
  "\<exists>p q fs gs.
     pool_run ex_env ex_set [Step ((ex_big 100)\<lparr>ec_address := 2 ^ 96\<rparr>), Step (ex_big 100)] (pool_spawn 2 8 Map.empty) = Some (q, gs)
   \<and> pool_run ex_env ex_set [Step (ex_big 100), Step ((ex_big 100)\<lparr>ec_address := 2 ^ 96\<rparr>)] (pool_spawn 5 0 Map.empty) = Some (p, fs)
   \<and> stored_view (pool_store q) = stored_view (pool_store p)"
proof -
  let ?a = "Step ((ex_big 100)\<lparr>ec_address := 2 ^ 96\<rparr>)" and ?b = "Step (ex_big 100)"
  have two: "0 < (2 :: nat)" and five: "0 < (5 :: nat)" by simp_all
  have f: "faultless ex_env" by (simp add: faultless_def ex_env_def)
  obtain p fs where p: "pool_run ex_env ex_set [?b, ?a] (pool_spawn 5 0 Map.empty) = Some (p, fs)"
    using pool_run_total[OF ex_set_compiles f five, of "[?b, ?a]" 0 Map.empty] by blast
  obtain q gs where q: "pool_run ex_env ex_set [?a, ?b] (pool_spawn 2 8 Map.empty) = Some (q, gs)"
    using pool_run_total[OF ex_set_compiles f two, of "[?a, ?b]" 8 Map.empty] by blast
  have "command_address ?a = 2 ^ 96" "command_address ?b = 7" by (simp_all add: ex_big_def at_block_def)
  moreover have "partition_for (2 ^ 96) 2 = 1" "partition_for 7 2 = 0" by (simp_all add: partition_for_def)
  ultimately have "\<forall>i. filter (\<lambda>c. partition_for (command_address c) 2 = i) [?a, ?b]
      = filter (\<lambda>c. partition_for (command_address c) 2 = i) [?b, ?a]"
    by simp
  from mailbox_order_suffices[OF ex_set_compiles f _ _ this q p] have "stored_view (pool_store q) = stored_view (pool_store p)" by simp
  with p q show ?thesis by blast
qed

section \<open>A rewind reaches every machine\<close>

lemma rewind_state_idem: "rewind_state (rewind_state st r) r = rewind_state st r"
proof (cases st)
  case (Some s)
  have "takeWhile (\<lambda>b. b < r) (takeWhile (\<lambda>b. b < r) xs) = takeWhile (\<lambda>b. b < r) xs" for xs :: "nat list"
    by (auto simp: takeWhile_eq_all_conv dest: set_takeWhileD)
  then show ?thesis using Some by (cases s) (auto simp: rewind_state_def in_flight_some split: option.splits)
qed (simp add: rewind_state_def)

lemma spec_rewind_idle [simp]: "spec_rewind rules r i None = None"
  by (simp add: spec_rewind_def rewind_state_def)

lemma spec_rewind_idem: "spec_rewind rules r i (spec_rewind rules r i st) = spec_rewind rules r i st"
proof (cases "rewind_state st r = st \<or> live_clause rules i \<noteq> None")
  case True
  then have "spec_rewind rules r i st = rewind_state st r" by (simp add: spec_rewind_def)
  then show ?thesis by (simp add: spec_rewind_def[of rules r i "rewind_state st r"] rewind_state_idem)
next
  case False
  then have "spec_rewind rules r i st = None" by (simp add: spec_rewind_def)
  then show ?thesis by simp
qed

lemma spec_rewinds:
  "spec_run rules (map (\<lambda>k. RewindKey k r) keys) ms =
     Some (\<lambda>k. if k \<in> set keys then spec_rewind rules r (fst k) (ms k) else ms k, [])"
proof (induction keys arbitrary: ms)
  case (Cons key keys)
  show ?case by (auto simp: spec_exec_def Cons.IH spec_rewind_idem fun_eq_iff)
qed (simp add: fun_eq_iff)

lemma pool_rewind_view:
  assumes "faultless env" and "pool_moves p ms" and "set keys = dom (pool_store p)"
    and "pool_rewind env rules keys r p = Some q"
  shows "stored_view (pool_store q) k = spec_rewind rules r (fst k) (ms k)"
proof -
  from pool_run_moves[OF assms(1,2) spec_rewinds] obtain q' where
    "pool_run env rules (map (\<lambda>k. RewindKey k r) keys) p = Some (q', [])"
    "pool_moves q' (\<lambda>k. if k \<in> set keys then spec_rewind rules r (fst k) (ms k) else ms k)" by blast
  then have "stored_view (pool_store q) k = (if k \<in> set keys then spec_rewind rules r (fst k) (ms k) else ms k)"
    using assms(4) by (auto simp: pool_rewind_def dest: pool_moves_view)
  moreover have "ms k = None" if "k \<notin> set keys"
    using that assms(3) pool_moves_view[OF assms(2), symmetric] by (auto simp: stored_view_def dom_def)
  ultimately show ?thesis by simp
qed

lemma pool_rewind_spawned:
  assumes "set_compile up docs = Inr rules" and "faultless env" and "0 < n" and "set keys = dom s"
    and "pool_rewind env rules keys r (pool_spawn n cap s) = Some q"
  shows "stored_view (pool_store q) k = spec_rewind rules r (fst k) (stored_view s k)"
  by (rule pool_rewind_view[OF assms(2) spawn_moves[OF assms(3)] _ assms(5)]) (simp add: pool_spawn_def assms(4))

text \<open>
  A reverted block is rewound in every machine: after any commands, a rewind over the keys the scan
  found, in any order and with repetitions, leaves for every key the rewound machine; only if that changed it and its
  rule has left the set is the machine dropped.
\<close>

theorem rewind_reaches_every_machine:
  assumes "set_compile up docs = Inr rules" and "faultless env" and "0 < n"
    and "pool_run env rules cmds (pool_spawn n cap s) = Some (p, fs)"
    and "set keys = dom (pool_store p)" and "pool_rewind env rules keys r p = Some q"
  shows "stored_view (pool_store q) k = spec_rewind rules r (fst k) (stored_view (pool_store p) k)"
proof -
  obtain ms where "spec_run rules cmds (stored_view s) = Some (ms, fs)"
    using pool_run_spec[OF assms(1-3), of cmds cap s] assms(4) by force
  from pool_run_moves[OF assms(2) spawn_moves[OF assms(3)] this, of cap] assms(4) have "pool_moves p ms" by auto
  from pool_rewind_view[OF assms(2) this assms(5,6)] pool_moves_view[OF this] show ?thesis by simp
qed

theorem rewind_reaches_every_machine_witness:
  "\<exists>q. pool_rewind ex_env ex_set [(1, 7), (1, 7)] 100 (pool_spawn 2 8 [(1, 7) \<mapsto> Stored (SSequence [90, 100]) 60]) = Some q
    \<and> stored_view (pool_store q) (1, 7) = Some (SSequence [90])"
proof -
  let ?s = "[(1, 7) \<mapsto> Stored (SSequence [90, 100]) 60] :: state_store"
  have f: "faultless ex_env" by (simp add: faultless_def ex_env_def)
  have "cr_temporal (compiled_of ex_sequence_rule) \<noteq> None"
    by (simp add: compiled_of_def ex_sequence_rule_def cr_temporal_def compile_match_def)
  moreover have "cr_id (compiled_of ex_sequence_rule) = 1" by (simp add: compiled_of_def ex_sequence_rule_def)
  ultimately have "live_clause ex_set 1 \<noteq> None"
    by (simp add: live_clause_def temporal_rules_def ex_set_def)
  moreover have "rewind_state (Some (SSequence [90, 100])) 100 = Some (SSequence [90])" by (simp add: rewind_state_def)
  ultimately have spec: "spec_rewind ex_set 100 1 (Some (SSequence [90, 100])) = Some (SSequence [90])"
    by (simp add: spec_rewind_def)
  have run: "pool_run ex_env ex_set [] (pool_spawn 2 8 ?s) = Some (pool_spawn 2 8 ?s, [])" by simp
  have keys: "set [(1, 7), (1, 7)] = dom (pool_store (pool_spawn 2 8 ?s))" by (simp add: pool_spawn_def)
  obtain q where q: "pool_rewind ex_env ex_set [(1, 7), (1, 7)] 100 (pool_spawn 2 8 ?s) = Some q"
    using pool_run_total[OF ex_set_compiles f, of 2 "map (\<lambda>k. RewindKey k 100) [(1, 7), (1, 7)]" 8 ?s]
    by (auto simp: pool_rewind_def simp del: pool_run.simps)
  from rewind_reaches_every_machine[OF ex_set_compiles f _ run keys q, of "(1, 7)"] q show ?thesis
    by (intro exI[of _ q]) (simp add: spec pool_spawn_def stored_view_def)
qed

section \<open>A save that fails for good\<close>

lemma cache_get_inserted:
  assumes "cache_inv c" and "0 < sc_capacity c"
  shows "cache_get (cache_insert k m c) k = Some m"
proof (cases "sc_order c")
  case Nil
  then have "sc_map c = []" using assms(1) by (simp add: cache_inv_def)
  then show ?thesis using assms(2) Nil by (simp add: cache_get_def cache_insert_def Let_def)
next
  case (Cons x xs)
  have "x \<in> set (hm_keys (sc_map c))" using assms(1) Cons by (auto simp: cache_inv_def)
  then have "hm_contains (sc_map c) x" by (simp only: hm_contains_iff)
  then have "hm_get (sc_map c) k = None \<Longrightarrow> x \<noteq> k" by auto
  then show ?thesis using assms(2) Cons
    by (auto simp: cache_get_def cache_insert_def Let_def hm_get_insert hm_get_remove)
qed

text \<open>
  After a save that failed for good the worker does not go back to what the store holds: with a
  cache it takes the machine for idle from then on, although the store still has the machine from before;
  only a worker without a cache reads the store again.
\<close>

theorem failed_save_forgets_the_machine:
  assumes "we_save_fails env k" and "cache_inv (fst ws)"
  shows "stored_view (snd (save_state env k st w ws)) k = stored_view (snd ws) k
    \<and> fst (load_state env k (save_state env k st w ws)) =
        (if sc_capacity (fst ws) = 0 then stored_view (snd ws) k else None)"
proof (cases "sc_capacity (fst ws) = 0")
  case True
  then have "cache_insert k None (fst ws) = fst ws" "cache_get (fst ws) k = None"
    by (simp_all add: cache_insert_def cache_get_def)
  then show ?thesis using assms(1) True stored_view_load[of "snd ws" k]
    by (simp add: save_state_def load_state_def split: sum.splits)
next
  case False
  then have "cache_get (cache_insert k None (fst ws)) k = Some None" using cache_get_inserted[OF assms(2)] by simp
  then show ?thesis using assms(1) False by (simp add: save_state_def load_state_def)
qed

theorem failed_save_forgets_the_machine_witness:
  "stored_view (Map.empty((1, 7) \<mapsto> Stored (SSequence [100]) 60)) (1, 7) = Some (SSequence [100])
    \<and> fst (load_state (ex_env\<lparr>we_save_fails := (\<lambda>k. True)\<rparr>) (1, 7)
        (save_state (ex_env\<lparr>we_save_fails := (\<lambda>k. True)\<rparr>) (1, 7) (SSequence [100, 150]) 100
          (cache_new 8, Map.empty((1, 7) \<mapsto> Stored (SSequence [100]) 60)))) = None"
  using failed_save_forgets_the_machine[of "ex_env\<lparr>we_save_fails := (\<lambda>k. True)\<rparr>" "(1, 7)"
      "(cache_new 8, Map.empty((1, 7) \<mapsto> Stored (SSequence [100]) 60))" "SSequence [100, 150]" 100]
    cache_new_inv[of 8]
  by (simp add: stored_view_def cache_new_def)

end
