(* ===== verification/Rule_Enrich.thy ===== *)
theory Rule_Enrich
  imports Temporal_Pool
begin

text \<open>
  The enrichment seam (\<open>crates/rule-engine/src/enrich.rs\<close>): the snapshot the consumer prefetches for an
  event, read from the stores of the intelligence service according to the plan of the rule set.

  The stores and the score cache are the fields of an \<open>intel_seams\<close>; an error carries only whether it
  is transient. The score cache is repopulated on a miss, and a failure to do so is ignored: the entries it is
  handed are part of the result.
\<close>

datatype fault = Transient_fault | Permanent_fault

record intel_seams =
  se_cached_score :: "address \<Rightarrow> u8 option"
  se_live_score :: "address \<Rightarrow> nat \<Rightarrow> fault + u8"
  se_labels_for :: "address \<Rightarrow> nat \<Rightarrow> fault + (label_kind \<times> confidence) list"
  se_sanction_matches :: "address \<Rightarrow> fault + string list"
  se_entity :: "uuid \<Rightarrow> fault + address list option"

text \<open>The score and what is put into the cache. A cache fault counts as a miss.\<close>

definition fetch_risk_score :: "intel_seams \<Rightarrow> address \<Rightarrow> nat \<Rightarrow> fault + u8 \<times> (address \<times> u8) list" where
  "fetch_risk_score se a as_of = (case se_cached_score se a of
      Some s \<Rightarrow> Inr (s, [])
    | None \<Rightarrow> res_bind (se_live_score se a as_of) (\<lambda>s. Inr (s, [(a, s)])))"

definition when_needed :: "bool \<Rightarrow> 'a \<Rightarrow> fault + 'a \<Rightarrow> fault + 'a" where
  "when_needed needed dflt fetch = (if needed then fetch else Inr dflt)"

definition fetch_enrichment ::
  "intel_seams \<Rightarrow> address \<Rightarrow> address option \<Rightarrow> enrichment_needs \<Rightarrow> nat \<Rightarrow> fault + intel \<times> (address \<times> u8) list" where
  "fetch_enrichment se a counterparty needs as_of =
     res_bind (when_needed (ne_risk_score needs) (None, [])
         (res_bind (fetch_risk_score se a as_of) (\<lambda>(s, puts). Inr (Some s, puts)))) (\<lambda>(score, puts).
     res_bind (when_needed (ne_entity_labels needs) [] (se_labels_for se a as_of)) (\<lambda>labels.
     res_bind (when_needed (ne_sanctions needs) {} (res_bind (se_sanction_matches se a) (\<lambda>ls. Inr (set ls)))) (\<lambda>sanctions.
     res_bind (case counterparty of
         None \<Rightarrow> Inr {}
       | Some cp \<Rightarrow> when_needed (ne_counterparty_labels needs) {}
           (res_bind (se_labels_for se cp as_of) (\<lambda>ls. Inr (fst ` set ls)))) (\<lambda>cp_labels.
     Inr (intel_default\<lparr>in_risk_score := score, in_entity_labels := labels, in_sanction_lists := sanctions,
            in_counterparty_labels := cp_labels\<rparr>, puts)))))"

definition entity_members :: "intel_seams \<Rightarrow> uuid \<Rightarrow> fault + address list" where
  "entity_members se i = res_bind (se_entity se i) (\<lambda>e. Inr (case e of Some addresses \<Rightarrow> addresses | None \<Rightarrow> []))"

section \<open>The plan fetches enough\<close>

definition needs_everything :: enrichment_needs where
  "needs_everything = \<lparr>ne_hop_anchors = UNIV, ne_risk_score = True, ne_entity_labels = True,
     ne_sanctions = True, ne_counterparty_labels = True, ne_first_active_block = True\<rparr>"

lemma fetch_by_plan:
  assumes "fetch_enrichment se a cp needs_everything as_of = Inr (full, puts)"
  obtains i puts' where "fetch_enrichment se a cp needs as_of = Inr (i, puts')" "agree needs i full"
proof -
  let ?cp = "case cp of None \<Rightarrow> Inr {} | Some c \<Rightarrow> res_bind (se_labels_for se c as_of) (\<lambda>ls. Inr (fst ` set ls))"
  from assms obtain score labels sl cpl
    where r: "fetch_risk_score se a as_of = Inr (score, puts)" "se_labels_for se a as_of = Inr labels"
      "se_sanction_matches se a = Inr sl" "?cp = Inr cpl"
      "full = intel_default\<lparr>in_risk_score := Some score, in_entity_labels := labels, in_sanction_lists := set sl,
            in_counterparty_labels := cpl\<rparr>"
    by (cases cp) (auto simp: fetch_enrichment_def needs_everything_def when_needed_def res_bind_ok split: prod.splits)
  let ?i = "intel_default\<lparr>in_risk_score := if ne_risk_score needs then Some score else None,
      in_entity_labels := if ne_entity_labels needs then labels else [],
      in_sanction_lists := if ne_sanctions needs then set sl else {},
      in_counterparty_labels := if ne_counterparty_labels needs then cpl else {}\<rparr>"
  have "fetch_enrichment se a cp needs as_of = Inr (?i, if ne_risk_score needs then puts else [])"
    using r(4) by (cases cp) (simp_all add: fetch_enrichment_def when_needed_def r(1-3))
  moreover have "agree needs ?i full" by (simp add: agree_def r(5))
  ultimately show ?thesis using that by blast
qed

lemma step_reads_matchers:
  assumes "\<And>m. m \<in> set (clause_matchers t) \<Longrightarrow> m (ctx\<lparr>ec_intel := i\<rparr>) = m ctx"
  shows "temporal_step t st (ctx\<lparr>ec_intel := i\<rparr>) = temporal_step t st ctx"
proof (cases t)
  case (CSequence steps w)
  then have "k < length steps \<Longrightarrow> (steps ! k) (ctx\<lparr>ec_intel := i\<rparr>) = (steps ! k) ctx" for k
    using assms by simp
  then show ?thesis using CSequence by (auto simp: Let_def)
next
  case (CFrequency m n w)
  then show ?thesis using assms by (simp add: Let_def)
qed

lemma spec_rules_read_plan:
  assumes "set_compile up docs = Inr rules" and "agree (cs_needs rules) i (ec_intel ctx)"
  shows "set rs \<subseteq> set (temporal_rules rules) \<Longrightarrow> spec_rules (ctx\<lparr>ec_intel := i\<rparr>) rs ms = spec_rules ctx rs ms"
proof (induction rs arbitrary: ms)
  case (Cons rule rs)
  then have rule: "rule \<in> set (cs_rules rules)" "cr_temporal rule \<noteq> None" by (auto simp: temporal_rules_def)
  then obtain t where t: "cr_temporal rule = Some t" by blast
  then have "clause_matchers t = match_matchers (cr_matcher rule)"
    by (auto simp: cr_temporal_def split: compiled_match.splits)
  then have "temporal_step t st (ctx\<lparr>ec_intel := i\<rparr>) = temporal_step t st ctx" for st
    using plan_suffices[OF assms rule(1)] by (intro step_reads_matchers) simp
  then have "spec_rule (ctx\<lparr>ec_intel := i\<rparr>) rule ms = spec_rule ctx rule ms" for ms
    by (cases "temporal_step t (ms (cr_id rule, ec_address ctx)) ctx")
      (auto simp: spec_rule_def t fire_of_def split: option.splits)
  moreover have "spec_rules (ctx\<lparr>ec_intel := i\<rparr>) rs ns = spec_rules ctx rs ns" for ns
    using Cons by simp
  ultimately show ?case by simp
qed simp

text \<open>
  C20: The prefetch plan is enough: where fetching everything the stores can answer succeeds, the plan of the
  compiled set succeeds too, and on what it fetched the same instant rules match and the temporal
  machines make the same moves and fire the same alerts.
\<close>

theorem plan_answers_like_everything:
  assumes "set_compile up docs = Inr rules"
    and "fetch_enrichment se a cp needs_everything as_of = Inr (full, puts)"
    and "ec_intel ctx = full"
  shows "\<exists>i puts'. fetch_enrichment se a cp (cs_needs rules) as_of = Inr (i, puts')
    \<and> set_evaluate rules (ctx\<lparr>ec_intel := i\<rparr>) = set_evaluate rules ctx
    \<and> spec_rules (ctx\<lparr>ec_intel := i\<rparr>) (temporal_rules rules) ms = spec_rules ctx (temporal_rules rules) ms"
proof -
  obtain i puts' where i: "fetch_enrichment se a cp (cs_needs rules) as_of = Inr (i, puts')" "agree (cs_needs rules) i full"
    by (rule fetch_by_plan[OF assms(2)])
  then have ag: "agree (cs_needs rules) i (ec_intel ctx)" using assms(3) by simp
  show ?thesis
    by (intro exI[of _ i] exI[of _ puts'] conjI i(1) evaluate_reads_plan[OF assms(1) ag]
        spec_rules_read_plan[OF assms(1) ag]) simp
qed

definition ex_seams :: intel_seams where
  "ex_seams = \<lparr>se_cached_score = (\<lambda>a. None), se_live_score = (\<lambda>a t. Inr 90),
     se_labels_for = (\<lambda>a t. Inr [(MixerUser, Fin 1)]), se_sanction_matches = (\<lambda>a. Inr []), se_entity = (\<lambda>e. Inr None)\<rparr>"

lemma ex_plan: "cs_needs ex_set = \<lparr>ne_hop_anchors = {}, ne_risk_score = True, ne_entity_labels = False,
     ne_sanctions = True, ne_counterparty_labels = True, ne_first_active_block = False\<rparr>"
  by (simp add: ex_set_def each_condition_def ex_sequence_rule_def ex_score_rule_def needs_default_def)

theorem plan_answers_like_everything_witness:
  "\<exists>i puts'. fetch_enrichment ex_seams 7 (Some 3) (cs_needs ex_set) 0 = Inr (i, puts')
    \<and> in_entity_labels i = []
    \<and> set_evaluate ex_set ((ex_big 100)\<lparr>ec_intel := i\<rparr>) =
        set_evaluate ex_set ((ex_big 100)\<lparr>ec_intel := intel_default\<lparr>in_risk_score := Some 90,
          in_entity_labels := [(MixerUser, Fin 1)], in_counterparty_labels := {MixerUser}\<rparr>\<rparr>)"
proof -
  let ?full = "intel_default\<lparr>in_risk_score := Some 90, in_entity_labels := [(MixerUser, Fin 1)],
     in_counterparty_labels := {MixerUser}\<rparr>"
  let ?ctx = "(ex_big 100)\<lparr>ec_intel := ?full\<rparr>"
  have full: "fetch_enrichment ex_seams 7 (Some 3) needs_everything 0 = Inr (?full, [(7, 90)])"
    by (simp add: fetch_enrichment_def needs_everything_def when_needed_def ex_seams_def fetch_risk_score_def intel_default_def)
  have "ec_intel ?ctx = ?full" by simp
  from plan_answers_like_everything[OF ex_set_compiles full this] obtain i puts'
    where i: "fetch_enrichment ex_seams 7 (Some 3) (cs_needs ex_set) 0 = Inr (i, puts')"
      "set_evaluate ex_set (?ctx\<lparr>ec_intel := i\<rparr>) = set_evaluate ex_set ?ctx" by blast
  have "in_entity_labels i = []"
    using i(1) by (auto simp: fetch_enrichment_def ex_plan when_needed_def ex_seams_def fetch_risk_score_def intel_default_def)
  with i show ?thesis by simp
qed

section \<open>What production cannot answer\<close>

fun unanswered :: "condition \<Rightarrow> bool" where
  "unanswered (HopDistance from hops) \<longleftrightarrow> True"
| "unanswered (NewAddress w) \<longleftrightarrow> True"
| "unanswered _ \<longleftrightarrow> False"

lemma unanswered_never_matches:
  assumes "fetch_enrichment se a cp needs as_of = Inr (i, puts)" and "unanswered c"
  shows "\<not> compile_condition c (ctx\<lparr>ec_intel := i\<rparr>)"
  using assms
  by (cases c) (auto simp: fetch_enrichment_def res_bind_ok intel_default_def split: prod.splits)

text \<open>
  The two conditions no store answers, hop distance and new address, never match in production. Under
  \<open>not\<close> that is no conservative gap: a valid rule that is to fire when an address is neither new nor near the
  anchors fires on every event.
\<close>

theorem unanswered_not_rule_always_fires:
  assumes "rule_ok up r" and "ru_temporal r = None" and "ru_logic r = LogicNot"
    and "list_all unanswered (ru_conditions r)"
    and "fetch_enrichment se a cp needs as_of = Inr (i, puts)"
  shows "\<exists>c. compile_rule up r = Inr c \<and> instant_matches c (ctx\<lparr>ec_intel := i\<rparr>)"
proof -
  have "\<not> list_ex (\<lambda>c. compile_condition c (ctx\<lparr>ec_intel := i\<rparr>)) (ru_conditions r)"
    using assms(4) unanswered_never_matches[OF assms(5)] by (auto simp: list_all_iff list_ex_iff)
  then have "instant_matches (compiled_of r) (ctx\<lparr>ec_intel := i\<rparr>)"
    using assms(2,3) by (auto simp: instant_matches_def compiled_of_def compile_match_def compile_logic_def list_ex_iff)
  then show ?thesis using compile_rule_ok[OF assms(1)] by blast
qed

definition ex_not_near :: rule where
  "ex_not_near = \<lparr>ru_id = 3, ru_owner = 9, ru_name = ''far'', ru_enabled = True,
     ru_conditions = [HopDistance 5 3], ru_logic = LogicNot, ru_temporal = None, ru_actions = [TagAddress ''far'']\<rparr>"

theorem unanswered_not_rule_always_fires_witness:
  "\<exists>c. compile_rule ex_up ex_not_near = Inr c \<and> instant_matches c ((ex_big 100)\<lparr>ec_intel := intel_default\<rparr>)"
proof (rule unanswered_not_rule_always_fires)
  show "rule_ok ex_up ex_not_near"
    by (simp add: rule_ok_def rule_validate_def validate_parts_def ex_not_near_def str_trim_def is_space_def validate_field_def)
  show "fetch_enrichment ex_seams 7 None needs_default 0 = Inr (intel_default, [])"
    by (simp add: fetch_enrichment_def needs_default_def when_needed_def intel_default_def)
qed (simp_all add: ex_not_near_def)

end
