(* ===== verification/Rule_Consumer.thy ===== *)
theory Rule_Consumer
  imports Rule_Enrich Bounded_Map
begin

text \<open>
  The consumer of the rule engine (\<open>crates/rule-engine/src/consumer.rs\<close>): the correlation of incidents with
  their alerts, the block watermark, the evaluation of one record, the identity and emission of a fire,
  the verdict on the offset.

  The answers of the other parties during one record are the fields of an \<open>engine_env\<close>: the broker's
  answer to the \<open>n\<close>-th publication, already after the retries of \<open>publish_resilient\<close>; the enrichment
  source; the rule store; the outcome of a delivery; whether the pool is open and shutdown was signalled. SHA-256
  is the parameter \<open>sha\<close>. The prose of an alert (\<open>explanation\<close>), the metrics and the tracing are left
  out; the fires of the temporal windows are the channel \<open>eg_channel\<close>, drained by \<open>drain_fires\<close>.
\<close>

section \<open>Fires\<close>

datatype fire_kind = InstantFire string uuid | TemporalFire "nat list"

record fire =
  fi_rule_id :: uuid
  fi_owner :: uuid
  fi_rule_name :: string
  fi_actions :: "action list"
  fi_address :: address
  fi_block :: nat
  fi_kind :: fire_kind

fun kind_label :: "fire_kind \<Rightarrow> string" where
  "kind_label (InstantFire trigger i) = trigger"
| "kind_label (TemporalFire bs) = ''temporal_window''"

fun kind_matched_blocks :: "fire_kind \<Rightarrow> nat list" where
  "kind_matched_blocks (InstantFire trigger i) = []"
| "kind_matched_blocks (TemporalFire bs) = bs"

definition fire_instant :: "compiled_rule \<Rightarrow> event_ctx \<Rightarrow> string \<Rightarrow> uuid \<Rightarrow> fire" where
  "fire_instant rule ctx trigger trigger_id = \<lparr>fi_rule_id = cr_id rule, fi_owner = cr_owner rule,
     fi_rule_name = cr_name rule, fi_actions = cr_actions rule, fi_address = ec_address ctx, fi_block = ec_block ctx,
     fi_kind = InstantFire trigger trigger_id\<rparr>"

definition fire_temporal :: "temporal_fire \<Rightarrow> fire" where
  "fire_temporal f = \<lparr>fi_rule_id = tf_rule_id f, fi_owner = tf_owner f, fi_rule_name = tf_rule_name f,
     fi_actions = tf_actions f, fi_address = tf_address f, fi_block = tf_block f,
     fi_kind = TemporalFire (tf_matched_blocks f)\<rparr>"

datatype matched_event = By_event string | At_block nat

definition matched_events :: "fire \<Rightarrow> matched_event list" where
  "matched_events f = (case fi_kind f of
      InstantFire trigger i \<Rightarrow> [By_event trigger] | TemporalFire bs \<Rightarrow> map At_block bs)"

text \<open>Big-endian bytes.\<close>

fun be_bytes :: "nat \<Rightarrow> nat \<Rightarrow> u8 list" where
  "be_bytes 0 x = []"
| "be_bytes (Suc n) x = be_bytes n (x div 256) @ [of_nat (x mod 256)]"

definition domain_tag :: "u8 list" where
  "domain_tag = map (\<lambda>c. of_nat (of_char c)) ''mevwatch.rule-alert.v1''"

definition alert_preimage :: "fire \<Rightarrow> u8 list" where
  "alert_preimage f = domain_tag @ be_bytes 16 (unat (fi_rule_id f)) @ be_bytes 20 (unat (fi_address f)) @
     (case fi_kind f of
        InstantFire trigger trigger_id \<Rightarrow> 0 # be_bytes 16 (unat trigger_id)
      | TemporalFire bs \<Rightarrow> 1 # concat (map (be_bytes 8) bs))"

text \<open>The first sixteen bytes of the digest, stamped as a version 8 UUID.\<close>

type_synonym alert_id = "u8 list"

definition alert_id_of :: "(u8 list \<Rightarrow> u8 list) \<Rightarrow> fire \<Rightarrow> alert_id" where
  "alert_id_of sha f = (let bytes = take 16 (sha (alert_preimage f));
       bytes = bytes[6 := or (and (bytes ! 6) 0x0f) 0x80]
     in bytes[8 := or (and (bytes ! 8) 0x3f) 0x80])"

section \<open>Emission\<close>

record rule_alert =
  ra_alert_id :: alert_id
  ra_rule_id :: uuid
  ra_owner :: uuid
  ra_address :: address
  ra_rule_name :: string
  ra_matched_blocks :: "nat list"

datatype usage = RuleEvaluated | AlertDelivered

datatype engine_out =
    OutUsage usage uuid
  | OutTriggered uuid address "matched_event list" string nat string
  | OutAlert alert_id uuid uuid address
  | OutDelivery rule_alert action

datatype publish_answer = Published | AbandonedPermanent | AbandonedShutdown

datatype engine_error =
    Undelivered publish_answer
  | EnrichError fault
  | StoreError fault
  | StoppedPool
  | RewindError fault

record engine_env =
  ee_sha :: "u8 list \<Rightarrow> u8 list"
  ee_publish :: "nat \<Rightarrow> publish_answer"
  ee_deliver :: "rule_alert \<Rightarrow> action \<Rightarrow> bool"
  ee_enrichment :: "address \<Rightarrow> address option \<Rightarrow> enrichment_needs \<Rightarrow> nat \<Rightarrow> fault + intel"
  ee_members :: "uuid \<Rightarrow> fault + address list"
  ee_enabled_rules :: "fault + rule list"
  ee_url :: "string \<Rightarrow> string + string"
  ee_worker :: worker_env
  ee_pool_open :: bool
  ee_scan :: "fault + state_key list"
  ee_shutdown :: bool

text \<open>A usage fact may be lost. The number is that of the next publication.\<close>

definition usage_out :: "engine_env \<Rightarrow> nat \<Rightarrow> usage \<Rightarrow> uuid \<Rightarrow> engine_out list" where
  "usage_out env n u owner = (if ee_publish env n = Published then [OutUsage u owner] else [])"

fun deliver_all :: "engine_env \<Rightarrow> nat \<Rightarrow> rule_alert \<Rightarrow> action list \<Rightarrow> engine_out list \<times> nat" where
  "deliver_all env n alert [] = ([], n)"
| "deliver_all env n alert (a # rest) =
     (if ee_deliver env alert a
      then let (out, n') = deliver_all env (n + 1) alert rest
           in (OutDelivery alert a # usage_out env n AlertDelivered (ra_owner alert) @ out, n')
      else deliver_all env n alert rest)"

definition emit_fire :: "engine_env \<Rightarrow> nat \<Rightarrow> fire \<Rightarrow> engine_out list \<times> nat \<times> (engine_error + unit)" where
  "emit_fire env n f =
     (let alert_id = alert_id_of (ee_sha env) f;
          out0 = usage_out env n RuleEvaluated (fi_owner f);
          triggered = OutTriggered (fi_rule_id f) (fi_address f) (matched_events f) (fi_rule_name f) (fi_block f) (kind_label (fi_kind f));
          created = OutAlert alert_id (fi_rule_id f) (fi_owner f) (fi_address f);
          alert = \<lparr>ra_alert_id = alert_id, ra_rule_id = fi_rule_id f, ra_owner = fi_owner f, ra_address = fi_address f,
            ra_rule_name = fi_rule_name f, ra_matched_blocks = kind_matched_blocks (fi_kind f)\<rparr>
      in if ee_publish env (n + 1) \<noteq> Published then (out0, n + 2, Inl (Undelivered (ee_publish env (n + 1))))
         else if ee_publish env (n + 2) \<noteq> Published
           then (out0 @ [triggered], n + 3, Inl (Undelivered (ee_publish env (n + 2))))
         else let (out, n') = deliver_all env (n + 3) alert (fi_actions f)
              in (out0 @ [triggered, created] @ out, n', Inr ()))"

fun emit_all_fires :: "engine_env \<Rightarrow> nat \<Rightarrow> fire list \<Rightarrow> engine_out list \<times> nat \<times> (engine_error + unit)" where
  "emit_all_fires env n [] = ([], n, Inr ())"
| "emit_all_fires env n (f # fs) =
     (let (out, n', r) = emit_fire env n f
      in case r of
           Inl e \<Rightarrow> (out, n', Inl e)
         | Inr u \<Rightarrow> (let (out', n'', r') = emit_all_fires env n' fs in (out @ out', n'', r')))"

text \<open>An undelivered temporal fire is lost; the drain goes on.\<close>

fun drain_fires :: "engine_env \<Rightarrow> nat \<Rightarrow> temporal_fire list \<Rightarrow> engine_out list" where
  "drain_fires env n [] = []"
| "drain_fires env n (f # fs) =
     (let (out, n', r) = emit_fire env n (fire_temporal f) in out @ drain_fires env n' fs)"

section \<open>Incidents and their alerts\<close>

record alert_facts =
  af_addresses :: "address list"
  af_confidence :: confidence

record incident =
  ic_alert_id :: uuid
  ic_kind :: alert_kind

record pending_incident =
  pi_incident :: incident
  pi_chain :: u64
  pi_at :: nat
  pi_event_id :: uuid

record pending_state =
  ps_alerts :: "(uuid, alert_facts) bounded_fifo_map"
  ps_incidents :: "(uuid, pending_incident) bounded_fifo_map"

definition pending_new :: "nat \<Rightarrow> pending_state" where
  "pending_new cap = \<lparr>ps_alerts = bfm_new cap, ps_incidents = bfm_new cap\<rparr>"

definition learn_alert :: "uuid \<Rightarrow> alert_facts \<Rightarrow> pending_state \<Rightarrow> pending_incident option \<times> pending_state" where
  "learn_alert i facts p =
     (let (ready, incidents) = bfm_take i (ps_incidents p)
      in (ready, p\<lparr>ps_alerts := bfm_put i facts (ps_alerts p), ps_incidents := incidents\<rparr>))"

definition facts_or_buffer ::
  "incident \<Rightarrow> u64 \<Rightarrow> nat \<Rightarrow> uuid \<Rightarrow> pending_state \<Rightarrow> (incident \<times> alert_facts) option \<times> pending_state" where
  "facts_or_buffer inc chain at_time event_id p = (case bfm_get (ic_alert_id inc) (ps_alerts p) of
      Some facts \<Rightarrow> (Some (inc, facts), p)
    | None \<Rightarrow> (None, p\<lparr>ps_incidents := bfm_put (ic_alert_id inc)
        \<lparr>pi_incident = inc, pi_chain = chain, pi_at = at_time, pi_event_id = event_id\<rparr> (ps_incidents p)\<rparr>))"

section \<open>The engine\<close>

record engine =
  eg_rules :: compiled_rule_set
  eg_pool :: temporal_pool
  eg_channel :: "temporal_fire list"
  eg_pending :: pending_state
  eg_watermarks :: "(u64 \<times> nat) list"

definition watermark :: "engine \<Rightarrow> u64 \<Rightarrow> nat" where
  "watermark eg chain = (case hm_get (eg_watermarks eg) chain of Some b \<Rightarrow> b | None \<Rightarrow> 0)"

datatype handled = Commit | Skip | Retry | Stop

fun fault_transient :: "fault \<Rightarrow> bool" where
  "fault_transient Transient_fault = True"
| "fault_transient Permanent_fault = False"

fun error_transient :: "engine_error \<Rightarrow> bool" where
  "error_transient (Undelivered a) \<longleftrightarrow> a = AbandonedShutdown"
| "error_transient (EnrichError f) = fault_transient f"
| "error_transient (StoreError f) = fault_transient f"
| "error_transient StoppedPool = False"
| "error_transient (RewindError f) = fault_transient f"

definition verdict :: "engine_env \<Rightarrow> engine_error + unit \<Rightarrow> handled" where
  "verdict env r = (case r of
      Inr u \<Rightarrow> if ee_shutdown env then Stop else Commit
    | Inl StoppedPool \<Rightarrow> Stop
    | Inl (Undelivered a) \<Rightarrow> if a = AbandonedShutdown then Stop else Skip
    | Inl e \<Rightarrow> if error_transient e then Retry else Skip)"

fun counterparty_of :: "event_facts \<Rightarrow> address option" where
  "counterparty_of (Transfer chain token amount counterparty) = Some counterparty"
| "counterparty_of _ = None"

fun build_ctxs ::
  "engine_env \<Rightarrow> enrichment_needs \<Rightarrow> nat \<Rightarrow> nat \<Rightarrow> (address \<times> event_facts) list \<Rightarrow> engine_error + event_ctx list" where
  "build_ctxs env needs block at_time [] = Inr []"
| "build_ctxs env needs block at_time ((address, facts) # rest) =
     (case ee_enrichment env address (counterparty_of facts) needs at_time of
        Inl e \<Rightarrow> Inl (EnrichError e)
      | Inr i \<Rightarrow> res_bind (build_ctxs env needs block at_time rest)
          (\<lambda>ctxs. Inr (\<lparr>ec_address = address, ec_block = block, ec_facts = facts, ec_intel = i\<rparr> # ctxs)))"

definition instant_fires :: "compiled_rule_set \<Rightarrow> string \<Rightarrow> uuid \<Rightarrow> event_ctx list \<Rightarrow> fire list" where
  "instant_fires rules trigger trigger_id ctxs =
     concat (map (\<lambda>ctx. map (\<lambda>rule. fire_instant rule ctx trigger trigger_id) (set_evaluate rules ctx)) ctxs)"

definition step_pool :: "engine_env \<Rightarrow> event_ctx list \<Rightarrow> engine \<Rightarrow> engine \<times> (engine_error + unit)" where
  "step_pool env ctxs eg =
     (if temporal_rules (eg_rules eg) = [] then (eg, Inr ())
      else if \<not> ee_pool_open env then (eg, Inl StoppedPool)
      else (case pool_run (ee_worker env) (eg_rules eg) (map Step ctxs) (eg_pool eg) of
          None \<Rightarrow> (eg, Inl StoppedPool)
        | Some (pool, fires) \<Rightarrow> (eg\<lparr>eg_pool := pool, eg_channel := eg_channel eg @ fires\<rparr>, Inr ())))"

definition evaluate ::
  "engine_env \<Rightarrow> (address \<times> event_facts) list \<Rightarrow> u64 \<Rightarrow> nat \<Rightarrow> string \<Rightarrow> uuid \<Rightarrow> engine
    \<Rightarrow> engine \<times> engine_out list \<times> (engine_error + unit)" where
  "evaluate env subjects chain at_time trigger trigger_id eg =
     (if cs_rules (eg_rules eg) = [] \<or> subjects = [] then (eg, [], Inr ())
      else case build_ctxs env (cs_needs (eg_rules eg)) (watermark eg chain) at_time subjects of
          Inl e \<Rightarrow> (eg, [], Inl e)
        | Inr ctxs \<Rightarrow>
            (let (out, n, r) = emit_all_fires env 0 (instant_fires (eg_rules eg) trigger trigger_id ctxs)
             in case r of
                  Inl e \<Rightarrow> (eg, out, Inl e)
                | Inr u \<Rightarrow> (let (eg', r') = step_pool env ctxs eg in (eg', out, r'))))"

text \<open>A \<open>BTreeSet\<close> of the addresses.\<close>

definition unique_addresses :: "address list \<Rightarrow> address list" where
  "unique_addresses xs = remdups (sort xs)"

definition evaluate_incident ::
  "engine_env \<Rightarrow> incident \<Rightarrow> alert_facts \<Rightarrow> u64 \<Rightarrow> nat \<Rightarrow> uuid \<Rightarrow> engine
    \<Rightarrow> engine \<times> engine_out list \<times> (engine_error + unit)" where
  "evaluate_incident env inc facts chain at_time trigger_id eg =
     evaluate env (map (\<lambda>a. (a, Incident (ic_kind inc) (af_confidence facts))) (unique_addresses (af_addresses facts)))
       chain at_time ''IncidentCreated'' trigger_id eg"

definition evaluate_state_change ::
  "engine_env \<Rightarrow> address list \<Rightarrow> u64 \<Rightarrow> nat \<Rightarrow> string \<Rightarrow> uuid \<Rightarrow> engine
    \<Rightarrow> engine \<times> engine_out list \<times> (engine_error + unit)" where
  "evaluate_state_change env addresses chain at_time trigger trigger_id eg =
     evaluate env (map (\<lambda>a. (a, StateChanged)) (unique_addresses addresses)) chain at_time trigger trigger_id eg"

definition evaluate_entity_merged ::
  "engine_env \<Rightarrow> uuid \<Rightarrow> u64 \<Rightarrow> nat \<Rightarrow> uuid \<Rightarrow> engine \<Rightarrow> engine \<times> engine_out list \<times> (engine_error + unit)" where
  "evaluate_entity_merged env survivor chain at_time trigger_id eg = (case ee_members env survivor of
      Inl e \<Rightarrow> (eg, [], Inl (EnrichError e))
    | Inr members \<Rightarrow> evaluate_state_change env members chain at_time ''EntityMerged'' trigger_id eg)"

section \<open>Refresh, rewind and the handler\<close>

datatype refresh_outcome = Swapped nat | KeptStale compile_error

definition refresh_rules :: "engine_env \<Rightarrow> engine \<Rightarrow> engine \<times> (fault + refresh_outcome)" where
  "refresh_rules env eg = (case ee_enabled_rules env of
      Inl e \<Rightarrow> (eg, Inl e)
    | Inr docs \<Rightarrow> (case set_compile (ee_url env) docs of
          Inr rules \<Rightarrow> (eg\<lparr>eg_rules := rules\<rparr>, Inr (Swapped (length (cs_rules rules))))
        | Inl err \<Rightarrow> (eg, Inr (KeptStale err))))"

definition engine_rewind :: "engine_env \<Rightarrow> nat \<Rightarrow> engine \<Rightarrow> engine \<times> (engine_error + unit)" where
  "engine_rewind env reverted eg =
     (if \<not> ee_pool_open env then (eg, Inl StoppedPool)
      else case ee_scan env of
          Inl e \<Rightarrow> (eg, Inl (RewindError e))
        | Inr keys \<Rightarrow> (case pool_rewind (ee_worker env) (eg_rules eg) keys reverted (eg_pool eg) of
            None \<Rightarrow> (eg, Inl StoppedPool)
          | Some pool \<Rightarrow> (eg\<lparr>eg_pool := pool\<rparr>, Inr ())))"

datatype payload =
    BlockCanonicalized nat
  | BlockReverted nat
  | RuleCreated uuid
  | PreliminaryAlertCreated uuid "address list" confidence
  | IncidentCreated incident
  | RiskScoreUpdated address
  | LabelAdded address
  | SanctionHit address
  | EntityMerged uuid
  | OtherEvent

record envelope =
  en_chain :: u64
  en_occurred_at :: nat
  en_event_id :: uuid
  en_payload :: payload

definition with_verdict ::
  "engine_env \<Rightarrow> engine \<times> engine_out list \<times> (engine_error + unit) \<Rightarrow> engine \<times> engine_out list \<times> handled" where
  "with_verdict env res = (let (eg, out, r) = res in (eg, out, verdict env r))"

definition advance_watermark :: "u64 \<Rightarrow> nat \<Rightarrow> engine \<Rightarrow> engine" where
  "advance_watermark chain block eg =
     eg\<lparr>eg_watermarks := hm_insert chain (max (watermark eg chain) block) (eg_watermarks eg)\<rparr>"

definition handle :: "engine_env \<Rightarrow> envelope \<Rightarrow> engine \<Rightarrow> engine \<times> engine_out list \<times> handled" where
  "handle env e eg = (let at_time = en_occurred_at e; chain = en_chain e; event_id = en_event_id e
     in case en_payload e of
          BlockCanonicalized block \<Rightarrow> (advance_watermark chain block eg, [], Commit)
        | BlockReverted block \<Rightarrow>
            (let (eg', r) = engine_rewind env block eg in (eg', [], verdict env r))
        | RuleCreated i \<Rightarrow>
            (let (eg', r) = refresh_rules env eg
             in (eg', [], verdict env (case r of Inl f \<Rightarrow> Inl (StoreError f) | Inr outcome \<Rightarrow> Inr ())))
        | PreliminaryAlertCreated i addresses confidence \<Rightarrow>
            (let facts = \<lparr>af_addresses = addresses, af_confidence = confidence\<rparr>;
                 (ready, pending) = learn_alert i facts (eg_pending eg);
                 eg1 = eg\<lparr>eg_pending := pending\<rparr>
             in case ready of
                  Some p \<Rightarrow> with_verdict env
                    (evaluate_incident env (pi_incident p) facts (pi_chain p) (pi_at p) (pi_event_id p) eg1)
                | None \<Rightarrow> (eg1, [], Commit))
        | IncidentCreated inc \<Rightarrow>
            (let (ready, pending) = facts_or_buffer inc chain at_time event_id (eg_pending eg);
                 eg1 = eg\<lparr>eg_pending := pending\<rparr>
             in case ready of
                  Some (inc', facts) \<Rightarrow> with_verdict env (evaluate_incident env inc' facts chain at_time event_id eg1)
                | None \<Rightarrow> (eg1, [], Commit))
        | RiskScoreUpdated a \<Rightarrow>
            with_verdict env (evaluate_state_change env [a] chain at_time ''RiskScoreUpdated'' event_id eg)
        | LabelAdded a \<Rightarrow> with_verdict env (evaluate_state_change env [a] chain at_time ''LabelAdded'' event_id eg)
        | SanctionHit a \<Rightarrow> with_verdict env (evaluate_state_change env [a] chain at_time ''SanctionHit'' event_id eg)
        | EntityMerged i \<Rightarrow> with_verdict env (evaluate_entity_merged env i chain at_time event_id eg)
        | OtherEvent \<Rightarrow> (eg, [], Commit))"

section \<open>The identity of an alert\<close>

lemma length_be_bytes [simp]: "length (be_bytes n x) = n"
  by (induction n arbitrary: x) auto

lemma byte_inj: "x < 256 \<Longrightarrow> y < 256 \<Longrightarrow> (of_nat x :: u8) = of_nat y \<Longrightarrow> x = y"
  by (drule arg_cong[of _ _ unat]) (simp add: unat_of_nat)

lemma be_bytes_inj: "x < 256 ^ n \<Longrightarrow> y < 256 ^ n \<Longrightarrow> be_bytes n x = be_bytes n y \<Longrightarrow> x = y"
proof (induction n arbitrary: x y)
  case (Suc n)
  then have hi: "be_bytes n (x div 256) = be_bytes n (y div 256)" and lo: "(of_nat (x mod 256) :: u8) = of_nat (y mod 256)"
    by auto
  have "x div 256 < 256 ^ n" "y div 256 < 256 ^ n" using Suc.prems(1,2) by (auto intro: less_mult_imp_div_less simp: mult.commute)
  with Suc.IH hi have "x div 256 = y div 256" by blast
  moreover have "x mod 256 = y mod 256" using byte_inj[OF _ _ lo] by simp
  ultimately show ?case by (metis div_mult_mod_eq)
qed simp

lemma be_bytes_word_inj:
  assumes "be_bytes n (unat a) = be_bytes n (unat (b :: 'a::len word))" and "2 ^ LENGTH('a) \<le> (256 :: nat) ^ n"
  shows "a = b"
proof -
  have "unat (x :: 'a word) < 256 ^ n" for x by (rule order.strict_trans2[OF unsigned_less assms(2)])
  from be_bytes_inj[OF this this assms(1)] show ?thesis by (simp only: word_unat_eq_iff)
qed

lemma blocks_inj:
  "list_all (\<lambda>b. b < 2 ^ 64) bs \<Longrightarrow> list_all (\<lambda>b. b < 2 ^ 64) cs \<Longrightarrow>
     concat (map (be_bytes 8) bs) = concat (map (be_bytes 8) cs) \<Longrightarrow> bs = cs"
proof (induction bs arbitrary: cs)
  case Nil
  then have "length (concat (map (be_bytes 8) cs)) = 0" by simp
  then show ?case by (cases cs) auto
next
  case (Cons b bs)
  then have "length (concat (map (be_bytes 8) cs)) \<noteq> 0" by (metis concat.simps(2) length_0_conv length_be_bytes
        append_is_Nil_conv list.simps(9) zero_neq_numeral)
  then obtain c cs' where cs: "cs = c # cs'" by (cases cs) auto
  have "be_bytes 8 b = be_bytes 8 c" "concat (map (be_bytes 8) bs) = concat (map (be_bytes 8) cs')"
    using Cons.prems(3) cs by auto
  moreover have "(2 :: nat) ^ 64 = 256 ^ 8" by simp
  ultimately show ?case using Cons.IH[of cs'] Cons.prems(1,2) cs be_bytes_inj[of b 8 c] by auto
qed

text \<open>
  The preimage of an alert identifier is unambiguous: two fires have the same one exactly when they are of
  the same rule and address and were caused by the same record, or by the same window of blocks; so a record
  that is delivered twice raises the same alert, and what differs is told apart up to collisions of the hash.
\<close>

theorem alert_identity:
  assumes "list_all (\<lambda>b. b < 2 ^ 64) (kind_matched_blocks (fi_kind f))"
    and "list_all (\<lambda>b. b < 2 ^ 64) (kind_matched_blocks (fi_kind g))"
  shows "alert_preimage f = alert_preimage g \<longleftrightarrow> fi_rule_id f = fi_rule_id g \<and> fi_address f = fi_address g
    \<and> (case (fi_kind f, fi_kind g) of
         (InstantFire t i, InstantFire t' i') \<Rightarrow> i = i'
       | (TemporalFire bs, TemporalFire cs) \<Rightarrow> bs = cs
       | _ \<Rightarrow> False)"
proof -
  let ?k = "\<lambda>k. case k of InstantFire t i \<Rightarrow> 0 # be_bytes 16 (unat i) | TemporalFire bs \<Rightarrow> (1 :: u8) # concat (map (be_bytes 8) bs)"
  have split: "alert_preimage f = alert_preimage g \<longleftrightarrow> be_bytes 16 (unat (fi_rule_id f)) = be_bytes 16 (unat (fi_rule_id g))
      \<and> be_bytes 20 (unat (fi_address f)) = be_bytes 20 (unat (fi_address g)) \<and> ?k (fi_kind f) = ?k (fi_kind g)"
    by (simp add: alert_preimage_def)
  have "be_bytes 16 (unat a) = be_bytes 16 (unat b) \<longleftrightarrow> a = b" for a b :: uuid
    using be_bytes_word_inj[of 16 a b] by auto
  moreover have "be_bytes 20 (unat a) = be_bytes 20 (unat b) \<longleftrightarrow> a = b" for a b :: address
    using be_bytes_word_inj[of 20 a b] by auto
  ultimately show ?thesis unfolding split using assms blocks_inj
    by (cases "fi_kind f"; cases "fi_kind g") auto
qed

theorem alert_identity_witness:
  "alert_preimage (fire_temporal (fire_of (compiled_of ex_sequence_rule) (ex_mixer 150) [100, 150]))
     \<noteq> alert_preimage (fire_temporal (fire_of (compiled_of ex_sequence_rule) (ex_mixer 150) [120, 150]))
   \<and> alert_preimage (fire_instant (compiled_of ex_score_rule) (ex_big 100) ''SanctionHit'' 5)
     = alert_preimage (fire_instant (compiled_of ex_score_rule) (ex_mixer 100) ''SanctionHit'' 5)"
proof -
  let ?f = "fire_temporal (fire_of (compiled_of ex_sequence_rule) (ex_mixer 150) [100, 150])"
  let ?g = "fire_temporal (fire_of (compiled_of ex_sequence_rule) (ex_mixer 150) [120, 150])"
  let ?h = "fire_instant (compiled_of ex_score_rule) (ex_big 100) ''SanctionHit'' 5"
  let ?k = "fire_instant (compiled_of ex_score_rule) (ex_mixer 100) ''SanctionHit'' 5"
  show ?thesis using alert_identity[of ?f ?g] alert_identity[of ?h ?k]
    by (simp add: fire_temporal_def fire_of_def fire_instant_def ex_big_def ex_mixer_def at_block_def)
qed

text \<open>
  The identifier is a well-formed UUID whatever the digest: sixteen bytes with version 8 and the
  standard variant.
\<close>

theorem alert_id_is_uuid_v8:
  assumes "length (sha (alert_preimage f)) = 32"
  shows "length (alert_id_of sha f) = 16 \<and> drop_bit 4 (alert_id_of sha f ! 6) = 8 \<and> drop_bit 6 (alert_id_of sha f ! 8) = 2"
  using assms by (simp add: alert_id_of_def Let_def drop_bit_or drop_bit_and)

theorem alert_id_is_uuid_v8_witness:
  "drop_bit 4 (alert_id_of (\<lambda>m. replicate 32 255) (fire_instant (compiled_of ex_score_rule) (ex_big 100) ''SanctionHit'' 5) ! 6) = 8"
  using alert_id_is_uuid_v8[of "\<lambda>m. replicate 32 255" "fire_instant (compiled_of ex_score_rule) (ex_big 100) ''SanctionHit'' 5"]
  by simp

section \<open>A committed record is applied\<close>

lemma build_ctxs_spec:
  "build_ctxs env needs block at_time subjects = Inr ctxs \<Longrightarrow>
     map (\<lambda>c. (ec_address c, ec_facts c)) ctxs = subjects \<and> list_all (\<lambda>c. ec_block c = block
       \<and> ee_enrichment env (ec_address c) (counterparty_of (ec_facts c)) needs at_time = Inr (ec_intel c)) ctxs"
  by (induction env needs block at_time subjects arbitrary: ctxs rule: build_ctxs.induct)
    (auto simp: res_bind_ok split: sum.splits)

definition alert_of :: "engine_env \<Rightarrow> fire \<Rightarrow> engine_out" where
  "alert_of env f = OutAlert (alert_id_of (ee_sha env) f) (fi_rule_id f) (fi_owner f) (fi_address f)"

fun is_alert :: "engine_out \<Rightarrow> bool" where
  "is_alert (OutAlert aid rule owner addr) \<longleftrightarrow> True"
| "is_alert _ \<longleftrightarrow> False"

lemma deliveries_no_alert: "filter is_alert (fst (deliver_all env n alert acts)) = []"
  by (induction env n alert acts rule: deliver_all.induct)
    (auto simp: usage_out_def split: prod.splits)

lemma emit_fire_alerts:
  assumes "emit_fire env n f = (out, n', r)"
  shows "filter is_alert out = (if r = Inr () then [alert_of env f] else [])"
proof -
  have "filter is_alert (usage_out env n u w) = []" for n u w by (simp add: usage_out_def)
  then show ?thesis using assms deliveries_no_alert
    by (auto simp: emit_fire_def Let_def alert_of_def split: if_splits prod.splits) (metis fst_conv)+
qed

lemma emit_all_alerts:
  "emit_all_fires env n fs = (out, n', r) \<Longrightarrow>
     \<exists>k. filter is_alert out = map (alert_of env) (take k fs) \<and> (r = Inr () \<longrightarrow> k = length fs)"
proof (induction fs arbitrary: n out)
  case (Cons f fs)
  obtain out1 n1 r1 where e: "emit_fire env n f = (out1, n1, r1)" by (rule prod_cases3)
  show ?case
  proof (cases r1)
    case (Inl err)
    then have "r = Inl err" "out = out1" using Cons.prems e by auto
    then show ?thesis using emit_fire_alerts[OF e] Inl by (intro exI[of _ 0]) simp
  next
    case (Inr u)
    obtain out2 n2 r2 where e2: "emit_all_fires env n1 fs = (out2, n2, r2)" by (rule prod_cases3)
    then have o: "out = out1 @ out2" "r = r2" using Cons.prems e Inr by auto
    obtain k where k: "filter is_alert out2 = map (alert_of env) (take k fs)" "r2 = Inr () \<longrightarrow> k = length fs"
      using Cons.IH e2 o(2) Cons.prems e Inr by fastforce
    then show ?thesis using emit_fire_alerts[OF e] Inr o by (intro exI[of _ "Suc k"]) simp
  qed
qed simp



text \<open>An engine with the two example rules, and answers for it.\<close>

definition ex_engine :: engine where
  "ex_engine = \<lparr>eg_rules = ex_set, eg_pool = pool_spawn 2 8 Map.empty, eg_channel = [], eg_pending = pending_new 10,
     eg_watermarks = [(1, 500)]\<rparr>"

definition ex_answers :: "(nat \<Rightarrow> publish_answer) \<Rightarrow> fault + intel \<Rightarrow> engine_env" where
  "ex_answers pub i = \<lparr>ee_sha = (\<lambda>m. replicate 32 0), ee_publish = pub, ee_deliver = (\<lambda>al a. True),
     ee_enrichment = (\<lambda>a cp needs t. i), ee_members = (\<lambda>e. Inr []), ee_enabled_rules = Inr [],
     ee_url = ex_up, ee_worker = ex_env, ee_pool_open = True, ee_scan = Inr [], ee_shutdown = False\<rparr>"

lemma ex_set_rules: "cs_rules ex_set = [compiled_of ex_sequence_rule, compiled_of ex_score_rule]"
  by (simp add: ex_set_def)


lemma ex_set_temporal: "temporal_rules ex_set = [compiled_of ex_sequence_rule]"
  by (simp add: temporal_rules_def ex_set_def compiled_of_def ex_sequence_rule_def ex_score_rule_def cr_temporal_def
        compile_match_def)

lemma ex_score_matches:
  "set_evaluate ex_set \<lparr>ec_address = a, ec_block = b, ec_facts = f, ec_intel = intel_default\<lparr>in_risk_score := Some 90\<rparr>\<rparr>
     = [compiled_of ex_score_rule]"
  by (simp add: set_evaluate_def ex_set_rules instant_matches_def compiled_of_def ex_sequence_rule_def ex_score_rule_def
        compile_match_def compile_logic_def)


section \<open>An incident and its alert, in either order\<close>

lemma evaluate_ignores_pending:
  "evaluate env subjects chain at_time trigger trigger_id (eg\<lparr>eg_pending := p\<rparr>) =
     (case evaluate env subjects chain at_time trigger trigger_id eg of (eg', out, r) \<Rightarrow> (eg'\<lparr>eg_pending := p\<rparr>, out, r))"
  by (auto simp: evaluate_def watermark_def step_pool_def Let_def split: sum.splits prod.splits option.splits if_splits)

lemma put_then_get [simp]: "hm_get (entries (bfm_put k v m)) k = Some v"
  by (simp add: bfm_put_def Let_def hm_get_insert)


definition ex_incident :: envelope where
  "ex_incident = \<lparr>en_chain = 1, en_occurred_at = 3, en_event_id = 11,
     en_payload = IncidentCreated \<lparr>ic_alert_id = 4, ic_kind = Sandwich\<rparr>\<rparr>"

definition ex_alert :: envelope where
  "ex_alert = \<lparr>en_chain = 1, en_occurred_at = 2, en_event_id = 12, en_payload = PreliminaryAlertCreated 4 [7] (Fin 1)\<rparr>"

definition ex_quiet :: engine where
  "ex_quiet = ex_engine\<lparr>eg_rules := ex_set\<lparr>cs_rules := []\<rparr>\<rparr>"


section \<open>A buffered incident does not survive a retry\<close>

lemma evaluate_keeps_pending: "evaluate env subjects chain at_time trigger trigger_id eg = (eg', out, r) \<Longrightarrow> eg_pending eg' = eg_pending eg"
  by (auto simp: evaluate_def step_pool_def Let_def split: sum.splits prod.splits option.splits if_splits)

text \<open>
  C13: A buffered incident is lost when the record of its alert has to be retried: the first attempt takes it out
  of the buffer before the evaluation, so after a transient fault the second attempt finds nothing, commits at
  once and publishes nothing, whatever is available then.
\<close>

theorem retried_alert_drops_incident:
  assumes "en_payload e = PreliminaryAlertCreated i addresses confidence"
    and "handle env e eg = (eg1, out1, Retry)"
  shows "bfm_get i (ps_incidents (eg_pending eg1)) = None \<and> snd (handle env' e eg1) = ([], Commit)"
proof -
  let ?p = "snd (learn_alert i \<lparr>af_addresses = addresses, af_confidence = confidence\<rparr> (eg_pending eg))"
  have "eg_pending eg1 = ?p"
    using assms
    by (auto simp: handle_def Let_def with_verdict_def evaluate_incident_def split: prod.splits option.splits
          dest!: evaluate_keeps_pending)
  then have none: "bfm_get i (ps_incidents (eg_pending eg1)) = None"
    by (simp add: learn_alert_def bfm_take_def bfm_get_def hm_get_remove)
  then show ?thesis using assms(1)
    by (simp add: handle_def learn_alert_def bfm_take_def bfm_get_def Let_def)
qed

theorem retried_alert_drops_incident_witness:
  "let down = ex_answers (\<lambda>n. Published) (Inl Transient_fault);
       buffered = fst (handle down ex_incident ex_engine)
   in bfm_get 4 (ps_incidents (eg_pending buffered)) \<noteq> None
    \<and> snd (handle down ex_alert buffered) = ([], Retry)
    \<and> snd (handle (ex_answers (\<lambda>n. Published) (Inr intel_default)) ex_alert (fst (handle down ex_alert buffered))) = ([], Commit)"
proof -
  let ?down = "ex_answers (\<lambda>n. Published) (Inl Transient_fault)"
  let ?buffered = "fst (handle ?down ex_incident ex_engine)"
  have p: "bfm_get 4 (ps_incidents (eg_pending ?buffered)) \<noteq> None" "cs_rules (eg_rules ?buffered) \<noteq> []"
    by (simp_all add: handle_def ex_incident_def ex_engine_def facts_or_buffer_def pending_new_def bfm_get_def bfm_new_def
          bfm_put_def Let_def ex_set_rules evict_to_fit_def)
  then obtain pi where "hm_get (entries (ps_incidents (eg_pending ?buffered))) 4 = Some pi" by (auto simp: bfm_get_def)
  then have r: "snd (handle ?down ex_alert ?buffered) = ([], Retry)"
    using p(2) by (simp add: handle_def ex_alert_def learn_alert_def bfm_take_def Let_def evaluate_incident_def evaluate_def
        unique_addresses_def ex_answers_def with_verdict_def verdict_def)
  obtain eg1 where h: "handle ?down ex_alert ?buffered = (eg1, [], Retry)" using r by (cases "handle ?down ex_alert ?buffered") auto
  from retried_alert_drops_incident[OF _ h, of 4 "[7]" "Fin 1" "ex_answers (\<lambda>n. Published) (Inr intel_default)"] show ?thesis
    using p(1) r h unfolding Let_def by (simp add: ex_alert_def)
qed

section \<open>Clocks and chains\<close>

fun handle_all :: "(envelope \<times> engine_env) list \<Rightarrow> engine \<Rightarrow> engine" where
  "handle_all [] eg = eg"
| "handle_all ((e, env) # es) eg = handle_all es (fst (handle env e eg))"

fun canonical_height :: "u64 \<Rightarrow> envelope \<Rightarrow> nat option" where
  "canonical_height chain e = (case en_payload e of
      BlockCanonicalized b \<Rightarrow> if en_chain e = chain then Some b else None
    | _ \<Rightarrow> None)"

lemma evaluate_keeps_watermarks:
  "evaluate env subjects chain at_time trigger trigger_id eg = (eg', out, r) \<Longrightarrow> eg_watermarks eg' = eg_watermarks eg"
  by (auto simp: evaluate_def step_pool_def Let_def split: sum.splits prod.splits option.splits if_splits)

lemma handle_watermark:
  "watermark (fst (handle env e eg)) chain =
     (case canonical_height chain e of Some b \<Rightarrow> max (watermark eg chain) b | None \<Rightarrow> watermark eg chain)"
proof (cases "en_payload e")
  case (BlockCanonicalized b)
  then show ?thesis by (simp add: handle_def Let_def advance_watermark_def watermark_def hm_get_insert)
next
  case (BlockReverted b)
  then show ?thesis
    by (auto simp: handle_def Let_def engine_rewind_def watermark_def split: prod.splits sum.splits option.splits)
next
  case (RuleCreated i)
  then show ?thesis
    by (auto simp: handle_def Let_def refresh_rules_def watermark_def split: prod.splits sum.splits)
next
  case (PreliminaryAlertCreated i addresses confidence)
  then show ?thesis
    by (auto simp: handle_def Let_def with_verdict_def evaluate_incident_def watermark_def split: prod.splits option.splits
          dest!: evaluate_keeps_watermarks)
next
  case (IncidentCreated inc)
  then show ?thesis
    by (auto simp: handle_def Let_def with_verdict_def evaluate_incident_def watermark_def split: prod.splits option.splits
          dest!: evaluate_keeps_watermarks)
next
  case (EntityMerged i)
  then show ?thesis
    by (auto simp: handle_def Let_def with_verdict_def evaluate_entity_merged_def evaluate_state_change_def watermark_def
          split: prod.splits sum.splits option.splits dest!: evaluate_keeps_watermarks)
qed (auto simp: handle_def Let_def with_verdict_def evaluate_state_change_def watermark_def
       split: prod.splits option.splits dest!: evaluate_keeps_watermarks)

text \<open>
  The clock of a chain is the highest block the chain has canonicalised so far: no record moves it back, a
  reverted block included, and no record of another chain moves it at all.
\<close>

theorem watermark_is_highest_block:
  "watermark (handle_all es eg) chain = fold max (List.map_filter (\<lambda>(e, env). canonical_height chain e) es) (watermark eg chain)"
proof (induction es arbitrary: eg)
  case (Cons x es)
  obtain e env where x: "x = (e, env)" by fastforce
  show ?case unfolding x using Cons[of "fst (handle env e eg)"] handle_watermark[of env e eg chain]
    by (cases "canonical_height chain e") (simp_all add: List.map_filter_def max.commute)
qed (simp add: List.map_filter_def)

text \<open>
  C33: A revert unwinds the windows of every chain: the machines are keyed by rule and address only, so when a block
  of one chain is reverted and committed, a sequence whose progress was recorded at higher blocks is dropped although
  those are blocks of another chain.
\<close>

theorem revert_unwinds_other_chains:
  assumes "en_payload e = BlockReverted b" and "handle env e eg = (eg', out, Commit)"
    and "set_compile up docs = Inr (eg_rules eg)" and "faultless (ee_worker env)"
    and "eg_pool eg = pool_spawn n cap s" and "0 < n" and "ee_scan env = Inr keys" and "set keys = dom s"
    and "stored_view s k = Some (SSequence bs)" and "list_all (\<lambda>x. b \<le> x) bs"
  shows "stored_view (pool_store (eg_pool eg')) k = None"
proof -
  obtain p where p: "pool_rewind (ee_worker env) (eg_rules eg) keys b (pool_spawn n cap s) = Some p" "eg_pool eg' = p"
    using assms(1,2,5,7) by (auto simp: handle_def Let_def engine_rewind_def verdict_def split: if_splits option.splits prod.splits)
  have "stored_view (pool_store p) k = spec_rewind (eg_rules eg) b (fst k) (stored_view s k)"
    using pool_rewind_spawned[OF assms(3,4,6,8) p(1)] .
  moreover have "takeWhile (\<lambda>x. x < b) bs = []" using assms(10) by (cases bs) auto
  then have "rewind_state (Some (SSequence bs)) b = None" by (simp add: rewind_state_def)
  ultimately show ?thesis using assms(9) p(2) by (simp add: spec_rewind_def)
qed

theorem revert_unwinds_other_chains_witness:
  "\<exists>eg'. handle ((ex_answers (\<lambda>n. Published) (Inr intel_default))\<lparr>ee_scan := Inr [(1, 7)]\<rparr>)
       \<lparr>en_chain = 1, en_occurred_at = 0, en_event_id = 1, en_payload = BlockReverted 20000000\<rparr>
       (ex_engine\<lparr>eg_watermarks := [(1, 20000000), (137, 60000000)],
          eg_pool := pool_spawn 2 8 [(1, 7) \<mapsto> Stored (SSequence [60000000]) 2400]\<rparr>) = (eg', [], Commit)
    \<and> stored_view (pool_store (eg_pool eg')) (1, 7) = None"
proof -
  let ?s = "[(1, 7) \<mapsto> Stored (SSequence [60000000]) 2400] :: state_store"
  let ?env = "(ex_answers (\<lambda>n. Published) (Inr intel_default))\<lparr>ee_scan := Inr [(1, 7)]\<rparr>"
  let ?eg = "ex_engine\<lparr>eg_watermarks := [(1, 20000000), (137, 60000000)], eg_pool := pool_spawn 2 8 ?s\<rparr>"
  let ?e = "\<lparr>en_chain = 1, en_occurred_at = 0, en_event_id = 1, en_payload = BlockReverted 20000000\<rparr>"
  have f: "faultless ex_env" by (simp add: faultless_def ex_env_def)
  have two: "0 < (2 :: nat)" by simp
  obtain p fs where "pool_run ex_env ex_set (map (\<lambda>k. RewindKey k 20000000) [(1, 7)]) (pool_spawn 2 8 ?s) = Some (p, fs)"
    using pool_run_total[OF ex_set_compiles f two, of "map (\<lambda>k. RewindKey k 20000000) [(1, 7)]" 8 ?s] by blast
  then have q: "pool_rewind ex_env ex_set [(1, 7)] 20000000 (pool_spawn 2 8 ?s) = Some p" by (simp only: pool_rewind_def) simp
  define eg' where "eg' = ?eg\<lparr>eg_pool := p\<rparr>"
  have h: "handle ?env ?e ?eg = (eg', [], Commit)"
    using q by (simp add: handle_def Let_def engine_rewind_def ex_answers_def ex_engine_def eg'_def verdict_def)
  have "stored_view (pool_store (eg_pool eg')) (1, 7) = None"
    by (rule revert_unwinds_other_chains[OF _ h, where docs = "[ex_sequence_rule, ex_score_rule]" and up = ex_up and s = ?s
          and keys = "[(1, 7)]" and n = 2 and cap = 8 and bs = "[60000000]" and b = 20000000])
      (simp_all add: ex_engine_def ex_set_compiles ex_answers_def f stored_view_def)
  then show ?thesis using h by blast
qed

end
