(* ===== verification/Leg_Buffer.thy ===== *)
theory Leg_Buffer
  imports Detector_Api Measured Chain_Types
begin

text \<open>
  Candidate legs and the buffer that keeps them (\<open>crates/cross-chain-correlator/src/leg.rs\<close>,
  \<open>buffer.rs\<close>). A leg is one observed fact that may be one side of a cross-chain pattern; a buffer
  holds the unmatched legs of one bridge or pair in arrival order with a secondary index from
  correlation key to transaction hashes. Instants and time deltas are integers (nanoseconds).

  \<open>buffer_inv\<close> is what every operation keeps: the capacity bound, and that the index never names more
  legs than the buffer holds, which is why consuming a match cannot fail. \<open>buffer_exact\<close> is the
  stronger fact, that an indexed lookup is the scan it replaces; it needs the buffered legs to have
  different transactions, because legs are identified by transaction hash alone.
\<close>

section \<open>Legs\<close>

datatype leg_kind = BridgeDeposit | LargeSwap

type_synonym bridge_or_pair = string

record candidate_leg =
  cl_chain :: u64
  cl_block :: block_ref
  cl_tx :: b256
  cl_kind :: leg_kind
  cl_bridge :: bridge_or_pair
  cl_key :: address
  cl_observed_at :: int
  cl_confidence :: confidence
  cl_impact :: "usd_amount option"

text \<open>\<open>BridgeOrPair::owned_by\<close>. The standard library's \<open>DefaultHasher\<close> is not specified, so it is a parameter.\<close>

definition owned_by :: "(bridge_or_pair \<Rightarrow> u64) \<Rightarrow> bridge_or_pair \<Rightarrow> u32 \<Rightarrow> u32 \<Rightarrow> bool" where
  "owned_by hasher b replica_index replica_count =
     (if replica_count \<le> 1 then True
      else (ucast (hasher b mod ucast replica_count) :: u32) = replica_index)"

definition owned_bridges :: "(bridge_or_pair \<Rightarrow> u64) \<Rightarrow> u32 \<Rightarrow> u32 \<Rightarrow> bridge_or_pair list \<Rightarrow> bridge_or_pair list" where
  "owned_bridges hasher replica_index replica_count bs = filter (\<lambda>b. owned_by hasher b replica_index replica_count) bs"

text \<open>The accessors of \<open>serde_json::Value\<close> the extractor calls.\<close>

fun json_get :: "json \<Rightarrow> string \<Rightarrow> json option" where
  "json_get (JObject m) k = map_of m k"
| "json_get _ k = None"

fun as_str :: "json \<Rightarrow> string option" where
  "as_str (JString s) = Some s"
| "as_str _ = None"

fun as_f64 :: "json \<Rightarrow> f64 option" where
  "as_f64 (JNumber (PosInt n)) = Some (round_f64 (of_nat n))"
| "as_f64 (JNumber (NegInt i)) = Some (round_f64 (of_int i))"
| "as_f64 (JNumber (Float x)) = Some x"
| "as_f64 _ = None"

record trigger =
  tg_detector_id :: string
  tg_block :: block_ref
  tg_txs :: "b256 list"
  tg_raw_confidence :: confidence
  tg_evidence :: json

datatype bus_payload = DetectorTriggered trigger | OtherPayload

record bus_envelope =
  be_event_id :: uuid
  be_chain :: u64
  be_occurred_at :: int
  be_payload :: bus_payload

record extractor =
  ex_deposit_ids :: "string list"
  ex_swap_ids :: "string list"

definition leg_kind_of :: "extractor \<Rightarrow> string \<Rightarrow> leg_kind option" where
  "leg_kind_of ex d =
     (if d \<in> set (ex_deposit_ids ex) then Some BridgeDeposit
      else if d \<in> set (ex_swap_ids ex) then Some LargeSwap else None)"

text \<open>Parsing an address belongs to a library and is the parameter \<open>parse\<close>.\<close>

definition extract_leg :: "(string \<Rightarrow> address option) \<Rightarrow> extractor \<Rightarrow> bus_envelope \<Rightarrow> candidate_leg option" where
  "extract_leg parse ex env = (case be_payload env of
      OtherPayload \<Rightarrow> None
    | DetectorTriggered t \<Rightarrow> do {
        kind \<leftarrow> leg_kind_of ex (tg_detector_id t);
        v \<leftarrow> json_get (tg_evidence t) ''correlation_address'';
        s \<leftarrow> as_str v;
        key \<leftarrow> parse s;
        bv \<leftarrow> json_get (tg_evidence t) ''bridge_or_pair'';
        b \<leftarrow> as_str bv;
        tx \<leftarrow> (case tg_txs t of [] \<Rightarrow> None | tx # _ \<Rightarrow> Some tx);
        let impact = do {
          iv \<leftarrow> json_get (tg_evidence t) ''impact_usd'';
          x \<leftarrow> as_f64 iv;
          case usd_amount_try_new x of Inl _ \<Rightarrow> None | Inr u \<Rightarrow> Some u
        };
        Some \<lparr>cl_chain = be_chain env, cl_block = tg_block t, cl_tx = tx, cl_kind = kind, cl_bridge = b,
          cl_key = key, cl_observed_at = be_occurred_at env, cl_confidence = tg_raw_confidence t, cl_impact = impact\<rparr>
      })"

section \<open>The buffer\<close>

type_synonym key_index = "(address \<times> b256 list) list"

record leg_buffer =
  lb_window :: int
  lb_capacity :: nat
  lb_legs :: "candidate_leg list"
  lb_by_key :: key_index

definition buffer_new :: "int \<Rightarrow> nat \<Rightarrow> leg_buffer" where
  "buffer_new window capacity = \<lparr>lb_window = window, lb_capacity = max capacity 1, lb_legs = [], lb_by_key = []\<rparr>"

definition index_insert :: "candidate_leg \<Rightarrow> key_index \<Rightarrow> key_index" where
  "index_insert leg ix =
     hm_insert (cl_key leg) ((case hm_get ix (cl_key leg) of None \<Rightarrow> [] | Some txs \<Rightarrow> txs) @ [cl_tx leg]) ix"

definition deindex :: "candidate_leg \<Rightarrow> key_index \<Rightarrow> key_index" where
  "deindex leg ix = (case hm_get ix (cl_key leg) of
      None \<Rightarrow> ix
    | Some txs \<Rightarrow>
        let txs' = filter (\<lambda>tx. tx \<noteq> cl_tx leg) txs
        in if txs' = [] then hm_remove (cl_key leg) ix else hm_insert (cl_key leg) txs' ix)"

definition candidates_for :: "leg_buffer \<Rightarrow> address \<Rightarrow> candidate_leg list" where
  "candidates_for b key = (case hm_get (lb_by_key b) key of
      None \<Rightarrow> []
    | Some txs \<Rightarrow> List.map_filter (\<lambda>tx. find (\<lambda>leg. cl_tx leg = tx) (lb_legs b)) txs)"

text \<open>The \<open>while\<close> loop of \<open>evict_expired\<close> over the deque: what goes, what stays, and the index.\<close>

fun evict_legs :: "int \<Rightarrow> int \<Rightarrow> candidate_leg list \<Rightarrow> key_index \<Rightarrow> candidate_leg list \<times> candidate_leg list \<times> key_index" where
  "evict_legs window now [] ix = ([], [], ix)"
| "evict_legs window now (leg # legs) ix =
     (if window < now - cl_observed_at leg
      then (let (evicted, kept, ix') = evict_legs window now legs (deindex leg ix) in (leg # evicted, kept, ix'))
      else (let (evicted, kept, ix') = evict_legs window now legs ix in (evicted, leg # kept, ix')))"

definition evict_expired :: "int \<Rightarrow> leg_buffer \<Rightarrow> candidate_leg list \<times> leg_buffer" where
  "evict_expired now b =
     (let (evicted, kept, ix) = evict_legs (lb_window b) now (lb_legs b) (lb_by_key b)
      in (evicted, b\<lparr>lb_legs := kept, lb_by_key := ix\<rparr>))"

record insert_outcome =
  io_window_evicted :: "candidate_leg list"
  io_capacity_evicted :: "candidate_leg option"

definition drop_oldest :: "leg_buffer \<Rightarrow> candidate_leg option \<times> leg_buffer" where
  "drop_oldest b =
     (if lb_capacity b \<le> length (lb_legs b)
      then (case lb_legs b of
          [] \<Rightarrow> (None, b)
        | dropped # rest \<Rightarrow> (Some dropped, b\<lparr>lb_legs := rest, lb_by_key := deindex dropped (lb_by_key b)\<rparr>))
      else (None, b))"

definition push_leg :: "candidate_leg \<Rightarrow> leg_buffer \<Rightarrow> leg_buffer" where
  "push_leg leg b = b\<lparr>lb_legs := lb_legs b @ [leg], lb_by_key := index_insert leg (lb_by_key b)\<rparr>"

definition buffer_insert :: "candidate_leg \<Rightarrow> int \<Rightarrow> leg_buffer \<Rightarrow> insert_outcome \<times> leg_buffer" where
  "buffer_insert leg now b =
     (let (window_evicted, b1) = evict_expired now b;
          (capacity_evicted, b2) = drop_oldest b1
      in (\<lparr>io_window_evicted = window_evicted, io_capacity_evicted = capacity_evicted\<rparr>, push_leg leg b2))"

fun remove_first :: "b256 \<Rightarrow> candidate_leg list \<Rightarrow> (candidate_leg \<times> candidate_leg list) option" where
  "remove_first tx [] = None"
| "remove_first tx (leg # legs) =
     (if cl_tx leg = tx then Some (leg, legs)
      else (case remove_first tx legs of None \<Rightarrow> None | Some (removed, rest) \<Rightarrow> Some (removed, leg # rest)))"

definition buffer_remove :: "b256 \<Rightarrow> leg_buffer \<Rightarrow> (candidate_leg \<times> leg_buffer) option" where
  "buffer_remove tx b = (case remove_first tx (lb_legs b) of
      None \<Rightarrow> None
    | Some (removed, rest) \<Rightarrow> Some (removed, b\<lparr>lb_legs := rest, lb_by_key := deindex removed (lb_by_key b)\<rparr>))"

definition seed_leg :: "candidate_leg \<Rightarrow> leg_buffer \<Rightarrow> leg_buffer" where
  "seed_leg leg b = push_leg leg (snd (drop_oldest b))"

definition seed :: "candidate_leg list \<Rightarrow> leg_buffer \<Rightarrow> leg_buffer" where
  "seed legs b = fold seed_leg (sort_key cl_observed_at legs) b"

section \<open>The index and the legs\<close>

named_theorems leg_simps

definition indexed :: "key_index \<Rightarrow> address \<Rightarrow> b256 list" where
  "indexed ix k = (case hm_get ix k of None \<Rightarrow> [] | Some txs \<Rightarrow> txs)"

definition index_sound :: "candidate_leg list \<Rightarrow> key_index \<Rightarrow> bool" where
  "index_sound legs ix \<longleftrightarrow>
     (\<forall>k tx. count_list (indexed ix k) tx \<le> length (filter (\<lambda>l. cl_tx l = tx \<and> cl_key l = k) legs))"

definition index_exact :: "candidate_leg list \<Rightarrow> key_index \<Rightarrow> bool" where
  "index_exact legs ix \<longleftrightarrow> distinct (map cl_tx legs) \<and> (\<forall>k. indexed ix k = map cl_tx (filter (\<lambda>l. cl_key l = k) legs))"

definition buffer_inv :: "leg_buffer \<Rightarrow> bool" where
  "buffer_inv b \<longleftrightarrow> 1 \<le> lb_capacity b \<and> length (lb_legs b) \<le> lb_capacity b \<and> index_sound (lb_legs b) (lb_by_key b)"

definition buffer_exact :: "leg_buffer \<Rightarrow> bool" where
  "buffer_exact b \<longleftrightarrow> buffer_inv b \<and> index_exact (lb_legs b) (lb_by_key b)"

lemma indexed_Nil [leg_simps]: "indexed [] k = []"
  by (simp add: indexed_def)

lemma indexed_insert [leg_simps]:
  "indexed (index_insert leg ix) k = (if k = cl_key leg then indexed ix k @ [cl_tx leg] else indexed ix k)"
  by (simp add: indexed_def index_insert_def hm_get_insert)

lemma indexed_deindex [leg_simps]:
  "indexed (deindex leg ix) k =
     (if k = cl_key leg then filter (\<lambda>tx. tx \<noteq> cl_tx leg) (indexed ix k) else indexed ix k)"
  by (auto simp: indexed_def deindex_def Let_def hm_get_insert hm_get_remove split: option.splits)

lemma count_list_filter: "count_list (filter P xs) x = (if P x then count_list xs x else 0)"
  by (induction xs) auto

lemma index_sound_insert:
  assumes "index_sound legs ix"
  shows "index_sound (legs @ [leg]) (index_insert leg ix)"
  using assms by (auto simp: index_sound_def leg_simps count_list_append)

lemma index_sound_deindex:
  assumes "index_sound (us @ leg # ws) ix"
  shows "index_sound (us @ ws) (deindex leg ix)"
  unfolding index_sound_def
proof (intro allI)
  fix k tx
  from assms have
    "count_list (indexed ix k) tx \<le> length (filter (\<lambda>l. cl_tx l = tx \<and> cl_key l = k) (us @ leg # ws))"
    by (simp add: index_sound_def)
  then show "count_list (indexed (deindex leg ix) k) tx \<le> length (filter (\<lambda>l. cl_tx l = tx \<and> cl_key l = k) (us @ ws))"
    by (auto simp: leg_simps count_list_filter)
qed

lemma index_exact_insert:
  assumes "index_exact legs ix" "cl_tx leg \<notin> cl_tx ` set legs"
  shows "index_exact (legs @ [leg]) (index_insert leg ix)"
  using assms by (auto simp: index_exact_def leg_simps)

lemma index_exact_deindex:
  assumes "index_exact (us @ leg # ws) ix"
  shows "index_exact (us @ ws) (deindex leg ix)"
proof -
  from assms have other: "l \<in> set us \<union> set ws \<Longrightarrow> cl_tx l \<noteq> cl_tx leg" for l
    by (auto simp: index_exact_def) (metis imageI)+
  then have "filter (\<lambda>tx. tx \<noteq> cl_tx leg) (map cl_tx (filter P vs)) = map cl_tx (filter P vs)"
    if "vs \<in> {us, ws}" for P vs
    using that by (auto simp: filter_id_conv)
  with assms show ?thesis
    by (auto simp: index_exact_def leg_simps)
qed

lemma evict_legs_split:
  "evict_legs window now legs ix = (evicted, kept, ix') \<Longrightarrow>
     evicted = filter (\<lambda>l. window < now - cl_observed_at l) legs \<and>
     kept = filter (\<lambda>l. \<not> window < now - cl_observed_at l) legs"
  by (induction legs arbitrary: ix evicted kept) (auto split: if_splits prod.splits)

lemma evict_legs_keeps:
  assumes deindexed: "\<And>us leg ws ix. J (us @ leg # ws) ix \<Longrightarrow> J (us @ ws) (deindex leg ix)"
  shows "evict_legs window now legs ix = (evicted, kept, ix') \<Longrightarrow> J (us @ legs) ix \<Longrightarrow> J (us @ kept) ix'"
proof (induction legs arbitrary: us ix evicted kept)
  case (Cons leg legs)
  show ?case
  proof (cases "window < now - cl_observed_at leg")
    case True
    with Cons.prems(1) obtain ev where
      "evict_legs window now legs (deindex leg ix) = (ev, kept, ix')" by (auto split: prod.splits)
    then show ?thesis by (rule Cons.IH) (rule deindexed[OF Cons.prems(2)])
  next
    case False
    with Cons.prems(1) obtain kept1 where
      k: "evict_legs window now legs ix = (evicted, kept1, ix')" "kept = leg # kept1" by (auto split: prod.splits)
    from Cons.IH[OF k(1), of "us @ [leg]"] Cons.prems(2) k(2) show ?thesis by simp
  qed
qed simp

lemma evict_expired_legs [leg_simps]:
  "fst (evict_expired now b) = filter (\<lambda>l. lb_window b < now - cl_observed_at l) (lb_legs b)"
  "lb_legs (snd (evict_expired now b)) = filter (\<lambda>l. \<not> lb_window b < now - cl_observed_at l) (lb_legs b)"
  "lb_capacity (snd (evict_expired now b)) = lb_capacity b" "lb_window (snd (evict_expired now b)) = lb_window b"
  by (auto simp: evict_expired_def dest: evict_legs_split split: prod.splits)

lemma evict_expired_keeps:
  assumes "\<And>us leg ws ix. J (us @ leg # ws) ix \<Longrightarrow> J (us @ ws) (deindex leg ix)" "J (lb_legs b) (lb_by_key b)"
  shows "J (lb_legs (snd (evict_expired now b))) (lb_by_key (snd (evict_expired now b)))"
proof -
  obtain ev kept ix where e: "evict_legs (lb_window b) now (lb_legs b) (lb_by_key b) = (ev, kept, ix)"
    by (rule prod_cases3)
  from evict_legs_keeps[of J, OF assms(1) e, of "[]"] assms(2) e show ?thesis by (simp add: evict_expired_def)
qed

lemma drop_oldest_cases:
  "drop_oldest b = (None, b) \<and> (lb_legs b = [] \<or> length (lb_legs b) < lb_capacity b) \<or>
   (\<exists>d rest. lb_legs b = d # rest \<and> lb_capacity b \<le> length (lb_legs b) \<and>
      drop_oldest b = (Some d, b\<lparr>lb_legs := rest, lb_by_key := deindex d (lb_by_key b)\<rparr>))"
  by (auto simp: drop_oldest_def split: list.splits)

lemma drop_oldest_keeps:
  assumes "\<And>us leg ws ix. J (us @ leg # ws) ix \<Longrightarrow> J (us @ ws) (deindex leg ix)" "J (lb_legs b) (lb_by_key b)"
  shows "J (lb_legs (snd (drop_oldest b))) (lb_by_key (snd (drop_oldest b)))"
  using drop_oldest_cases[of b] assms(1)[of "[]"] assms(2) by auto

lemma drop_oldest_fields [leg_simps]:
  "lb_capacity (snd (drop_oldest b)) = lb_capacity b" "lb_window (snd (drop_oldest b)) = lb_window b"
  using drop_oldest_cases[of b] by auto

lemma drop_oldest_room:
  "1 \<le> lb_capacity b \<Longrightarrow> length (lb_legs b) \<le> lb_capacity b \<Longrightarrow> length (lb_legs (snd (drop_oldest b))) < lb_capacity b"
  using drop_oldest_cases[of b] by auto

lemma drop_oldest_subset: "set (lb_legs (snd (drop_oldest b))) \<subseteq> set (lb_legs b)"
  using drop_oldest_cases[of b] by auto

lemma push_leg_fields [leg_simps]:
  "lb_legs (push_leg leg b) = lb_legs b @ [leg]" "lb_by_key (push_leg leg b) = index_insert leg (lb_by_key b)"
  "lb_capacity (push_leg leg b) = lb_capacity b" "lb_window (push_leg leg b) = lb_window b"
  by (simp_all add: push_leg_def)

lemma buffer_insert_snd: "snd (buffer_insert leg now b) = push_leg leg (snd (drop_oldest (snd (evict_expired now b))))"
  by (simp add: buffer_insert_def split: prod.splits)

section \<open>Every operation keeps the invariants\<close>

lemma buffer_new_exact: "buffer_exact (buffer_new w c)"
  by (simp add: buffer_exact_def buffer_inv_def index_sound_def index_exact_def buffer_new_def leg_simps)

lemma evict_expired_inv: "buffer_inv b \<Longrightarrow> buffer_inv (snd (evict_expired now b))"
  using evict_expired_keeps[of index_sound b now, OF index_sound_deindex]
  by (auto simp: buffer_inv_def leg_simps intro: le_trans[OF length_filter_le])

lemma evict_expired_exact: "buffer_exact b \<Longrightarrow> buffer_exact (snd (evict_expired now b))"
  using evict_expired_keeps[of index_exact b now, OF index_exact_deindex] evict_expired_inv[of b now]
  by (simp add: buffer_exact_def)

lemma seed_leg_inv: "buffer_inv b \<Longrightarrow> buffer_inv (seed_leg leg b)"
  using drop_oldest_keeps[of index_sound b, OF index_sound_deindex] drop_oldest_room[of b]
  by (auto simp: buffer_inv_def seed_leg_def leg_simps intro: index_sound_insert)

lemma seed_leg_exact:
  assumes "buffer_exact b" "cl_tx leg \<notin> cl_tx ` set (lb_legs b)"
  shows "buffer_exact (seed_leg leg b)"
proof -
  have "cl_tx leg \<notin> cl_tx ` set (lb_legs (snd (drop_oldest b)))"
    using assms(2) drop_oldest_subset[of b] by blast
  with assms(1) drop_oldest_keeps[of index_exact b, OF index_exact_deindex] seed_leg_inv[of b leg] show ?thesis
    by (auto simp: buffer_exact_def seed_leg_def leg_simps intro: index_exact_insert)
qed

lemma buffer_insert_seed: "snd (buffer_insert leg now b) = seed_leg leg (snd (evict_expired now b))"
  by (simp add: buffer_insert_snd seed_leg_def)

lemma buffer_insert_inv: "buffer_inv b \<Longrightarrow> buffer_inv (snd (buffer_insert leg now b))"
  unfolding buffer_insert_seed by (intro seed_leg_inv evict_expired_inv)

lemma buffer_insert_exact:
  assumes "buffer_exact b" "cl_tx leg \<notin> cl_tx ` set (lb_legs b)"
  shows "buffer_exact (snd (buffer_insert leg now b))"
  unfolding buffer_insert_seed
  by (rule seed_leg_exact[OF evict_expired_exact[OF assms(1)]]) (use assms(2) in \<open>auto simp: leg_simps\<close>)

lemma remove_first_split:
  "remove_first tx legs = Some (leg, rest) \<longleftrightarrow>
     (\<exists>us ws. legs = us @ leg # ws \<and> rest = us @ ws \<and> cl_tx leg = tx \<and> (\<forall>u\<in>set us. cl_tx u \<noteq> tx))"
proof (induction legs arbitrary: rest)
  case (Cons l legs)
  show ?case
  proof (cases "cl_tx l = tx")
    case True
    have "us = []" if "l # legs = us @ leg # ws" "\<forall>u\<in>set us. cl_tx u \<noteq> tx" for us ws
      using that True by (cases us) auto
    with True show ?thesis by fastforce
  next
    case False
    have "remove_first tx (l # legs) = Some (leg, rest) \<longleftrightarrow>
        (\<exists>r. rest = l # r \<and> remove_first tx legs = Some (leg, r))"
      using False by (auto split: option.splits)
    also have "\<dots> \<longleftrightarrow> (\<exists>us ws. l # legs = us @ leg # ws \<and> rest = us @ ws \<and> cl_tx leg = tx \<and> (\<forall>u\<in>set us. cl_tx u \<noteq> tx))"
      (is "?l \<longleftrightarrow> ?r")
    proof
      assume ?l
      with Cons.IH obtain r us ws where "rest = l # r" "legs = us @ leg # ws" "r = us @ ws" "cl_tx leg = tx"
        "\<forall>u\<in>set us. cl_tx u \<noteq> tx" by blast
      with False have "l # legs = (l # us) @ leg # ws \<and> rest = (l # us) @ ws \<and> cl_tx leg = tx \<and>
        (\<forall>u\<in>set (l # us). cl_tx u \<noteq> tx)" by simp
      then show ?r by blast
    next
      assume ?r
      then obtain us ws where r: "l # legs = us @ leg # ws" "rest = us @ ws" "cl_tx leg = tx" "\<forall>u\<in>set us. cl_tx u \<noteq> tx"
        by blast
      with False obtain us' where "us = l # us'" by (cases us) auto
      with r Cons.IH show ?l by auto
    qed
    finally show ?thesis .
  qed
qed simp

lemma remove_first_None: "remove_first tx legs = None \<longleftrightarrow> (\<forall>l\<in>set legs. cl_tx l \<noteq> tx)"
  by (induction legs) (auto split: option.splits)

lemma buffer_remove_split:
  assumes "buffer_remove tx b = Some (leg, b')"
  obtains us ws where "lb_legs b = us @ leg # ws" "lb_legs b' = us @ ws" "cl_tx leg = tx" "\<forall>u\<in>set us. cl_tx u \<noteq> tx"
    "lb_by_key b' = deindex leg (lb_by_key b)" "lb_capacity b' = lb_capacity b" "lb_window b' = lb_window b"
  using assms by (auto simp: buffer_remove_def remove_first_split split: option.splits)

lemma buffer_remove_inv: "buffer_inv b \<Longrightarrow> buffer_remove tx b = Some (leg, b') \<Longrightarrow> buffer_inv b'"
  by (erule buffer_remove_split) (auto simp: buffer_inv_def intro: index_sound_deindex)

lemma buffer_remove_exact: "buffer_exact b \<Longrightarrow> buffer_remove tx b = Some (leg, b') \<Longrightarrow> buffer_exact b'"
  using buffer_remove_inv[of b tx leg b'] index_exact_deindex
  by (auto simp: buffer_exact_def elim!: buffer_remove_split)

lemma buffer_remove_None: "buffer_remove tx b = None \<longleftrightarrow> (\<forall>l\<in>set (lb_legs b). cl_tx l \<noteq> tx)"
  by (auto simp: buffer_remove_def remove_first_None[symmetric] split: option.splits)

section \<open>Runs of a buffer\<close>

datatype buffer_op = Insert candidate_leg int | Consume b256 | Expire int | Restore "candidate_leg list"

fun buffer_step :: "buffer_op \<Rightarrow> leg_buffer \<Rightarrow> leg_buffer" where
  "buffer_step (Insert leg now) b = snd (buffer_insert leg now b)"
| "buffer_step (Consume tx) b = (case buffer_remove tx b of None \<Rightarrow> b | Some (leg, b') \<Rightarrow> b')"
| "buffer_step (Expire now) b = snd (evict_expired now b)"
| "buffer_step (Restore legs) b = seed legs b"

text \<open>What enters has a transaction of its own.\<close>

fun fresh_txs :: "buffer_op \<Rightarrow> leg_buffer \<Rightarrow> bool" where
  "fresh_txs (Insert leg now) b \<longleftrightarrow> cl_tx leg \<notin> cl_tx ` set (lb_legs b)"
| "fresh_txs (Restore legs) b \<longleftrightarrow> distinct (map cl_tx (lb_legs b @ legs))"
| "fresh_txs _ b \<longleftrightarrow> True"

fun fresh_run :: "buffer_op list \<Rightarrow> leg_buffer \<Rightarrow> bool" where
  "fresh_run [] b \<longleftrightarrow> True"
| "fresh_run (x # xs) b \<longleftrightarrow> fresh_txs x b \<and> fresh_run xs (buffer_step x b)"

lemma seed_leg_subset: "set (lb_legs (seed_leg leg b)) \<subseteq> insert leg (set (lb_legs b))"
  using drop_oldest_subset[of b] by (auto simp: seed_leg_def leg_simps)

lemma seed_legs_inv: "buffer_inv b \<Longrightarrow> buffer_inv (fold seed_leg legs b)"
  by (induction legs arbitrary: b) (simp_all add: seed_leg_inv)

lemma seed_legs_exact:
  "buffer_exact b \<Longrightarrow> distinct (map cl_tx legs) \<Longrightarrow> cl_tx ` set legs \<inter> cl_tx ` set (lb_legs b) = {} \<Longrightarrow>
     buffer_exact (fold seed_leg legs b)"
proof (induction legs arbitrary: b)
  case (Cons leg legs)
  have "buffer_exact (seed_leg leg b)" by (rule seed_leg_exact) (use Cons.prems in auto)
  moreover have "cl_tx ` set legs \<inter> cl_tx ` set (lb_legs (seed_leg leg b)) = {}"
  proof -
    have "cl_tx ` set (lb_legs (seed_leg leg b)) \<subseteq> insert (cl_tx leg) (cl_tx ` set (lb_legs b))"
      using image_mono[OF seed_leg_subset[of leg b], of cl_tx] by simp
    then have "cl_tx ` set legs \<inter> cl_tx ` set (lb_legs (seed_leg leg b)) \<subseteq>
        cl_tx ` set legs \<inter> insert (cl_tx leg) (cl_tx ` set (lb_legs b))"
      by (rule Int_mono[OF order_refl])
    moreover have "cl_tx leg \<notin> cl_tx ` set legs" "cl_tx ` set legs \<inter> cl_tx ` set (lb_legs b) = {}"
      using Cons.prems(2,3) by simp_all
    ultimately show ?thesis by (simp add: Int_insert_right)
  qed
  ultimately show ?case using Cons.IH Cons.prems(2) by simp
qed simp

lemma seed_inv: "buffer_inv b \<Longrightarrow> buffer_inv (seed legs b)"
  by (simp add: seed_def seed_legs_inv)

lemma distinct_map_sort_key: "distinct (map f (sort_key g xs)) \<longleftrightarrow> distinct (map f xs)"
  by (simp add: distinct_map)

lemma seed_exact: "buffer_exact b \<Longrightarrow> distinct (map cl_tx (lb_legs b @ legs)) \<Longrightarrow> buffer_exact (seed legs b)"
  unfolding seed_def by (rule seed_legs_exact) (auto simp: distinct_map_sort_key simp del: distinct_map)

lemma buffer_step_inv: "buffer_inv b \<Longrightarrow> buffer_inv (buffer_step x b)"
  by (cases x) (auto simp: buffer_insert_inv evict_expired_inv seed_inv buffer_remove_inv split: option.splits)

lemma buffer_step_exact: "buffer_exact b \<Longrightarrow> fresh_txs x b \<Longrightarrow> buffer_exact (buffer_step x b)"
proof (cases x)
  case (Restore legs)
  assume "buffer_exact b" "fresh_txs x b"
  with Restore show ?thesis using seed_exact[of b legs] by simp
qed (auto simp: buffer_insert_exact evict_expired_exact buffer_remove_exact split: option.splits)

lemma buffer_run_exact: "buffer_exact b \<Longrightarrow> fresh_run xs b \<Longrightarrow> buffer_exact (fold buffer_step xs b)"
  by (induction xs arbitrary: b) (auto simp: buffer_step_exact)

lemma buffer_run_inv: "buffer_inv b \<Longrightarrow> buffer_inv (fold buffer_step xs b)"
  by (induction xs arbitrary: b) (auto simp: buffer_step_inv)

lemma buffer_step_capacity: "lb_capacity (buffer_step x b) = lb_capacity b"
proof -
  have "lb_capacity (fold seed_leg legs b) = lb_capacity b" for legs b
    by (induction legs arbitrary: b) (auto simp: seed_leg_def leg_simps)
  then show ?thesis
    by (cases x) (auto simp: buffer_insert_snd leg_simps seed_def elim: buffer_remove_split split: option.splits)
qed

lemma buffer_run_capacity: "lb_capacity (fold buffer_step xs b) = lb_capacity b"
  by (induction xs arbitrary: b) (auto simp: buffer_step_capacity)

lemma find_tx: "distinct (map cl_tx legs) \<Longrightarrow> l \<in> set legs \<Longrightarrow> find (\<lambda>leg. cl_tx leg = cl_tx l) legs = Some l"
  by (induction legs) auto

lemma candidates_exact:
  assumes "index_exact (lb_legs b) (lb_by_key b)"
  shows "candidates_for b key = filter (\<lambda>l. cl_key l = key) (lb_legs b)"
proof -
  have "candidates_for b key = List.map_filter (\<lambda>tx. find (\<lambda>leg. cl_tx leg = tx) (lb_legs b)) (indexed (lb_by_key b) key)"
    by (simp add: candidates_for_def indexed_def map_filter_simps split: option.splits)
  also have "indexed (lb_by_key b) key = map cl_tx (filter (\<lambda>l. cl_key l = key) (lb_legs b))"
    using assms by (simp add: index_exact_def)
  also have "List.map_filter (\<lambda>tx. find (\<lambda>leg. cl_tx leg = tx) (lb_legs b)) (map cl_tx ls) = ls"
    if "set ls \<subseteq> set (lb_legs b)" for ls
    using that assms by (induction ls) (auto simp: map_filter_simps find_tx index_exact_def)
  ultimately show ?thesis by auto
qed

text \<open>
  An indexed lookup is the scan of the whole buffer it replaces, and the buffer never exceeds its
  capacity, in every state reached by inserts, matches, expiry and restores in which each arriving
  leg has a transaction that no buffered leg has.
\<close>

theorem indexed_lookup_is_scan:
  assumes "fresh_run xs (buffer_new window n)"
  shows "candidates_for (fold buffer_step xs (buffer_new window n)) key =
      filter (\<lambda>l. cl_key l = key) (lb_legs (fold buffer_step xs (buffer_new window n)))
    \<and> length (lb_legs (fold buffer_step xs (buffer_new window n))) \<le> max n 1"
proof -
  let ?b = "fold buffer_step xs (buffer_new window n)"
  have "buffer_exact ?b" using buffer_run_exact[OF buffer_new_exact assms] .
  moreover have "lb_capacity ?b = max n 1" by (simp add: buffer_run_capacity buffer_new_def)
  ultimately show ?thesis
    using candidates_exact[of ?b key] by (simp add: buffer_exact_def buffer_inv_def)
qed

text \<open>
  Legs are identified by transaction alone. When one transaction contributes two legs with different
  correlation keys, a lookup under the second key returns the first leg, whose key is another.
\<close>

theorem shared_tx_returns_wrong_leg:
  assumes "cl_tx a = cl_tx d" "cl_key a \<noteq> cl_key d" "2 \<le> n" "now - cl_observed_at a \<le> window"
  shows "candidates_for (snd (buffer_insert d now (snd (buffer_insert a now (buffer_new window n))))) (cl_key d) = [a]"
proof -
  let ?b = "push_leg a (buffer_new window n)"
  have 1: "snd (buffer_insert a now (buffer_new window n)) = ?b"
    using assms(3) by (simp add: buffer_insert_snd evict_expired_def drop_oldest_def buffer_new_def)
  have "snd (buffer_insert d now ?b) = push_leg d ?b"
    using assms(3,4) by (simp add: buffer_insert_snd evict_expired_def drop_oldest_def buffer_new_def push_leg_def)
  with 1 have "snd (buffer_insert d now (snd (buffer_insert a now (buffer_new window n)))) = push_leg d ?b" by simp
  then show ?thesis
    using assms(1,2) by (simp add: candidates_for_def push_leg_def buffer_new_def index_insert_def map_filter_simps)
qed

text \<open>Every bridge or pair belongs to exactly one replica of a sharded deployment.\<close>

theorem one_owner:
  assumes "1 < n"
  shows "\<exists>i<n. \<forall>j. owned_by hasher b j n \<longleftrightarrow> j = i"
proof (intro exI conjI allI)
  let ?i = "ucast (hasher b mod ucast n) :: u32"
  have n: "unat (ucast n :: u64) = unat n"
  proof -
    have "unat n < 2 ^ LENGTH(32)" by (rule unsigned_less)
    then show ?thesis by (simp add: unsigned_ucast_eq take_bit_nat_eq_self)
  qed
  have m: "unat (hasher b mod ucast n) < unat n"
    using assms by (simp add: unat_mod n word_less_nat_alt)
  then have "unat (hasher b mod ucast n) < 2 ^ LENGTH(32)"
    by (rule less_trans) (rule unsigned_less)
  then have "unat ?i = unat (hasher b mod ucast n)" by (simp add: unsigned_ucast_eq take_bit_nat_eq_self)
  with m show "?i < n" by (simp add: word_less_nat_alt)
  show "owned_by hasher b j n \<longleftrightarrow> j = ?i" for j
    using assms by (auto simp: owned_by_def)
qed

section \<open>Concrete runs\<close>

definition ex_leg :: "u64 \<Rightarrow> b256 \<Rightarrow> leg_kind \<Rightarrow> address \<Rightarrow> int \<Rightarrow> candidate_leg" where
  "ex_leg chain tx kind key at_time = \<lparr>cl_chain = chain, cl_block = \<lparr>br_number = 100, br_hash = tx\<rparr>, cl_tx = tx, cl_kind = kind,
     cl_bridge = ''usdc'', cl_key = key, cl_observed_at = at_time, cl_confidence = Fin 1, cl_impact = None\<rparr>"

lemmas buffer_eval = buffer_insert_def evict_expired_def drop_oldest_def push_leg_def buffer_new_def index_insert_def
  deindex_def candidates_for_def map_filter_simps ex_leg_def

theorem indexed_lookup_is_scan_witness:
  "candidates_for (fold buffer_step [Insert (ex_leg 1 7 BridgeDeposit 5 0) 0, Insert (ex_leg 1 8 LargeSwap 6 10) 10,
     Insert (ex_leg 10 9 LargeSwap 5 20) 20] (buffer_new 600 2)) 5 = [ex_leg 10 9 LargeSwap 5 20]"
proof -
  let ?xs = "[Insert (ex_leg 1 7 BridgeDeposit 5 0) 0, Insert (ex_leg 1 8 LargeSwap 6 10) 10,
     Insert (ex_leg 10 9 LargeSwap 5 20) 20]"
  have "fresh_run ?xs (buffer_new 600 2)" by (simp add: buffer_eval)
  then have "candidates_for (fold buffer_step ?xs (buffer_new 600 2)) 5 =
      filter (\<lambda>l. cl_key l = 5) (lb_legs (fold buffer_step ?xs (buffer_new 600 2)))"
    by (rule indexed_lookup_is_scan[THEN conjunct1])
  also have "\<dots> = [ex_leg 10 9 LargeSwap 5 20]" by (simp add: buffer_eval)
  finally show ?thesis .
qed

theorem shared_tx_returns_wrong_leg_witness:
  "candidates_for (snd (buffer_insert (ex_leg 1 7 LargeSwap 6 0) 0 (snd (buffer_insert (ex_leg 1 7 BridgeDeposit 5 0) 0
     (buffer_new 600 10))))) 6 = [ex_leg 1 7 BridgeDeposit 5 0]"
  using shared_tx_returns_wrong_leg[of "ex_leg 1 7 BridgeDeposit 5 0" "ex_leg 1 7 LargeSwap 6 0" 10 0 600]
  by (simp add: ex_leg_def)

theorem one_owner_witness: "\<exists>i<3. \<forall>j. owned_by (\<lambda>b. of_nat (length b)) ''usdc'' j 3 \<longleftrightarrow> j = i"
  by (rule one_owner) simp

end

