(* ===== verification/Event_Sourcing.thy ===== *)
theory Event_Sourcing
  imports Prelude
begin

text \<open>
  The contract of an event-sourced component, which the two changelogs of the cross-chain correlator
  share (\<open>crates/cross-chain-correlator/src/changelog.rs\<close> and \<open>finding_changelog.rs\<close>): a live
  operation yields the next state together with the journal entries it appends, and a boot folds the
  journal into a fresh state. What a provider promises is that one operation keeps the live and the
  replayed state related; what a client gets is the same for a whole run.
\<close>

text \<open>A run of live operations with everything it journals; \<open>None\<close> is a panic.\<close>

fun run_live :: "('s \<Rightarrow> 'c \<Rightarrow> ('s \<times> 'e list) option) \<Rightarrow> 's \<Rightarrow> 'c list \<Rightarrow> ('s \<times> 'e list) option" where
  "run_live step s [] = Some (s, [])"
| "run_live step s (c # cs) = do {
     (s', es) \<leftarrow> step s c;
     (s'', es') \<leftarrow> run_live step s' cs;
     Some (s'', es @ es')
   }"

text \<open>Every operation of a run starts from a state that meets its precondition.\<close>

fun run_ok :: "('s \<Rightarrow> 'c \<Rightarrow> ('s \<times> 'e list) option) \<Rightarrow> ('s \<Rightarrow> 'c \<Rightarrow> bool) \<Rightarrow> 's \<Rightarrow> 'c list \<Rightarrow> bool" where
  "run_ok step ok s [] \<longleftrightarrow> True"
| "run_ok step ok s (c # cs) \<longleftrightarrow> ok s c \<and> (case step s c of None \<Rightarrow> True | Some (s', es) \<Rightarrow> run_ok step ok s' cs)"

locale event_sourced =
  fixes step :: "'s \<Rightarrow> 'c \<Rightarrow> ('s \<times> 'e list) option"
    and replay :: "'e \<Rightarrow> 'r \<Rightarrow> 'r"
    and agrees :: "'s \<Rightarrow> 'r \<Rightarrow> bool"
    and ok :: "'s \<Rightarrow> 'c \<Rightarrow> bool"
  assumes step_agrees:
    "agrees s r \<Longrightarrow> ok s c \<Longrightarrow> \<exists>s' es. step s c = Some (s', es) \<and> agrees s' (fold replay es r)"
begin

lemma run_agrees:
  "agrees s r \<Longrightarrow> run_ok step ok s cs \<Longrightarrow>
     \<exists>s' es. run_live step s cs = Some (s', es) \<and> agrees s' (fold replay es r)"
proof (induction cs arbitrary: s r)
  case (Cons c cs)
  from Cons.prems have "ok s c" by simp
  with step_agrees[OF Cons.prems(1)] obtain s1 es1
    where 1: "step s c = Some (s1, es1)" "agrees s1 (fold replay es1 r)" by blast
  with Cons.prems(2) have "run_ok step ok s1 cs" by simp
  with Cons.IH[OF 1(2)] obtain s2 es2
    where "run_live step s1 cs = Some (s2, es2)" "agrees s2 (fold replay es2 (fold replay es1 r))" by blast
  with 1(1) show ?case by simp
qed simp

end

end
