(* ===== verification/Leg_Join.thy ===== *)
theory Leg_Join
  imports Leg_Buffer Event_Sourcing
begin

text \<open>
  The windowed join and the correlation actor around it (\<open>crates/cross-chain-correlator/src/join.rs\<close>,
  \<open>actor.rs\<close>, \<open>changelog.rs\<close>, \<open>router.rs\<close>, \<open>chain_consumer.rs\<close>). An arriving leg either completes a
  finding with legs of other chains that share its correlation key, which are then consumed, or is
  buffered. Every buffer mutation is journalled before a finding is published, and the finding's legs
  are handed to the finality tracker in between; a boot replays the journal.

  Panics (\<open>expect\<close> in the join) are the value \<open>None\<close>. Instants, fresh identifiers and the answers of
  the bus are inputs. Metrics and logging are left out.
\<close>

section \<open>Findings\<close>

record leg_ref =
  lr_chain :: u64
  lr_block :: block_ref
  lr_tx :: b256

record bridge_mev =
  bm_finding_id :: uuid
  bm_bridge :: string
  bm_deposit_leg :: leg_ref
  bm_fill_leg :: leg_ref
  bm_entity_hint :: address
  bm_profit :: f64
  bm_victim_loss :: f64
  bm_confidence :: confidence
  bm_severity :: severity
  bm_provisional :: bool

record cross_chain_mev =
  cm_finding_id :: uuid
  cm_kind :: alert_kind
  cm_bridge :: string
  cm_legs :: "leg_ref list"
  cm_entity_hint :: address
  cm_profit :: f64
  cm_latency_ms :: nat
  cm_confidence :: confidence
  cm_severity :: severity
  cm_provisional :: bool

definition leg_ref_of :: "candidate_leg \<Rightarrow> leg_ref" where
  "leg_ref_of leg = \<lparr>lr_chain = cl_chain leg, lr_block = cl_block leg, lr_tx = cl_tx leg\<rparr>"

definition impact :: "candidate_leg \<Rightarrow> f64" where
  "impact leg = (case cl_impact leg of None \<Rightarrow> Fin 0 | Some u \<Rightarrow> u)"

fun is_complementary :: "leg_kind \<Rightarrow> leg_kind \<Rightarrow> bool" where
  "is_complementary BridgeDeposit LargeSwap = True"
| "is_complementary LargeSwap BridgeDeposit = True"
| "is_complementary _ _ = False"

definition min_confidence :: "confidence list \<Rightarrow> confidence" where
  "min_confidence cs = fold (\<lambda>c acc. if f_lt c acc then c else acc) cs confidence_certain"

definition build_bridge_mev :: "uuid \<Rightarrow> candidate_leg \<Rightarrow> candidate_leg \<Rightarrow> bridge_mev" where
  "build_bridge_mev i a b =
     (let (deposit, fill) = (if cl_kind a = BridgeDeposit then (a, b) else (b, a));
          confidence = min_confidence [cl_confidence deposit, cl_confidence fill];
          profit = impact fill;
          victim_loss = impact deposit;
          severity = severity_band (Some (usd_amount_new (f_max profit victim_loss))) confidence
      in \<lparr>bm_finding_id = i, bm_bridge = cl_bridge deposit, bm_deposit_leg = leg_ref_of deposit,
          bm_fill_leg = leg_ref_of fill, bm_entity_hint = cl_key deposit, bm_profit = profit,
          bm_victim_loss = victim_loss, bm_confidence = confidence, bm_severity = severity, bm_provisional = True\<rparr>)"

definition build_cross_chain_mev :: "uuid \<Rightarrow> candidate_leg list \<Rightarrow> cross_chain_mev" where
  "build_cross_chain_mev i unsorted =
     (let legs = sort_key cl_observed_at unsorted;
          confidence = min_confidence (map cl_confidence legs);
          profit = fold (\<lambda>x acc. f_add acc x) (map impact legs) (Fin 0);
          latency_ms = (if legs = [] then 0
            else nat ((cl_observed_at (last legs) - cl_observed_at (hd legs)) div 1000000));
          severity = severity_band (Some (usd_amount_new profit)) confidence
      in \<lparr>cm_finding_id = i, cm_kind = Arbitrage, cm_bridge = cl_bridge (hd legs), cm_legs = map leg_ref_of legs,
          cm_entity_hint = cl_key (hd legs), cm_profit = profit, cm_latency_ms = latency_ms,
          cm_confidence = confidence, cm_severity = severity, cm_provisional = True\<rparr>)"

section \<open>The join\<close>

datatype match_decision = BridgeMatch b256 | CrossChainMatch "b256 list"

definition bridge_decide :: "leg_buffer \<Rightarrow> candidate_leg \<Rightarrow> match_decision option" where
  "bridge_decide b new_leg =
     map_option (\<lambda>other. BridgeMatch (cl_tx other))
       (find (\<lambda>other. cl_chain other \<noteq> cl_chain new_leg \<and> is_complementary (cl_kind other) (cl_kind new_leg))
         (candidates_for b (cl_key new_leg)))"

definition arb_decide :: "leg_buffer \<Rightarrow> candidate_leg \<Rightarrow> match_decision option" where
  "arb_decide b new_leg =
     (if cl_kind new_leg \<noteq> LargeSwap then None
      else let txs = map cl_tx (filter (\<lambda>other. cl_chain other \<noteq> cl_chain new_leg \<and> cl_kind other = LargeSwap)
                 (candidates_for b (cl_key new_leg)))
        in if txs \<noteq> [] then Some (CrossChainMatch txs) else None)"

definition strategies :: "(leg_buffer \<Rightarrow> candidate_leg \<Rightarrow> match_decision option) list" where
  "strategies = [bridge_decide, arb_decide]"

datatype join_outcome =
    Unmatched candidate_leg
  | JoinedBridge bridge_mev b256
  | JoinedChain cross_chain_mev "b256 list"

fun remove_each :: "b256 list \<Rightarrow> leg_buffer \<Rightarrow> (candidate_leg list \<times> leg_buffer) option" where
  "remove_each [] b = Some ([], b)"
| "remove_each (tx # txs) b = do {
     (leg, b') \<leftarrow> buffer_remove tx b;
     (legs, b'') \<leftarrow> remove_each txs b';
     Some (leg # legs, b'')
   }"

fun apply_decision :: "uuid \<Rightarrow> leg_buffer \<Rightarrow> candidate_leg \<Rightarrow> match_decision \<Rightarrow> (join_outcome \<times> leg_buffer) option" where
  "apply_decision i b new_leg (BridgeMatch other_tx) = do {
     (other, b') \<leftarrow> buffer_remove other_tx b;
     Some (JoinedBridge (build_bridge_mev i new_leg other) other_tx, b')
   }"
| "apply_decision i b new_leg (CrossChainMatch other_txs) = do {
     (legs, b') \<leftarrow> remove_each other_txs b;
     Some (JoinedChain (build_cross_chain_mev i (legs @ [new_leg])) other_txs, b')
   }"

fun try_strategies ::
  "(leg_buffer \<Rightarrow> candidate_leg \<Rightarrow> match_decision option) list \<Rightarrow> uuid \<Rightarrow> leg_buffer \<Rightarrow> candidate_leg
    \<Rightarrow> (join_outcome \<times> leg_buffer) option" where
  "try_strategies [] i b new_leg = Some (Unmatched new_leg, b)"
| "try_strategies (s # ss) i b new_leg = (case s b new_leg of
      Some decision \<Rightarrow> apply_decision i b new_leg decision
    | None \<Rightarrow> try_strategies ss i b new_leg)"

definition join_leg :: "uuid \<Rightarrow> leg_buffer \<Rightarrow> candidate_leg \<Rightarrow> (join_outcome \<times> leg_buffer) option" where
  "join_leg i b new_leg = try_strategies strategies i b new_leg"

section \<open>The changelog of the buffer\<close>

datatype changelog_entry = Buffered candidate_leg | Removed bridge_or_pair b256

fun entry_bridge :: "changelog_entry \<Rightarrow> bridge_or_pair" where
  "entry_bridge (Buffered leg) = cl_bridge leg"
| "entry_bridge (Removed b tx) = b"

type_synonym replayed = "(bridge_or_pair \<times> candidate_leg list) list"

fun apply_entry :: "changelog_entry \<Rightarrow> replayed \<Rightarrow> replayed" where
  "apply_entry (Buffered leg) st =
     hm_insert (cl_bridge leg) ((case hm_get st (cl_bridge leg) of None \<Rightarrow> [] | Some legs \<Rightarrow> legs) @ [leg]) st"
| "apply_entry (Removed b tx) st = (case hm_get st b of
      None \<Rightarrow> st
    | Some legs \<Rightarrow> hm_insert b (filter (\<lambda>leg. cl_tx leg \<noteq> tx) legs) st)"

text \<open>The loop of \<open>replay\<close> over the readable records of the topic.\<close>

definition changelog_replay :: "changelog_entry list \<Rightarrow> replayed" where
  "changelog_replay journal = fold apply_entry journal []"

section \<open>The correlation actor\<close>

record actor =
  ac_bridge :: bridge_or_pair
  ac_buffer :: leg_buffer

definition actor_new_with_seed :: "int \<Rightarrow> bridge_or_pair \<Rightarrow> int \<Rightarrow> nat \<Rightarrow> candidate_leg list \<Rightarrow> actor" where
  "actor_new_with_seed now b window capacity legs =
     \<lparr>ac_bridge = b, ac_buffer = snd (evict_expired now (seed legs (buffer_new window capacity)))\<rparr>"

definition actor_new :: "int \<Rightarrow> bridge_or_pair \<Rightarrow> int \<Rightarrow> nat \<Rightarrow> actor" where
  "actor_new now b window capacity = actor_new_with_seed now b window capacity []"

datatype finding = BridgeFinding bridge_mev | ChainFinding cross_chain_mev

definition on_leg :: "uuid \<Rightarrow> int \<Rightarrow> candidate_leg \<Rightarrow> actor \<Rightarrow> ((changelog_entry list \<times> finding option) \<times> actor) option" where
  "on_leg i now leg a = do {
     (outcome, b) \<leftarrow> join_leg i (ac_buffer a) leg;
     Some (case outcome of
        Unmatched leg \<Rightarrow>
          (let (io, b') = buffer_insert leg now b
           in ((Buffered leg # map (\<lambda>l. Removed (ac_bridge a) (cl_tx l)) (io_window_evicted io)
                 @ (case io_capacity_evicted io of None \<Rightarrow> [] | Some d \<Rightarrow> [Removed (ac_bridge a) (cl_tx d)]), None),
               a\<lparr>ac_buffer := b'\<rparr>))
      | JoinedBridge ev tx \<Rightarrow> (([Removed (ac_bridge a) tx], Some (BridgeFinding ev)), a\<lparr>ac_buffer := b\<rparr>)
      | JoinedChain ev txs \<Rightarrow> ((map (Removed (ac_bridge a)) txs, Some (ChainFinding ev)), a\<lparr>ac_buffer := b\<rparr>))
   }"

type_synonym leg_key = "u64 \<times> b256"

datatype finding_kind = BridgeMev | CrossChainMev

fun envelope_chain :: "finding \<Rightarrow> u64" where
  "envelope_chain (BridgeFinding e) = lr_chain (bm_fill_leg e)"
| "envelope_chain (ChainFinding e) = lr_chain (last (cm_legs e))"

definition leg_key_of :: "leg_ref \<Rightarrow> leg_key" where
  "leg_key_of r = (lr_chain r, br_hash (lr_block r))"

fun finding_record_args :: "finding \<Rightarrow> uuid \<times> leg_key list \<times> finding_kind" where
  "finding_record_args (BridgeFinding e) =
     (bm_finding_id e, [leg_key_of (bm_deposit_leg e), leg_key_of (bm_fill_leg e)], BridgeMev)"
| "finding_record_args (ChainFinding e) = (cm_finding_id e, map leg_key_of (cm_legs e), CrossChainMev)"

text \<open>What one turn of the actor's loop is fed: a leg and the answers of the clock, the generator and the bus.\<close>

record leg_input =
  li_leg :: candidate_leg
  li_finding_id :: uuid
  li_now :: int
  li_tracked_at :: int
  li_delivered :: bool

datatype actor_out =
    Appended changelog_entry
  | Tracked uuid bridge_or_pair finding_kind "leg_key list" int
  | Published u64 finding

text \<open>The part of a turn that follows the journal: the tracker is told, then the finding is published.\<close>

definition announce :: "bridge_or_pair \<Rightarrow> leg_input \<Rightarrow> finding option \<Rightarrow> actor_out list" where
  "announce b li fnd = (case fnd of
      None \<Rightarrow> []
    | Some f \<Rightarrow> (case finding_record_args f of (i, legs, kind) \<Rightarrow>
        Tracked i b kind legs (li_tracked_at li)
        # (if li_delivered li then [Published (envelope_chain f) f] else [])))"

definition actor_step :: "actor \<Rightarrow> leg_input \<Rightarrow> (actor \<times> actor_out list) option" where
  "actor_step a li = do {
     ((journal, fnd), a') \<leftarrow> on_leg (li_finding_id li) (li_now li) (li_leg li) a;
     Some (a', map Appended journal @ announce (ac_bridge a) li fnd)
   }"

text \<open>The loop of \<open>run\<close> over the legs received before the channel closes or shutdown is seen.\<close>

fun actor_run :: "actor \<Rightarrow> leg_input list \<Rightarrow> (actor \<times> actor_out list) option" where
  "actor_run a [] = Some (a, [])"
| "actor_run a (li # lis) = do {
     (a', out) \<leftarrow> actor_step a li;
     (a'', out') \<leftarrow> actor_run a' lis;
     Some (a'', out @ out')
   }"

section \<open>The router and the chain consumer\<close>

datatype send_answer = Sent | Full | Closed

datatype routed = Forwarded bridge_or_pair | DroppedUnconfigured | DroppedBackpressure | DroppedClosed

text \<open>\<open>LegRouter::route\<close>: the channels are a map from bridge to what \<open>try_send\<close> answers.\<close>

definition route :: "(bridge_or_pair \<times> send_answer) list \<Rightarrow> candidate_leg \<Rightarrow> routed" where
  "route senders leg = (case hm_get senders (cl_bridge leg) of
      None \<Rightarrow> DroppedUnconfigured
    | Some Sent \<Rightarrow> Forwarded (cl_bridge leg)
    | Some Full \<Rightarrow> DroppedBackpressure
    | Some Closed \<Rightarrow> DroppedClosed)"

record seen_envelopes =
  sn_capacity :: nat
  sn_set :: "uuid list"
  sn_order :: "uuid list"

definition seen_new :: "nat \<Rightarrow> seen_envelopes" where
  "seen_new capacity = \<lparr>sn_capacity = max capacity 1, sn_set = [], sn_order = []\<rparr>"

definition seen_insert :: "uuid \<Rightarrow> seen_envelopes \<Rightarrow> bool \<times> seen_envelopes" where
  "seen_insert i s =
     (if i \<in> set (sn_set s) then (False, s)
      else let ids = i # sn_set s; ord = sn_order s @ [i]
        in if sn_capacity s < length ord
           then (True, s\<lparr>sn_set := removeAll (hd ord) ids, sn_order := tl ord\<rparr>)
           else (True, s\<lparr>sn_set := ids, sn_order := ord\<rparr>))"

record chain_consumer =
  cc_chain :: u64
  cc_seen :: seen_envelopes

definition dispatch ::
  "(bus_envelope \<Rightarrow> candidate_leg option) \<Rightarrow> (bridge_or_pair \<times> send_answer) list \<Rightarrow> bus_envelope \<Rightarrow> chain_consumer
    \<Rightarrow> (candidate_leg \<times> routed) option \<times> chain_consumer" where
  "dispatch extractor senders env c =
     (if be_chain env \<noteq> cc_chain c then (None, c)
      else let (new, seen) = seen_insert (be_event_id env) (cc_seen c); c' = c\<lparr>cc_seen := seen\<rparr>
        in if \<not> new then (None, c')
           else case extractor env of None \<Rightarrow> (None, c') | Some leg \<Rightarrow> (Some (leg, route senders leg), c'))"

section \<open>Consuming a match cannot fail\<close>

lemma find_mem: "find P xs = Some x \<Longrightarrow> x \<in> set xs \<and> P x"
  by (induction xs) (auto split: if_splits)

lemma map_filter_mem: "y \<in> set (List.map_filter f xs) \<Longrightarrow> \<exists>x\<in>set xs. f x = Some y"
  by (induction xs) (auto simp: map_filter_simps split: option.splits)

lemma candidates_mem: "l \<in> set (candidates_for b k) \<Longrightarrow> l \<in> set (lb_legs b)"
  by (auto simp: candidates_for_def split: option.splits dest!: map_filter_mem dest: find_mem)

lemma count_map_filter_find:
  "count_list (map cl_tx (filter P (List.map_filter (\<lambda>tx. find (\<lambda>leg. cl_tx leg = tx) legs) txs))) t \<le> count_list txs t"
proof (induction txs)
  case (Cons tx txs)
  have "find (\<lambda>leg. cl_tx leg = tx) legs = Some l \<Longrightarrow> cl_tx l = tx" for l
    by (auto simp: find_Some_iff)
  with Cons show ?case by (cases "find (\<lambda>leg. cl_tx leg = tx) legs") (auto simp: map_filter_simps)
qed (simp add: map_filter_simps)

lemma candidates_count:
  assumes "index_sound (lb_legs b) (lb_by_key b)"
  shows "count_list (map cl_tx (filter P (candidates_for b k))) t \<le> length (filter (\<lambda>l. cl_tx l = t) (lb_legs b))"
proof -
  have "count_list (map cl_tx (filter P (candidates_for b k))) t \<le> count_list (indexed (lb_by_key b) k) t"
    using count_map_filter_find[of P "lb_legs b" _ t]
    by (auto simp: candidates_for_def indexed_def split: option.splits)
  also have "\<dots> \<le> length (filter (\<lambda>l. cl_tx l = t \<and> cl_key l = k) (lb_legs b))"
    using assms by (simp add: index_sound_def)
  also have "\<dots> \<le> length (filter (\<lambda>l. cl_tx l = t) (lb_legs b))"
  proof -
    have "filter (\<lambda>l. cl_tx l = t \<and> cl_key l = k) (lb_legs b)
        = filter (\<lambda>l. cl_key l = k) (filter (\<lambda>l. cl_tx l = t) (lb_legs b))" by (simp add: conj_commute)
    then show ?thesis by (metis length_filter_le)
  qed
  finally show ?thesis .
qed

lemma remove_each_total:
  "buffer_inv b \<Longrightarrow> (\<And>t. count_list txs t \<le> length (filter (\<lambda>l. cl_tx l = t) (lb_legs b))) \<Longrightarrow>
     \<exists>legs b'. remove_each txs b = Some (legs, b') \<and> buffer_inv b'"
proof (induction txs arbitrary: b)
  case (Cons tx txs)
  have "filter (\<lambda>l. cl_tx l = tx) (lb_legs b) \<noteq> []" using Cons.prems(2)[of tx] by auto
  then have "buffer_remove tx b \<noteq> None"
    unfolding buffer_remove_None by (simp add: filter_empty_conv)
  then obtain leg b1 where r: "buffer_remove tx b = Some (leg, b1)" by auto
  have "count_list txs t \<le> length (filter (\<lambda>l. cl_tx l = t) (lb_legs b1))" for t
    using r Cons.prems(2)[of t] by (elim buffer_remove_split) (auto split: if_splits)
  with Cons.IH buffer_remove_inv[OF Cons.prems(1) r] r show ?case by fastforce
qed simp

text \<open>
  The join never panics: each \<open>expect\<close> of \<open>apply\<close> is met in every state that satisfies the buffer's
  invariant, also when legs share a transaction, and the invariant is kept.
\<close>

theorem join_never_panics:
  assumes "buffer_inv b"
  shows "\<exists>outcome b'. join_leg i b leg = Some (outcome, b') \<and> buffer_inv b'"
proof (cases "bridge_decide b leg")
  case (Some d)
  then obtain other where o: "d = BridgeMatch (cl_tx other)" "other \<in> set (candidates_for b (cl_key leg))"
    by (auto simp: bridge_decide_def dest: find_mem)
  then have "buffer_remove (cl_tx other) b \<noteq> None"
    unfolding buffer_remove_None using candidates_mem by blast
  then obtain l b' where "buffer_remove (cl_tx other) b = Some (l, b')" by auto
  with o(1) Some buffer_remove_inv[OF assms this] show ?thesis by (simp add: join_leg_def strategies_def)
next
  case bridge: None
  show ?thesis
  proof (cases "arb_decide b leg")
    case (Some d)
    let ?txs = "map cl_tx (filter (\<lambda>other. cl_chain other \<noteq> cl_chain leg \<and> cl_kind other = LargeSwap) (candidates_for b (cl_key leg)))"
    from Some have d: "d = CrossChainMatch ?txs" by (auto simp: arb_decide_def Let_def split: if_splits)
    from assms have "index_sound (lb_legs b) (lb_by_key b)" by (simp add: buffer_inv_def)
    from remove_each_total[OF assms candidates_count[OF this]] obtain legs b'
      where "remove_each ?txs b = Some (legs, b')" "buffer_inv b'" by blast
    with d Some bridge show ?thesis by (simp add: join_leg_def strategies_def)
  next
    case None
    with bridge assms show ?thesis by (simp add: join_leg_def strategies_def)
  qed
qed

section \<open>What the join finds\<close>

lemma find_filter: "find P xs = (case filter P xs of [] \<Rightarrow> None | x # _ \<Rightarrow> Some x)"
  by (induction xs) auto

lemma buffer_remove_legs:
  assumes "buffer_exact b" "l \<in> set (lb_legs b)"
  shows "\<exists>b'. buffer_remove (cl_tx l) b = Some (l, b') \<and> buffer_exact b' \<and>
    lb_legs b' = filter (\<lambda>x. cl_tx x \<noteq> cl_tx l) (lb_legs b)"
proof -
  have "buffer_remove (cl_tx l) b \<noteq> None" unfolding buffer_remove_None using assms(2) by blast
  then obtain l' b' where r: "buffer_remove (cl_tx l) b = Some (l', b')" by auto
  then obtain us ws where s: "lb_legs b = us @ l' # ws" "lb_legs b' = us @ ws" "cl_tx l' = cl_tx l"
    by (rule buffer_remove_split)
  have d: "distinct (map cl_tx (lb_legs b))" using assms(1) by (simp add: buffer_exact_def index_exact_def)
  with s assms(2) have "l' = l" by (auto simp: distinct_map inj_on_def)
  moreover have "filter (\<lambda>x. cl_tx x \<noteq> cl_tx l) vs = vs" if "vs \<in> {us, ws}" for vs
    using d s(1) \<open>l' = l\<close> that by (auto simp: filter_id_conv) (metis imageI)+
  ultimately show ?thesis using r s buffer_remove_exact[OF assms(1) r] by auto
qed

lemma remove_each_legs:
  "buffer_exact b \<Longrightarrow> set ls \<subseteq> set (lb_legs b) \<Longrightarrow> distinct (map cl_tx ls) \<Longrightarrow>
     \<exists>b'. remove_each (map cl_tx ls) b = Some (ls, b') \<and> buffer_exact b' \<and>
       lb_legs b' = filter (\<lambda>x. cl_tx x \<notin> cl_tx ` set ls) (lb_legs b)"
proof (induction ls arbitrary: b)
  case (Cons l ls)
  from buffer_remove_legs[OF Cons.prems(1), of l] Cons.prems(2) obtain b1
    where b1: "buffer_remove (cl_tx l) b = Some (l, b1)" "buffer_exact b1"
      "lb_legs b1 = filter (\<lambda>x. cl_tx x \<noteq> cl_tx l) (lb_legs b)" by auto
  have "set ls \<subseteq> set (lb_legs b1)"
    using Cons.prems(2,3) b1(3) by auto (metis imageI)
  with Cons.IH[OF b1(2)] Cons.prems(3) obtain b2
    where "remove_each (map cl_tx ls) b1 = Some (ls, b2)" "buffer_exact b2"
      "lb_legs b2 = filter (\<lambda>x. cl_tx x \<notin> cl_tx ` set ls) (lb_legs b1)" by auto
  with b1 show ?case by (auto intro: filter_cong)
qed simp

text \<open>The buffered legs of other chains that share the arriving leg's key, and what they complete.\<close>

definition partners :: "candidate_leg \<Rightarrow> candidate_leg list \<Rightarrow> candidate_leg list" where
  "partners leg legs = filter (\<lambda>l. cl_key l = cl_key leg \<and> cl_chain l \<noteq> cl_chain leg) legs"

definition join_spec :: "uuid \<Rightarrow> candidate_leg \<Rightarrow> candidate_leg list \<Rightarrow> join_outcome" where
  "join_spec i leg ps = (case filter (\<lambda>l. is_complementary (cl_kind l) (cl_kind leg)) ps of
      l # _ \<Rightarrow> JoinedBridge (build_bridge_mev i leg l) (cl_tx l)
    | [] \<Rightarrow> (let swaps = filter (\<lambda>l. cl_kind l = LargeSwap) ps
         in if cl_kind leg = LargeSwap \<and> swaps \<noteq> []
            then JoinedChain (build_cross_chain_mev i (swaps @ [leg])) (map cl_tx swaps) else Unmatched leg))"

fun consumed :: "join_outcome \<Rightarrow> b256 list" where
  "consumed (Unmatched leg) = []"
| "consumed (JoinedBridge ev tx) = [tx]"
| "consumed (JoinedChain ev txs) = txs"

lemma bridge_decide_exact:
  assumes "buffer_exact b"
  shows "bridge_decide b leg = (case filter (\<lambda>l. is_complementary (cl_kind l) (cl_kind leg)) (partners leg (lb_legs b)) of
    [] \<Rightarrow> None | l # _ \<Rightarrow> Some (BridgeMatch (cl_tx l)))"
  using assms candidates_exact[of b "cl_key leg"]
  by (auto simp: bridge_decide_def find_filter partners_def buffer_exact_def conj_ac split: list.splits)

lemma arb_decide_exact:
  assumes "buffer_exact b"
  shows "arb_decide b leg = (let swaps = filter (\<lambda>l. cl_kind l = LargeSwap) (partners leg (lb_legs b))
    in if cl_kind leg = LargeSwap \<and> swaps \<noteq> [] then Some (CrossChainMatch (map cl_tx swaps)) else None)"
  using assms candidates_exact[of b "cl_key leg"]
  by (auto simp: arb_decide_def partners_def buffer_exact_def conj_ac Let_def)

lemma join_buffer_exact:
  assumes "buffer_exact b"
  shows "\<exists>b'. join_leg i b leg = Some (join_spec i leg (partners leg (lb_legs b)), b') \<and> buffer_exact b' \<and>
    lb_legs b' = filter (\<lambda>l. cl_tx l \<notin> set (consumed (join_spec i leg (partners leg (lb_legs b))))) (lb_legs b)"
proof (cases "filter (\<lambda>l. is_complementary (cl_kind l) (cl_kind leg)) (partners leg (lb_legs b))")
  case (Cons l ls)
  then have "l \<in> set (filter (\<lambda>l. is_complementary (cl_kind l) (cl_kind leg)) (partners leg (lb_legs b)))" by simp
  then have "l \<in> set (lb_legs b)" by (auto simp: partners_def)
  with buffer_remove_legs[OF assms] obtain b' where "buffer_remove (cl_tx l) b = Some (l, b')" "buffer_exact b'"
      "lb_legs b' = filter (\<lambda>x. cl_tx x \<noteq> cl_tx l) (lb_legs b)" by blast
  with Cons show ?thesis by (simp add: join_leg_def strategies_def bridge_decide_exact[OF assms] join_spec_def)
next
  case bridge: Nil
  let ?swaps = "filter (\<lambda>l. cl_kind l = LargeSwap) (partners leg (lb_legs b))"
  show ?thesis
  proof (cases "cl_kind leg = LargeSwap \<and> ?swaps \<noteq> []")
    case True
    have "distinct (map cl_tx (lb_legs b))" using assms by (simp add: buffer_exact_def index_exact_def)
    then have "distinct (map cl_tx ?swaps)" "set ?swaps \<subseteq> set (lb_legs b)"
      by (auto simp: partners_def distinct_map_filter)
    with remove_each_legs[OF assms] obtain b' where "remove_each (map cl_tx ?swaps) b = Some (?swaps, b')" "buffer_exact b'"
        "lb_legs b' = filter (\<lambda>x. cl_tx x \<notin> cl_tx ` set ?swaps) (lb_legs b)" by blast
    with True bridge show ?thesis
      by (simp add: join_leg_def strategies_def bridge_decide_exact[OF assms] arb_decide_exact[OF assms] join_spec_def Let_def)
  next
    case False
    with bridge assms show ?thesis
      by (simp add: join_leg_def strategies_def bridge_decide_exact[OF assms] arb_decide_exact[OF assms] join_spec_def Let_def)
  qed
qed


text \<open>
  The window does not bound the join: a leg that has aged out stays in the buffer until the next
  unmatched leg evicts it, and a partner that arrives later than the window still joins it.
\<close>

theorem aged_out_leg_still_joins:
  assumes "window < cl_observed_at d - cl_observed_at a" "cl_key a = cl_key d" "cl_chain a \<noteq> cl_chain d"
    and "is_complementary (cl_kind a) (cl_kind d)"
  shows "\<exists>b'. join_leg i (snd (buffer_insert a now (buffer_new window n))) d
           = Some (JoinedBridge (build_bridge_mev i d a) (cl_tx a), b')"
proof -
  let ?b = "snd (buffer_insert a now (buffer_new window n))"
  have "buffer_exact ?b" by (rule buffer_insert_exact[OF buffer_new_exact]) (simp add: buffer_new_def)
  moreover have "lb_legs ?b = [a]"
    by (simp add: buffer_insert_snd evict_expired_def drop_oldest_def buffer_new_def push_leg_def)
  ultimately show ?thesis
    using join_buffer_exact[of ?b i d] assms(2-4) by (auto simp: partners_def join_spec_def)
qed

section \<open>Replaying the changelog\<close>

definition restored :: "replayed \<Rightarrow> bridge_or_pair \<Rightarrow> candidate_leg list" where
  "restored st b = (case hm_get st b of None \<Rightarrow> [] | Some legs \<Rightarrow> legs)"

lemma restored_apply:
  "restored (apply_entry (Buffered leg) st) b = (if b = cl_bridge leg then restored st b @ [leg] else restored st b)"
  "restored (apply_entry (Removed c tx) st) b = (if b = c then filter (\<lambda>l. cl_tx l \<noteq> tx) (restored st b) else restored st b)"
  by (auto simp: restored_def hm_get_insert split: option.splits)

declare apply_entry.simps [simp del]

lemma restored_removed:
  "restored (fold apply_entry (map (Removed b) txs) st) b = filter (\<lambda>l. cl_tx l \<notin> set txs) (restored st b)"
  by (induction txs arbitrary: st) (auto simp: restored_apply intro: filter_cong)

lemma restored_other: "entry_bridge e \<noteq> b \<Longrightarrow> restored (apply_entry e st) b = restored st b"
  by (cases e) (auto simp: restored_apply)

lemma restored_cong:
  "restored st b = restored st' b \<Longrightarrow> restored (fold apply_entry es st) b = restored (fold apply_entry (filter (\<lambda>e. entry_bridge e = b) es) st') b"
proof (induction es arbitrary: st st')
  case (Cons e es)
  show ?case
  proof (cases "entry_bridge e = b")
    case True
    have "restored (apply_entry e st) b = restored (apply_entry e st') b"
      using Cons.prems by (cases e) (auto simp: restored_apply)
    with True Cons.IH show ?thesis by simp
  next
    case False
    with restored_other[of e b st] Cons.prems have "restored (apply_entry e st) b = restored st' b" by simp
    with False Cons.IH show ?thesis by simp
  qed
qed simp

text \<open>One turn of an actor as an event-sourced operation: its next state and what it journals.\<close>

definition actor_journal :: "actor \<Rightarrow> leg_input \<Rightarrow> (actor \<times> changelog_entry list) option" where
  "actor_journal a li = map_option (\<lambda>((journal, f), a'). (a', journal)) (on_leg (li_finding_id li) (li_now li) (li_leg li) a)"

definition leg_ok :: "actor \<Rightarrow> leg_input \<Rightarrow> bool" where
  "leg_ok a li \<longleftrightarrow> cl_bridge (li_leg li) = ac_bridge a \<and> cl_tx (li_leg li) \<notin> cl_tx ` set (lb_legs (ac_buffer a))"

definition log_agrees :: "bridge_or_pair \<Rightarrow> actor \<Rightarrow> replayed \<Rightarrow> bool" where
  "log_agrees b a st \<longleftrightarrow> ac_bridge a = b \<and> buffer_exact (ac_buffer a) \<and> restored st b = lb_legs (ac_buffer a)"

lemma filter_other_txs:
  assumes "distinct (map cl_tx legs)"
  shows "filter (\<lambda>l. cl_tx l \<notin> cl_tx ` set (filter P legs)) legs = filter (\<lambda>l. \<not> P l) legs"
proof (rule filter_cong[OF refl])
  fix l assume l: "l \<in> set legs"
  have "l' = l" if "l' \<in> set legs" "cl_tx l' = cl_tx l" for l'
    using assms that l by (auto simp: distinct_map inj_on_def)
  then have "P l" if "cl_tx l \<in> cl_tx ` set (filter P legs)"
  proof -
    from that obtain l' where "l' \<in> set legs" "P l'" "cl_tx l' = cl_tx l" by auto
    with \<open>\<And>l'. l' \<in> set legs \<Longrightarrow> cl_tx l' = cl_tx l \<Longrightarrow> l' = l\<close> show ?thesis by metis
  qed
  with l show "(cl_tx l \<notin> cl_tx ` set (filter P legs)) = (\<not> P l)" by auto
qed

lemma buffer_insert_fst:
  "fst (buffer_insert leg now b) = \<lparr>io_window_evicted = fst (evict_expired now b),
     io_capacity_evicted = fst (drop_oldest (snd (evict_expired now b)))\<rparr>"
  by (simp add: buffer_insert_def split: prod.splits)

lemma drop_oldest_filter:
  assumes "distinct (map cl_tx (lb_legs b))"
  shows "filter (\<lambda>l. cl_tx l \<notin> set (case fst (drop_oldest b) of None \<Rightarrow> [] | Some d \<Rightarrow> [cl_tx d])) (lb_legs b)
      = lb_legs (snd (drop_oldest b)) \<and>
    set (case fst (drop_oldest b) of None \<Rightarrow> [] | Some d \<Rightarrow> [cl_tx d]) \<subseteq> cl_tx ` set (lb_legs b)"
  using drop_oldest_cases[of b]
proof (elim disjE exE conjE)
  fix d rest
  assume d: "lb_legs b = d # rest"
    "drop_oldest b = (Some d, b\<lparr>lb_legs := rest, lb_by_key := deindex d (lb_by_key b)\<rparr>)"
  with assms have "filter (\<lambda>l. cl_tx l \<noteq> cl_tx d) rest = rest"
    by (auto simp: filter_id_conv) (metis imageI)
  with d show ?thesis by simp
qed simp_all

lemma insert_journal:
  assumes "buffer_exact b" "cl_tx leg \<notin> cl_tx ` set (lb_legs b)" "cl_bridge leg = br" "restored st br = lb_legs b"
    and ins: "buffer_insert leg now b = (io, b')"
  shows "restored (fold apply_entry (Buffered leg # map (\<lambda>l. Removed br (cl_tx l)) (io_window_evicted io)
      @ (case io_capacity_evicted io of None \<Rightarrow> [] | Some d \<Rightarrow> [Removed br (cl_tx d)])) st) br = lb_legs b'"
proof -
  define b1 where "b1 = snd (evict_expired now b)"
  let ?ev = "filter (\<lambda>l. lb_window b < now - cl_observed_at l) (lb_legs b)"
  let ?drop = "case fst (drop_oldest b1) of None \<Rightarrow> [] | Some d \<Rightarrow> [cl_tx d]"
  from ins have io: "io_window_evicted io = ?ev" "io_capacity_evicted io = fst (drop_oldest b1)"
    and b': "lb_legs b' = lb_legs (snd (drop_oldest b1)) @ [leg]"
    using buffer_insert_fst[of leg now b] buffer_insert_snd[of leg now b] by (simp_all add: b1_def leg_simps)
  have d: "distinct (map cl_tx (lb_legs b))" using assms(1) by (simp add: buffer_exact_def index_exact_def)
  have b1: "lb_legs b1 = filter (\<lambda>l. \<not> lb_window b < now - cl_observed_at l) (lb_legs b)"
    by (simp add: b1_def leg_simps)
  with d have d1: "distinct (map cl_tx (lb_legs b1))" by (simp add: distinct_map_filter)
  have drop: "filter (\<lambda>l. cl_tx l \<notin> set ?drop) (lb_legs b1) = lb_legs (snd (drop_oldest b1))"
    "cl_tx leg \<notin> set ?drop"
    using drop_oldest_filter[OF d1] assms(2) b1 by auto
  have "map (\<lambda>l. Removed br (cl_tx l)) ?ev @ (case fst (drop_oldest b1) of None \<Rightarrow> [] | Some d \<Rightarrow> [Removed br (cl_tx d)])
      = map (Removed br) (map cl_tx ?ev @ ?drop)" by (simp split: option.splits)
  then have "restored (fold apply_entry (Buffered leg # map (\<lambda>l. Removed br (cl_tx l)) (io_window_evicted io)
      @ (case io_capacity_evicted io of None \<Rightarrow> [] | Some d \<Rightarrow> [Removed br (cl_tx d)])) st) br
      = filter (\<lambda>l. cl_tx l \<notin> set (map cl_tx ?ev @ ?drop)) (lb_legs b @ [leg])"
    using restored_removed[of br "map cl_tx ?ev @ ?drop" "apply_entry (Buffered leg) st"] restored_apply(1)[of leg st br] assms(3,4)
    by (simp add: io del: map_append)
  also have "\<dots> = filter (\<lambda>l. cl_tx l \<notin> set ?drop) (filter (\<lambda>l. cl_tx l \<notin> cl_tx ` set ?ev) (lb_legs b)) @ [leg]"
    using drop(2) assms(2) by (auto simp: conj_commute intro: filter_cong)
  also have "\<dots> = lb_legs b'" using drop(1) b1 b' filter_other_txs[OF d] by simp
  finally show ?thesis .
qed

lemma on_leg_journal:
  assumes "log_agrees br a st" "leg_ok a li"
  shows "\<exists>a' es. actor_journal a li = Some (a', es) \<and> log_agrees br a' (fold apply_entry es st)"
proof -
  let ?b = "ac_buffer a" and ?leg = "li_leg li"
  let ?out = "join_spec (li_finding_id li) ?leg (partners ?leg (lb_legs ?b))"
  from assms have [simp]: "br = ac_bridge a" by (simp add: log_agrees_def)
  from assms have b: "buffer_exact ?b" "restored st (ac_bridge a) = lb_legs ?b"
    and leg: "cl_bridge ?leg = ac_bridge a" "cl_tx ?leg \<notin> cl_tx ` set (lb_legs ?b)"
    by (simp_all add: log_agrees_def leg_ok_def)
  from join_buffer_exact[OF b(1), of "li_finding_id li" ?leg] obtain b1 where
    j: "join_leg (li_finding_id li) ?b ?leg = Some (?out, b1)" "buffer_exact b1"
      "lb_legs b1 = filter (\<lambda>l. cl_tx l \<notin> set (consumed ?out)) (lb_legs ?b)" by blast
  show ?thesis
  proof (cases ?out)
    case (Unmatched leg')
    then have "leg' = ?leg" by (auto simp: join_spec_def Let_def split: list.splits if_splits)
    moreover from Unmatched j have legs: "lb_legs b1 = lb_legs ?b" by simp
    obtain io b2 where ins: "buffer_insert ?leg (li_now li) b1 = (io, b2)" by (rule prod.exhaust)
    moreover have "buffer_exact b2"
      using buffer_insert_exact[OF j(2), of ?leg "li_now li"] leg(2) legs ins by simp
    ultimately show ?thesis
      using insert_journal[OF j(2) _ leg(1) _ ins, of st] j(1) Unmatched b leg(2) legs
      by (simp add: actor_journal_def on_leg_def log_agrees_def)
  next
    case (JoinedBridge ev tx)
    with j b restored_removed[of br "[tx]" st] show ?thesis
      by (simp add: actor_journal_def on_leg_def log_agrees_def)
  next
    case (JoinedChain ev txs)
    with j b restored_removed[of br txs st] show ?thesis
      by (simp add: actor_journal_def on_leg_def log_agrees_def)
  qed
qed

interpretation leg_log: event_sourced actor_journal apply_entry "log_agrees br" leg_ok for br
  by unfold_locales (rule on_leg_journal)

lemma on_leg_entries:
  assumes "actor_journal a li = Some (a', es)" "cl_bridge (li_leg li) = ac_bridge a"
  shows "ac_bridge a' = ac_bridge a \<and> (\<forall>e\<in>set es. entry_bridge e = ac_bridge a)"
proof -
  from assms(1) obtain out b where o: "join_leg (li_finding_id li) (ac_buffer a) (li_leg li) = Some (out, b)"
    by (auto simp: actor_journal_def on_leg_def bind_eq_Some_conv)
  have "leg' = li_leg li" if "out = Unmatched leg'" for leg'
    using o that
    by (auto simp: join_leg_def strategies_def bridge_decide_def arb_decide_def Let_def bind_eq_Some_conv
        split: option.splits if_splits)
  with assms o show ?thesis
    by (cases out) (auto simp: actor_journal_def on_leg_def split: prod.splits option.splits)
qed

lemma run_entries:
  "run_live actor_journal a lis = Some (a', es) \<Longrightarrow> run_ok actor_journal leg_ok a lis \<Longrightarrow>
     ac_bridge a' = ac_bridge a \<and> (\<forall>e\<in>set es. entry_bridge e = ac_bridge a)"
proof (induction lis arbitrary: a es)
  case (Cons li lis)
  from Cons.prems(1) obtain a1 es1 es2 where
    1: "actor_journal a li = Some (a1, es1)" "run_live actor_journal a1 lis = Some (a', es2)" "es = es1 @ es2"
    by (auto simp: bind_eq_Some_conv)
  with Cons.prems(2) have "leg_ok a li" "run_ok actor_journal leg_ok a1 lis" by simp_all
  then have "cl_bridge (li_leg li) = ac_bridge a" by (simp add: leg_ok_def)
  with Cons.IH[OF 1(2)] on_leg_entries[OF 1(1)] 1(3) \<open>run_ok actor_journal leg_ok a1 lis\<close> show ?case by auto
qed simp

lemma join_capacity:
  assumes "join_leg i b leg = Some (out, b')"
  shows "lb_capacity b' = lb_capacity b"
proof -
  have each: "remove_each txs b = Some (legs, b') \<Longrightarrow> lb_capacity b' = lb_capacity b" for txs legs b b'
    by (induction txs arbitrary: b legs) (auto simp: bind_eq_Some_conv elim!: buffer_remove_split)
  show ?thesis
    using assms each
    by (auto simp: join_leg_def strategies_def bridge_decide_def arb_decide_def Let_def bind_eq_Some_conv
        elim!: buffer_remove_split split: option.splits if_splits)
qed

lemma run_capacity:
  "run_live actor_journal a lis = Some (a', es) \<Longrightarrow> lb_capacity (ac_buffer a') = lb_capacity (ac_buffer a)"
proof (induction lis arbitrary: a es)
  case (Cons li lis)
  from Cons.prems obtain a1 es1 es2 where
    1: "actor_journal a li = Some (a1, es1)" "run_live actor_journal a1 lis = Some (a', es2)"
    by (auto simp: bind_eq_Some_conv)
  from 1(1) obtain out b where o: "join_leg (li_finding_id li) (ac_buffer a) (li_leg li) = Some (out, b)"
    by (auto simp: actor_journal_def on_leg_def bind_eq_Some_conv)
  have "lb_capacity c' = lb_capacity c" if "buffer_insert leg now c = (io, c')" for leg now c io c'
    using buffer_insert_snd[of leg now c] that by (simp add: leg_simps)
  then have "lb_capacity (ac_buffer a1) = lb_capacity b"
    using 1(1) o by (cases out) (auto simp: actor_journal_def on_leg_def split: prod.splits)
  with join_capacity[OF o] Cons.IH[OF 1(2)] show ?case by simp
qed simp

lemma actor_new_agrees: "log_agrees b (actor_new now b window n) []"
  using evict_expired_exact[OF seed_exact[OF buffer_new_exact, where legs = "[]"]]
  by (simp add: log_agrees_def actor_new_def actor_new_with_seed_def restored_def leg_simps seed_def buffer_new_def)

lemma seed_no_drop:
  "length (lb_legs b) + length legs \<le> lb_capacity b \<Longrightarrow>
     lb_legs (fold seed_leg legs b) = lb_legs b @ legs \<and> lb_capacity (fold seed_leg legs b) = lb_capacity b \<and>
     lb_window (fold seed_leg legs b) = lb_window b"
proof (induction legs arbitrary: b)
  case (Cons leg legs)
  then have "drop_oldest b = (None, b)" by (simp add: drop_oldest_def)
  then have "seed_leg leg b = push_leg leg b" by (simp add: seed_leg_def)
  with Cons show ?case by (simp add: leg_simps)
qed simp

definition journal_of :: "actor_out list \<Rightarrow> changelog_entry list" where
  "journal_of outs = List.map_filter (\<lambda>x. case x of Appended e \<Rightarrow> Some e | _ \<Rightarrow> None) outs"

lemma journal_of_simps [simp]:
  "journal_of [] = []" "journal_of (Appended e # outs) = e # journal_of outs"
  "journal_of (Tracked i b k ls t # outs) = journal_of outs" "journal_of (Published c f # outs) = journal_of outs"
  by (simp_all add: journal_of_def map_filter_simps)

lemma journal_of_append [simp]: "journal_of (xs @ ys) = journal_of xs @ journal_of ys"
proof (induction xs)
  case (Cons x xs)
  then show ?case by (cases x) simp_all
qed simp

lemma journal_of_map [simp]: "journal_of (map Appended es) = es"
  by (induction es) simp_all

lemma journal_of_announce [simp]: "journal_of (announce b li fnd) = []"
  by (auto simp: announce_def split: option.splits prod.splits)

lemma actor_step_shape:
  assumes "actor_step a li = Some (a', outs)"
  obtains journal fnd where "actor_journal a li = Some (a', journal)" "outs = map Appended journal @ announce (ac_bridge a) li fnd"
  using assms by (auto simp: actor_step_def actor_journal_def bind_eq_Some_conv)

lemma actor_run_journal:
  "actor_run a lis = Some (a', outs) \<Longrightarrow> run_live actor_journal a lis = Some (a', journal_of outs)"
proof (induction lis arbitrary: a outs)
  case (Cons li lis)
  from Cons.prems obtain a1 o1 o2 where
    1: "actor_step a li = Some (a1, o1)" "actor_run a1 lis = Some (a', o2)" "outs = o1 @ o2"
    by (auto simp: bind_eq_Some_conv)
  from 1(1) have "actor_journal a li = Some (a1, journal_of o1)"
    by (rule actor_step_shape) simp
  with Cons.IH[OF 1(2)] 1(3) show ?case by simp
qed simp


section \<open>Tracked before published\<close>

lemma published_position:
  "map Appended es @ [Tracked i b k ls t, Published c' f'] = us @ Published c f # ws \<Longrightarrow>
     us = map Appended es @ [Tracked i b k ls t] \<and> c' = c \<and> f' = f"
proof (induction es arbitrary: us)
  case Nil
  then show ?case by (cases us; cases "tl us") auto
next
  case (Cons e es)
  then show ?case by (cases us) auto
qed

lemma not_published: "Published c f \<notin> set (map Appended es)"
  by auto

lemma actor_step_published:
  assumes "actor_step a li = Some (a', us @ Published c f # ws)"
  shows "c = envelope_chain f \<and> (\<exists>us' t. us = us' @ [case finding_record_args f of (i, legs, kind) \<Rightarrow> Tracked i (ac_bridge a) kind legs t])"
  using assms
proof (rule actor_step_shape)
  fix journal fnd
  assume o: "us @ Published c f # ws = map Appended journal @ announce (ac_bridge a) li fnd"
  have "Published c f \<in> set (us @ Published c f # ws)" by simp
  then have "Published c f \<in> set (announce (ac_bridge a) li fnd)" unfolding o by auto
  moreover obtain i legs kind where g: "finding_record_args f = (i, legs, kind)" by (rule prod_cases3)
  ultimately have "c = envelope_chain f"
    "announce (ac_bridge a) li fnd = [Tracked i (ac_bridge a) kind legs (li_tracked_at li), Published c f]"
    by (auto simp: announce_def split: option.splits prod.splits if_splits)
  with o g published_position[of journal i "ac_bridge a" kind legs "li_tracked_at li" c f us c f ws]
  show ?thesis by auto
qed

lemma actor_journal_bridge: "actor_journal a li = Some (a', journal) \<Longrightarrow> ac_bridge a' = ac_bridge a"
proof -
  assume j: "actor_journal a li = Some (a', journal)"
  then obtain out b where o: "join_leg (li_finding_id li) (ac_buffer a) (li_leg li) = Some (out, b)"
    by (auto simp: actor_journal_def on_leg_def bind_eq_Some_conv)
  with j show ?thesis by (cases out) (auto simp: actor_journal_def on_leg_def split: prod.splits)
qed

lemma actor_step_bridge: "actor_step a li = Some (a', outs) \<Longrightarrow> ac_bridge a' = ac_bridge a"
  by (erule actor_step_shape) (rule actor_journal_bridge, assumption)+

text \<open>
  A finding is on the wire only after the finality tracker was told of it: the output right before a
  publication hands the tracker the finding's identifier, kind and the block of every leg.
\<close>

theorem tracked_before_published:
  assumes "actor_run a lis = Some (a', us @ Published c f # ws)"
  shows "c = envelope_chain f \<and> (\<exists>us' t. us = us' @ [case finding_record_args f of (i, legs, kind) \<Rightarrow> Tracked i (ac_bridge a) kind legs t])"
  using assms
proof (induction lis arbitrary: a us)
  case (Cons li lis)
  from Cons.prems obtain a1 o1 o2 where
    1: "actor_step a li = Some (a1, o1)" "actor_run a1 lis = Some (a', o2)" "us @ Published c f # ws = o1 @ o2"
    by (auto simp: bind_eq_Some_conv)
  from 1(3) show ?case
  proof (cases "length us < length o1")
    case True
    with 1(3) have "o1 = us @ Published c f # drop (Suc (length us)) o1"
      by (metis append_eq_append_conv_if Cons_nth_drop_Suc append_take_drop_id nth_append nth_append_length less_imp_le take_all_iff order_refl append_eq_conv_conj)
    with actor_step_published[of a li a1 us c f] 1(1) show ?thesis by metis
  next
    case False
    with 1(3) obtain us2 where u: "us = o1 @ us2" "us2 @ Published c f # ws = o2"
      by (metis append_eq_append_conv_if append_take_drop_id not_less append_eq_append_conv append.assoc)
    from Cons.IH[of a1 us2] 1(2) u actor_step_bridge[OF 1(1)] show ?thesis by auto
  qed
qed simp

section \<open>Redelivered records\<close>

definition seen_ok :: "seen_envelopes \<Rightarrow> bool" where
  "seen_ok s \<longleftrightarrow> 1 \<le> sn_capacity s \<and> distinct (sn_order s) \<and> set (sn_set s) = set (sn_order s) \<and>
     length (sn_order s) \<le> sn_capacity s"

lemma seen_new_ok: "seen_ok (seen_new n)"
  by (simp add: seen_ok_def seen_new_def)

lemma seen_insert_ok: "seen_ok s \<Longrightarrow> seen_ok (snd (seen_insert i s)) \<and> sn_capacity (snd (seen_insert i s)) = sn_capacity s"
  by (cases "sn_order s") (auto simp: seen_ok_def seen_insert_def Let_def)

lemma seen_insert_last:
  assumes "seen_ok s"
  shows "\<exists>us vs. sn_order (snd (seen_insert i s)) = us @ i # vs \<and> (fst (seen_insert i s) \<longrightarrow> vs = [])"
proof (cases "i \<in> set (sn_set s)")
  case True
  with assms have "i \<in> set (sn_order s)" by (simp add: seen_ok_def)
  then obtain us vs where "sn_order s = us @ i # vs" by (auto dest: split_list)
  with True show ?thesis by (auto simp: seen_insert_def)
next
  case False
  with assms show ?thesis
    by (cases "sn_order s") (auto simp: seen_insert_def Let_def seen_ok_def)
qed

lemma seen_insert_keeps:
  assumes "seen_ok s" "sn_order s = us @ i # vs" "Suc (length vs) < sn_capacity s"
  shows "\<exists>us' vs'. sn_order (snd (seen_insert j s)) = us' @ i # vs' \<and> length vs' \<le> Suc (length vs)"
proof (cases "j \<in> set (sn_set s)")
  case True
  with assms(2) show ?thesis by (intro exI[of _ us] exI[of _ vs]) (simp add: seen_insert_def)
next
  case new: False
  show ?thesis
  proof (cases us)
    case Nil
    with new assms(2,3) show ?thesis
      by (intro exI[of _ "[]"] exI[of _ "vs @ [j]"]) (simp add: seen_insert_def Let_def)
  next
    case (Cons u us1)
    with new assms(2) have "sn_order (snd (seen_insert j s)) \<in> {us1 @ i # (vs @ [j]), us @ i # (vs @ [j])}"
      by (auto simp: seen_insert_def Let_def)
    then show ?thesis by fastforce
  qed
qed

text \<open>A record of the shared topic as one chain's consumer meets it, with what its channels would answer.\<close>

type_synonym arrival = "(bridge_or_pair \<times> send_answer) list \<times> bus_envelope"

definition consume_arrival :: "(bus_envelope \<Rightarrow> candidate_leg option) \<Rightarrow> arrival \<Rightarrow> chain_consumer \<Rightarrow> chain_consumer" where
  "consume_arrival extractor r c = snd (dispatch extractor (fst r) (snd r) c)"

lemma consume_arrival_seen:
  "cc_chain (consume_arrival extractor r c) = cc_chain c"
  "cc_seen (consume_arrival extractor r c) =
     (if be_chain (snd r) = cc_chain c then snd (seen_insert (be_event_id (snd r)) (cc_seen c)) else cc_seen c)"
  by (auto simp: consume_arrival_def dispatch_def Let_def split: prod.splits option.splits)

lemma consume_all_ok:
  "seen_ok (cc_seen c) \<Longrightarrow> seen_ok (cc_seen (fold (consume_arrival extractor) rs c)) \<and>
     sn_capacity (cc_seen (fold (consume_arrival extractor) rs c)) = sn_capacity (cc_seen c) \<and>
     cc_chain (fold (consume_arrival extractor) rs c) = cc_chain c"
proof (induction rs arbitrary: c)
  case (Cons r rs)
  have "seen_ok (cc_seen (consume_arrival extractor r c)) \<and>
      sn_capacity (cc_seen (consume_arrival extractor r c)) = sn_capacity (cc_seen c)"
    using seen_insert_ok[OF Cons.prems] Cons.prems by (simp add: consume_arrival_seen)
  with Cons.IH[of "consume_arrival extractor r c"] show ?case by (simp add: consume_arrival_seen)
qed simp

lemma consume_all_keeps:
  "seen_ok (cc_seen c) \<Longrightarrow> sn_order (cc_seen c) = us @ i # vs \<Longrightarrow> length vs + length rs < sn_capacity (cc_seen c) \<Longrightarrow>
     i \<in> set (sn_set (cc_seen (fold (consume_arrival extractor) rs c)))"
proof (induction rs arbitrary: c us vs)
  case Nil
  then show ?case by (simp add: seen_ok_def)
next
  case (Cons r rs)
  let ?c = "consume_arrival extractor r c"
  have ok: "seen_ok (cc_seen ?c)" "sn_capacity (cc_seen ?c) = sn_capacity (cc_seen c)"
    using seen_insert_ok[OF Cons.prems(1)] Cons.prems(1) by (simp_all add: consume_arrival_seen)
  obtain us' vs' where "sn_order (cc_seen ?c) = us' @ i # vs'" "length vs' \<le> Suc (length vs)"
  proof (cases "be_chain (snd r) = cc_chain c")
    case True
    with that seen_insert_keeps[OF Cons.prems(1,2), of "be_event_id (snd r)"] Cons.prems(3) show ?thesis
      by (auto simp: consume_arrival_seen)
  next
    case False
    with that[of us vs] Cons.prems(2) show ?thesis by (simp add: consume_arrival_seen)
  qed
  from Cons.IH[OF ok(1) this(1)] this(2) ok(2) Cons.prems(3) show ?case by simp
qed

definition fresh_consumer :: "u64 \<Rightarrow> nat \<Rightarrow> chain_consumer" where
  "fresh_consumer chain n = \<lparr>cc_chain = chain, cc_seen = seen_new n\<rparr>"

text \<open>
  A record that was routed is not routed again when it is redelivered after fewer than \<open>n\<close> further
  records, whatever came before and whatever the channels answer; \<open>n\<close> is the configured
  deduplication capacity.
\<close>

theorem redelivery_not_routed:
  assumes "c0 = fold (consume_arrival extractor) history (fresh_consumer chain n)"
    and "fst (dispatch extractor senders0 env c0) \<noteq> None"
    and "length rs < max n 1"
  shows "fst (dispatch extractor senders env (fold (consume_arrival extractor) ((senders0, env) # rs) c0)) = None"
proof -
  define c1 where "c1 = consume_arrival extractor (senders0, env) c0"
  have 0: "seen_ok (cc_seen c0)" "sn_capacity (cc_seen c0) = max n 1"
    using consume_all_ok[of "fresh_consumer chain n" extractor history] seen_new_ok[of n]
    by (simp_all add: assms(1) fresh_consumer_def seen_new_def)
  have 1: "seen_ok (cc_seen c1)" "sn_capacity (cc_seen c1) = max n 1" "cc_chain c1 = cc_chain c0"
    using seen_insert_ok[OF 0(1)] 0 by (simp_all add: c1_def consume_arrival_seen)
  from assms(2) have new: "be_chain env = cc_chain c0" "fst (seen_insert (be_event_id env) (cc_seen c0))"
    by (auto simp: dispatch_def Let_def split: if_splits prod.splits)
  with seen_insert_last[OF 0(1), of "be_event_id env"] obtain us
    where "sn_order (cc_seen c1) = us @ be_event_id env # []"
    by (auto simp: c1_def consume_arrival_seen)
  from consume_all_keeps[OF 1(1) this, of rs extractor] assms(3) 1(2)
  have "be_event_id env \<in> set (sn_set (cc_seen (fold (consume_arrival extractor) rs c1)))" by simp
  then show ?thesis
    by (simp add: c1_def[symmetric]) (simp add: dispatch_def seen_insert_def)
qed

section \<open>Shared transactions\<close>

text \<open>
  A transaction that contributes two legs to one bridge breaks the replay: consuming the first leg
  journals its transaction, and replaying that entry drops the second leg too, which the live buffer
  still holds.
\<close>

theorem shared_tx_lost_on_replay:
  "\<exists>lis a outs. actor_run (actor_new 0 ''usdc'' 600 10) lis = Some (a, outs) \<and>
     lb_legs (ac_buffer a) \<noteq> [] \<and> restored (changelog_replay (journal_of outs)) ''usdc'' = []"
proof -
  let ?in = "\<lambda>leg. \<lparr>li_leg = leg, li_finding_id = 1, li_now = 0, li_tracked_at = 0, li_delivered = True\<rparr>"
  have "\<exists>a outs. actor_run (actor_new 0 ''usdc'' 600 10)
      [?in (ex_leg 1 7 BridgeDeposit 5 0), ?in (ex_leg 1 7 LargeSwap 6 0), ?in (ex_leg 10 9 LargeSwap 5 0)] = Some (a, outs) \<and>
     lb_legs (ac_buffer a) \<noteq> [] \<and> restored (changelog_replay (journal_of outs)) ''usdc'' = []"
    by (simp add: actor_new_def actor_new_with_seed_def seed_def buffer_eval actor_step_def on_leg_def join_leg_def
        strategies_def bridge_decide_def arb_decide_def Let_def buffer_remove_def announce_def restored_def
        changelog_replay_def apply_entry.simps)
  then show ?thesis by blast
qed

section \<open>Concrete runs\<close>

definition ex_input :: "candidate_leg \<Rightarrow> leg_input" where
  "ex_input leg = \<lparr>li_leg = leg, li_finding_id = 1, li_now = cl_observed_at leg, li_tracked_at = cl_observed_at leg, li_delivered = True\<rparr>"

definition ex_deposit :: candidate_leg where "ex_deposit = ex_leg 1 7 BridgeDeposit 5 0"
definition ex_other :: candidate_leg where "ex_other = ex_leg 1 8 LargeSwap 6 10"
definition ex_fill :: candidate_leg where "ex_fill = ex_leg 10 9 LargeSwap 5 20"

lemmas actor_eval = actor_new_def actor_new_with_seed_def seed_def buffer_eval actor_step_def on_leg_def join_leg_def
  strategies_def bridge_decide_def arb_decide_def Let_def buffer_remove_def announce_def ex_input_def ex_deposit_def
  ex_other_def ex_fill_def

theorem join_never_panics_witness:
  "\<exists>outcome b'. join_leg 1 (push_leg ex_deposit (buffer_new 600 2)) ex_fill = Some (outcome, b') \<and> buffer_inv b'"
proof (rule join_never_panics)
  have "buffer_inv (snd (buffer_insert ex_deposit 0 (buffer_new 600 2)))"
    using buffer_insert_inv[of "buffer_new 600 2"] buffer_new_exact[of 600 2] by (simp add: buffer_exact_def)
  then show "buffer_inv (push_leg ex_deposit (buffer_new 600 2))" by (simp add: buffer_eval)
qed


theorem aged_out_leg_still_joins_witness:
  "\<exists>b'. join_leg 1 (snd (buffer_insert ex_deposit 0 (buffer_new 5 2))) ex_fill
     = Some (JoinedBridge (build_bridge_mev 1 ex_fill ex_deposit) (cl_tx ex_deposit), b')"
  by (rule aged_out_leg_still_joins) (simp_all add: ex_deposit_def ex_fill_def ex_leg_def)


theorem tracked_before_published_witness:
  "\<exists>a us c f. actor_run (actor_new 0 ''usdc'' 600 2) [ex_input ex_deposit, ex_input ex_fill] = Some (a, us @ Published c f # []) \<and>
     c = envelope_chain f"
proof -
  have "\<exists>a us c f. actor_run (actor_new 0 ''usdc'' 600 2) [ex_input ex_deposit, ex_input ex_fill] = Some (a, us @ Published c f # [])"
    by (simp add: actor_eval)
  then show ?thesis using tracked_before_published by blast
qed

definition ex_record :: "uuid \<Rightarrow> bus_envelope" where
  "ex_record i = \<lparr>be_event_id = i, be_chain = 1, be_occurred_at = 0, be_payload = OtherPayload\<rparr>"

theorem redelivery_not_routed_witness:
  "fst (dispatch (\<lambda>_. Some ex_deposit) [] (ex_record 1)
     (fold (consume_arrival (\<lambda>_. Some ex_deposit)) [([], ex_record 1), ([], ex_record 2)] (fresh_consumer 1 2))) = None"
proof (rule redelivery_not_routed[of "fresh_consumer 1 2" "\<lambda>_. Some ex_deposit" "[]" 1 2 "[]" "ex_record 1" "[([], ex_record 2)]"])
  show "fst (dispatch (\<lambda>_. Some ex_deposit) [] (ex_record 1) (fresh_consumer 1 2)) \<noteq> None"
    by (simp add: dispatch_def ex_record_def fresh_consumer_def seen_insert_def seen_new_def)
qed simp_all

end

