(* ===== verification/Finding_Tracker.thy ===== *)
theory Finding_Tracker
  imports Leg_Join "HOL-Library.Product_Lexorder"
begin

text \<open>
  Finality and retraction of cross-chain findings (\<open>crates/cross-chain-correlator/src/finality.rs\<close>,
  \<open>finding_changelog.rs\<close>). The tracker knows which findings still wait for which legs' blocks; it keeps
  a reverse index from block to findings and an age index for eviction. A finalized block clears a
  leg, a reverted block retracts every finding waiting on it, and an age and a capacity bound evict
  the oldest. Every call is journalled, and a boot replays the journal.

  The three maps are hash maps and a B-tree set ordered by instant and identifier. The two eviction
  loops are partial functions: a loop that does not end has the value \<open>None\<close>, and that they end is
  proved from the invariant. The order in which a hash set is iterated is not specified in Rust, so
  the properties speak of the set of findings reported.
\<close>

section \<open>The tracker\<close>

record finding_summary =
  fs_finding_id :: uuid
  fs_bridge :: bridge_or_pair
  fs_kind :: finding_kind

record tracked_finding =
  tf_bridge :: bridge_or_pair
  tf_kind :: finding_kind
  tf_pending :: "leg_key list"
  tf_recorded_at :: int

definition summary_of :: "uuid \<Rightarrow> tracked_finding \<Rightarrow> finding_summary" where
  "summary_of i f = \<lparr>fs_finding_id = i, fs_bridge = tf_bridge f, fs_kind = tf_kind f\<rparr>"

record tracker =
  tk_retention :: int
  tk_capacity :: nat
  tk_findings :: "(uuid \<times> tracked_finding) list"
  tk_by_leg :: "(leg_key \<times> uuid list) list"
  tk_by_age :: "(int \<times> uuid) list"

definition tracker_new :: "int \<Rightarrow> nat \<Rightarrow> tracker" where
  "tracker_new retention capacity = \<lparr>tk_retention = retention, tk_capacity = capacity,
     tk_findings = [], tk_by_leg = [], tk_by_age = []\<rparr>"

definition tracker_len :: "tracker \<Rightarrow> nat" where
  "tracker_len t = length (tk_findings t)"

definition unlink_leg :: "uuid \<Rightarrow> leg_key \<Rightarrow> (leg_key \<times> uuid list) list \<Rightarrow> (leg_key \<times> uuid list) list" where
  "unlink_leg i leg bl = (case hm_get bl leg of
      None \<Rightarrow> bl
    | Some ids \<Rightarrow> (let ids' = removeAll i ids in if ids' = [] then hm_remove leg bl else hm_insert leg ids' bl))"

definition remove_finding :: "uuid \<Rightarrow> tracker \<Rightarrow> tracked_finding option \<times> tracker" where
  "remove_finding i t = (case hm_get (tk_findings t) i of
      None \<Rightarrow> (None, t)
    | Some f \<Rightarrow> (Some f, t\<lparr>tk_findings := hm_remove i (tk_findings t),
        tk_by_age := removeAll (tf_recorded_at f, i) (tk_by_age t),
        tk_by_leg := fold (unlink_leg i) (tf_pending f) (tk_by_leg t)\<rparr>))"

definition link_leg :: "uuid \<Rightarrow> leg_key \<Rightarrow> (leg_key \<times> uuid list) list \<Rightarrow> (leg_key \<times> uuid list) list" where
  "link_leg i leg bl = hm_insert leg (List.insert i (case hm_get bl leg of None \<Rightarrow> [] | Some ids \<Rightarrow> ids)) bl"

definition insert_raw :: "uuid \<Rightarrow> bridge_or_pair \<Rightarrow> finding_kind \<Rightarrow> leg_key list \<Rightarrow> int \<Rightarrow> tracker \<Rightarrow> tracker" where
  "insert_raw i b kind legs recorded_at t =
     (let pending = remdups legs
      in t\<lparr>tk_by_leg := fold (link_leg i) pending (tk_by_leg t),
           tk_by_age := insort_insert (recorded_at, i) (tk_by_age t),
           tk_findings := hm_insert i \<lparr>tf_bridge = b, tf_kind = kind, tf_pending = pending,
             tf_recorded_at = recorded_at\<rparr> (tk_findings t)\<rparr>)"

fun finalize_each :: "leg_key \<Rightarrow> uuid list \<Rightarrow> tracker \<Rightarrow> finding_summary list \<times> tracker" where
  "finalize_each leg [] t = ([], t)"
| "finalize_each leg (i # ids) t = (case hm_get (tk_findings t) i of
      None \<Rightarrow> finalize_each leg ids t
    | Some f \<Rightarrow>
        (let f' = f\<lparr>tf_pending := removeAll leg (tf_pending f)\<rparr>;
             t1 = t\<lparr>tk_findings := hm_insert i f' (tk_findings t)\<rparr>
         in if tf_pending f' = []
            then (case remove_finding i t1 of
                (None, t2) \<Rightarrow> finalize_each leg ids t2
              | (Some g, t2) \<Rightarrow> (let (out, t3) = finalize_each leg ids t2 in (summary_of i g # out, t3)))
            else finalize_each leg ids t1))"

definition on_block_finalized :: "leg_key \<Rightarrow> tracker \<Rightarrow> finding_summary list \<times> tracker" where
  "on_block_finalized leg t = (case hm_get (tk_by_leg t) leg of
      None \<Rightarrow> ([], t)
    | Some ids \<Rightarrow> finalize_each leg ids (t\<lparr>tk_by_leg := hm_remove leg (tk_by_leg t)\<rparr>))"

fun retract_each :: "uuid list \<Rightarrow> tracker \<Rightarrow> finding_summary list \<times> tracker" where
  "retract_each [] t = ([], t)"
| "retract_each (i # ids) t = (case remove_finding i t of
      (None, t1) \<Rightarrow> retract_each ids t1
    | (Some f, t1) \<Rightarrow> (let (out, t2) = retract_each ids t1 in (summary_of i f # out, t2)))"

definition on_block_reverted :: "leg_key \<Rightarrow> tracker \<Rightarrow> finding_summary list \<times> tracker" where
  "on_block_reverted leg t = (case hm_get (tk_by_leg t) leg of
      None \<Rightarrow> ([], t)
    | Some ids \<Rightarrow> retract_each ids (t\<lparr>tk_by_leg := hm_remove leg (tk_by_leg t)\<rparr>))"

text \<open>The two \<open>while\<close> loops of \<open>sweep\<close>.\<close>

partial_function (option) expire_loop :: "int \<Rightarrow> tracker \<Rightarrow> (finding_summary list \<times> tracker) option" where
  "expire_loop now t = (case tk_by_age t of
      [] \<Rightarrow> Some ([], t)
    | (recorded_at, i) # _ \<Rightarrow>
        (if now - recorded_at \<le> tk_retention t then Some ([], t)
         else (case remove_finding i t of
             (None, t1) \<Rightarrow> expire_loop now t1
           | (Some f, t1) \<Rightarrow> Option.bind (expire_loop now t1) (\<lambda>(out, t2). Some (summary_of i f # out, t2)))))"

partial_function (option) capacity_loop :: "tracker \<Rightarrow> (finding_summary list \<times> tracker) option" where
  "capacity_loop t =
     (if length (tk_findings t) \<le> tk_capacity t then Some ([], t)
      else (case tk_by_age t of
          [] \<Rightarrow> Some ([], t)
        | (_, i) # _ \<Rightarrow> (case remove_finding i t of
             (None, t1) \<Rightarrow> capacity_loop t1
           | (Some f, t1) \<Rightarrow> Option.bind (capacity_loop t1) (\<lambda>(out, t2). Some (summary_of i f # out, t2)))))"

definition sweep :: "int \<Rightarrow> tracker \<Rightarrow> (finding_summary list \<times> tracker) option" where
  "sweep now t = do {
     (evicted, t1) \<leftarrow> expire_loop now t;
     if tk_capacity t1 = 0 then Some (evicted, t1)
     else do { (evicted', t2) \<leftarrow> capacity_loop t1; Some (evicted @ evicted', t2) }
   }"

definition record_finding ::
  "uuid \<Rightarrow> bridge_or_pair \<Rightarrow> finding_kind \<Rightarrow> leg_key list \<Rightarrow> int \<Rightarrow> tracker \<Rightarrow> (finding_summary list \<times> tracker) option" where
  "record_finding i b kind legs now t = sweep now (insert_raw i b kind legs now t)"

definition evict_now :: "int \<Rightarrow> tracker \<Rightarrow> (finding_summary list \<times> tracker) option" where
  "evict_now now t = sweep now t"

section \<open>The journal\<close>

datatype finding_entry =
    Recorded uuid bridge_or_pair finding_kind "leg_key list" int
  | LegFinalized u64 b256
  | LegReverted u64 b256

text \<open>The live call an entry journals (\<open>SharedFindingFinalityTracker\<close> appends the entry, then applies the call).\<close>

fun live_call :: "finding_entry \<Rightarrow> tracker \<Rightarrow> (finding_summary list \<times> tracker) option" where
  "live_call (Recorded i b kind legs now) t = record_finding i b kind legs now t"
| "live_call (LegFinalized chain h) t = Some (on_block_finalized (chain, h) t)"
| "live_call (LegReverted chain h) t = Some (on_block_reverted (chain, h) t)"

fun apply_finding_entry :: "finding_entry \<Rightarrow> tracker \<Rightarrow> tracker" where
  "apply_finding_entry (Recorded i b kind legs recorded_at) t = insert_raw i b kind legs recorded_at t"
| "apply_finding_entry (LegFinalized chain h) t = snd (on_block_finalized (chain, h) t)"
| "apply_finding_entry (LegReverted chain h) t = snd (on_block_reverted (chain, h) t)"

definition finding_replay :: "int \<Rightarrow> nat \<Rightarrow> int \<Rightarrow> finding_entry list \<Rightarrow> tracker option" where
  "finding_replay retention capacity now entries =
     map_option snd (evict_now now (fold apply_finding_entry entries (tracker_new retention capacity)))"

section \<open>The finality consumer\<close>

datatype finality_payload = RevertedBlock block_ref b256 | FinalizedBlock block_ref | OtherEvent

text \<open>A \<open>CrossChainFindingRetracted\<close>; its reason renders the chain, the block and the replacement.\<close>

datatype retraction = Retraction uuid u64 block_ref b256

datatype consumer_verdict = CommitOffset | StopConsumer

fun publish_each :: "(nat \<Rightarrow> bool) \<Rightarrow> nat \<Rightarrow> u64 \<Rightarrow> block_ref \<Rightarrow> b256 \<Rightarrow> finding_summary list \<Rightarrow> retraction list" where
  "publish_each delivered n chain blk replacement [] = []"
| "publish_each delivered n chain blk replacement (s # ss) =
     (if delivered n then [Retraction (fs_finding_id s) chain blk replacement] else [])
       @ publish_each delivered (Suc n) chain blk replacement ss"

fun finality_process ::
  "(nat \<Rightarrow> bool) \<Rightarrow> bool \<Rightarrow> u64 \<Rightarrow> finality_payload \<Rightarrow> tracker
    \<Rightarrow> (finding_entry list \<times> retraction list \<times> consumer_verdict) \<times> tracker" where
  "finality_process delivered shutdown chain (RevertedBlock blk replacement) t =
     (let (retracted, t') = on_block_reverted (chain, br_hash blk) t
      in (([LegReverted chain (br_hash blk)], publish_each delivered 0 chain blk replacement retracted,
           if shutdown then StopConsumer else CommitOffset), t'))"
| "finality_process delivered shutdown chain (FinalizedBlock blk) t =
     (([LegFinalized chain (br_hash blk)], [], CommitOffset), snd (on_block_finalized (chain, br_hash blk) t))"
| "finality_process delivered shutdown chain OtherEvent t = (([], [], CommitOffset), t)"

section \<open>The indices\<close>

definition waiting_of :: "(leg_key \<times> uuid list) list \<Rightarrow> leg_key \<Rightarrow> uuid list" where
  "waiting_of bl leg = (case hm_get bl leg of None \<Rightarrow> [] | Some ids \<Rightarrow> ids)"

abbreviation watched :: "tracker \<Rightarrow> uuid \<Rightarrow> tracked_finding option" where
  "watched t \<equiv> hm_get (tk_findings t)"

abbreviation waiting :: "tracker \<Rightarrow> leg_key \<Rightarrow> uuid list" where
  "waiting t \<equiv> waiting_of (tk_by_leg t)"

definition ages_of :: "(uuid \<Rightarrow> tracked_finding option) \<Rightarrow> (int \<times> uuid) set" where
  "ages_of m = {(a, i). \<exists>f. m i = Some f \<and> tf_recorded_at f = a}"

text \<open>The three maps agree, on every block but the one that is being processed.\<close>

definition indices_ok :: "(leg_key \<Rightarrow> bool) \<Rightarrow> tracker \<Rightarrow> bool" where
  "indices_ok skip t \<longleftrightarrow> hm_distinct (tk_findings t) \<and>
     sorted (tk_by_age t) \<and> distinct (tk_by_age t) \<and> set (tk_by_age t) = ages_of (watched t) \<and>
     (\<forall>i f. watched t i = Some f \<longrightarrow> distinct (tf_pending f)) \<and>
     (\<forall>leg. distinct (waiting t leg)) \<and>
     (\<forall>leg i. i \<in> set (waiting t leg) \<longleftrightarrow> \<not> skip leg \<and> (\<exists>f. watched t i = Some f \<and> leg \<in> set (tf_pending f)))"

definition tracker_inv :: "tracker \<Rightarrow> bool" where
  "tracker_inv t \<longleftrightarrow> indices_ok (\<lambda>_. False) t"

lemma indices_ok_leg:
  "indices_ok skip t \<Longrightarrow> i \<in> set (waiting t leg) \<longleftrightarrow> \<not> skip leg \<and> (\<exists>f. watched t i = Some f \<and> leg \<in> set (tf_pending f))"
  unfolding indices_ok_def by blast

lemma indices_ok_waiting: "indices_ok skip t \<Longrightarrow> distinct (waiting t leg)"
  unfolding indices_ok_def by blast

lemma indices_ok_pending: "indices_ok skip t \<Longrightarrow> watched t i = Some f \<Longrightarrow> distinct (tf_pending f)"
  unfolding indices_ok_def by blast

lemma indices_okI:
  assumes "hm_distinct (tk_findings t)" "sorted (tk_by_age t)" "distinct (tk_by_age t)"
    and "set (tk_by_age t) = ages_of (watched t)"
    and "\<And>i f. watched t i = Some f \<Longrightarrow> distinct (tf_pending f)" "\<And>leg. distinct (waiting t leg)"
    and "\<And>leg i. i \<in> set (waiting t leg) \<longleftrightarrow> \<not> skip leg \<and> (\<exists>f. watched t i = Some f \<and> leg \<in> set (tf_pending f))"
  shows "indices_ok skip t"
  unfolding indices_ok_def using assms by blast

lemma ages_of_delete: "ages_of (m(i := None)) = ages_of m - {a. snd a = i}"
  by (auto simp: ages_of_def)

lemma ages_of_insert: "m i = None \<Longrightarrow> ages_of (m(i \<mapsto> f)) = insert (tf_recorded_at f, i) (ages_of m)"
  by (auto simp: ages_of_def)

lemma waiting_unlink: "waiting_of (unlink_leg i leg bl) leg' = (if leg' = leg then removeAll i (waiting_of bl leg') else waiting_of bl leg')"
  by (auto simp: waiting_of_def unlink_leg_def Let_def hm_get_insert hm_get_remove split: option.splits)

lemma waiting_unlink_all:
  "waiting_of (fold (unlink_leg i) legs bl) leg = (if leg \<in> set legs then removeAll i (waiting_of bl leg) else waiting_of bl leg)"
proof (induction legs arbitrary: bl)
  case (Cons l legs)
  have "removeAll i (removeAll i xs) = removeAll i xs" for xs :: "uuid list" by (induction xs) auto
  with Cons show ?case by (auto simp: waiting_unlink)
qed simp

lemma waiting_link_all:
  "waiting_of (fold (link_leg i) legs bl) leg = (if leg \<in> set legs then List.insert i (waiting_of bl leg) else waiting_of bl leg)"
proof (induction legs arbitrary: bl)
  case (Cons l legs)
  have "waiting_of (link_leg i l bl) leg = (if leg = l then List.insert i (waiting_of bl leg) else waiting_of bl leg)"
    by (simp add: waiting_of_def link_leg_def hm_get_insert)
  with Cons show ?case by (auto simp: List.insert_def)
qed simp

lemma tracker_new_inv: "tracker_inv (tracker_new r c)"
  by (simp add: tracker_inv_def indices_ok_def tracker_new_def ages_of_def waiting_of_def)

lemma remove_finding_spec:
  "remove_finding i t = (r, t') \<Longrightarrow> r = watched t i \<and> watched t' = (watched t)(i := None) \<and>
     tk_retention t' = tk_retention t \<and> tk_capacity t' = tk_capacity t"
  by (auto simp: remove_finding_def hm_get_remove fun_eq_iff split: option.splits)

lemma remove_finding_ok:
  assumes ok: "indices_ok skip t" and r: "remove_finding i t = (r, t')"
  shows "indices_ok skip t'"
proof (cases "watched t i")
  case None
  with ok r show ?thesis by (simp add: remove_finding_def)
next
  case (Some f)
  from r Some have t': "t' = t\<lparr>tk_findings := hm_remove i (tk_findings t), tk_by_age := removeAll (tf_recorded_at f, i) (tk_by_age t),
        tk_by_leg := fold (unlink_leg i) (tf_pending f) (tk_by_leg t)\<rparr>" by (simp add: remove_finding_def)
  have w: "watched t' = (watched t)(i := None)" using remove_finding_spec[OF r] by simp
  have ages: "set (tk_by_age t') = ages_of (watched t')"
  proof -
    have "a \<in> ages_of (watched t) \<Longrightarrow> snd a = i \<longleftrightarrow> a = (tf_recorded_at f, i)" for a
      using Some by (auto simp: ages_of_def)
    then have "ages_of (watched t) - {a. snd a = i} = ages_of (watched t) - {(tf_recorded_at f, i)}" by auto
    with ok show ?thesis unfolding w ages_of_delete by (simp add: indices_ok_def t')
  qed
  have sorted: "sorted (tk_by_age t')" "distinct (tk_by_age t')"
    using ok by (simp_all add: indices_ok_def t' removeAll_filter_not_eq sorted_filter[where f = "\<lambda>x. x", simplified])
  have leg: "j \<in> set (waiting t' l) \<longleftrightarrow> \<not> skip l \<and> (\<exists>g. watched t' j = Some g \<and> l \<in> set (tf_pending g))" for j l
  proof -
    note indices_ok_leg[OF ok, of j l]
    moreover have "set (waiting t' l) = (if l \<in> set (tf_pending f) then set (waiting t l) - {i} else set (waiting t l))"
      by (simp add: t' waiting_unlink_all)
    ultimately show ?thesis using Some by (auto simp: w)
  qed
  have dw: "distinct (waiting t' l)" for l
    using indices_ok_waiting[OF ok] by (simp add: t' waiting_unlink_all distinct_removeAll)
  have hd: "hm_distinct (tk_findings t')" using ok by (simp add: indices_ok_def t' hm_distinct_remove)
  have "distinct (tf_pending g)" if "watched t' j = Some g" for j g
    using that indices_ok_pending[OF ok, of j g] by (simp add: w split: if_splits)
  from hd sorted ages this dw leg show ?thesis by (rule indices_okI)
qed

lemma insert_raw_watched:
  "watched (insert_raw i b kind legs at_time t) =
     (watched t)(i \<mapsto> \<lparr>tf_bridge = b, tf_kind = kind, tf_pending = remdups legs, tf_recorded_at = at_time\<rparr>)"
  by (simp add: insert_raw_def Let_def hm_get_insert fun_eq_iff)

lemma insert_raw_fields [simp]:
  "tk_retention (insert_raw i b kind legs at_time t) = tk_retention t"
  "tk_capacity (insert_raw i b kind legs at_time t) = tk_capacity t"
  by (simp_all add: insert_raw_def Let_def)

lemma insert_raw_inv:
  assumes ok: "tracker_inv t" and fresh: "watched t i = None"
  shows "tracker_inv (insert_raw i b kind legs at_time t)"
proof -
  let ?t = "insert_raw i b kind legs at_time t"
  let ?f = "\<lparr>tf_bridge = b, tf_kind = kind, tf_pending = remdups legs, tf_recorded_at = at_time\<rparr>"
  from ok have ok': "indices_ok (\<lambda>_. False) t" by (simp add: tracker_inv_def)
  have w: "watched ?t = (watched t)(i \<mapsto> ?f)" by (rule insert_raw_watched)
  have age: "tk_by_age ?t = insort_insert (at_time, i) (tk_by_age t)" by (simp add: insert_raw_def Let_def)
  have "set (tk_by_age ?t) = ages_of (watched ?t)"
    using ok' ages_of_insert[of "watched t" i ?f, OF fresh] by (simp add: age w set_insort_insert indices_ok_def)
  moreover have "sorted (tk_by_age ?t)" "distinct (tk_by_age ?t)"
    using ok' by (simp_all add: age sorted_insort_insert distinct_insort_insert indices_ok_def)
  moreover have "set (waiting ?t l) = (if l \<in> set legs then insert i (set (waiting t l)) else set (waiting t l))"
    "distinct (waiting ?t l)" for l
    using indices_ok_waiting[OF ok'] by (simp_all add: insert_raw_def Let_def waiting_link_all)
  ultimately have parts: "set (tk_by_age ?t) = ages_of (watched ?t)" "sorted (tk_by_age ?t)" "distinct (tk_by_age ?t)"
    "\<And>l. set (waiting ?t l) = (if l \<in> set legs then insert i (set (waiting t l)) else set (waiting t l))"
    "\<And>l. distinct (waiting ?t l)" by blast+
  have hd: "hm_distinct (tk_findings ?t)" using ok' by (simp add: indices_ok_def insert_raw_def Let_def hm_distinct_insert)
  have pend: "distinct (tf_pending g)" if "watched ?t j = Some g" for j g
    using that indices_ok_pending[OF ok', of j g] by (auto simp: w split: if_splits)
  have "j \<in> set (waiting ?t l) \<longleftrightarrow> \<not> False \<and> (\<exists>g. watched ?t j = Some g \<and> l \<in> set (tf_pending g))" for l j
    using indices_ok_leg[OF ok', of j l] fresh by (auto simp: parts(4) w)
  from indices_okI[OF hd parts(2,3,1) pend parts(5) this] show ?thesis by (simp add: tracker_inv_def)
qed

section \<open>Finalization and reversal\<close>

text \<open>What a finalized and a reverted block do to the findings under watch.\<close>

definition clear_leg :: "leg_key \<Rightarrow> (uuid \<Rightarrow> tracked_finding option) \<Rightarrow> uuid \<Rightarrow> tracked_finding option" where
  "clear_leg leg m i = (case m i of
      None \<Rightarrow> None
    | Some f \<Rightarrow> if leg \<in> set (tf_pending f)
        then (if set (tf_pending f) = {leg} then None else Some (f\<lparr>tf_pending := removeAll leg (tf_pending f)\<rparr>))
        else Some f)"

definition drop_leg :: "leg_key \<Rightarrow> (uuid \<Rightarrow> tracked_finding option) \<Rightarrow> uuid \<Rightarrow> tracked_finding option" where
  "drop_leg leg m i = (case m i of
      None \<Rightarrow> None
    | Some f \<Rightarrow> if leg \<in> set (tf_pending f) then None else Some f)"

lemma indices_ok_forget:
  assumes "tracker_inv t"
  shows "indices_ok (\<lambda>l. l = leg) (t\<lparr>tk_by_leg := hm_remove leg (tk_by_leg t)\<rparr>)"
proof -
  have "waiting_of (hm_remove leg (tk_by_leg t)) l = (if l = leg then [] else waiting t l)" for l
    by (simp add: waiting_of_def hm_get_remove)
  with assms show ?thesis by (auto simp: tracker_inv_def indices_ok_def)
qed

lemma indices_ok_done:
  assumes "indices_ok (\<lambda>l. l = leg) t" "\<And>i f. watched t i = Some f \<Longrightarrow> leg \<notin> set (tf_pending f)"
  shows "tracker_inv t"
  using assms unfolding tracker_inv_def indices_ok_def by blast

lemma indices_ok_clear:
  assumes ok: "indices_ok (\<lambda>l. l = leg) t" and f: "watched t i = Some f"
  shows "indices_ok (\<lambda>l. l = leg) (t\<lparr>tk_findings := hm_insert i (f\<lparr>tf_pending := removeAll leg (tf_pending f)\<rparr>) (tk_findings t)\<rparr>)"
proof -
  let ?m = "(watched t)(i \<mapsto> f\<lparr>tf_pending := removeAll leg (tf_pending f)\<rparr>)"
  have w: "hm_get (hm_insert i (f\<lparr>tf_pending := removeAll leg (tf_pending f)\<rparr>) (tk_findings t)) = ?m"
    by (simp add: fun_eq_iff hm_get_insert)
  have "ages_of ?m = ages_of (watched t)" using f by (auto simp: ages_of_def)
  moreover have "(\<exists>g. ?m j = Some g \<and> l \<in> set (tf_pending g)) \<longleftrightarrow> (\<exists>g. watched t j = Some g \<and> l \<in> set (tf_pending g))"
    if "l \<noteq> leg" for j l using f that by auto
  ultimately show ?thesis
    using ok f by (auto simp: indices_ok_def w hm_distinct_insert distinct_removeAll)
qed

lemma finalize_each_spec:
  "finalize_each leg ids t = (out, t') \<Longrightarrow> indices_ok (\<lambda>l. l = leg) t \<Longrightarrow> distinct ids \<Longrightarrow>
     (\<And>i. i \<in> set ids \<longleftrightarrow> (\<exists>f. watched t i = Some f \<and> leg \<in> set (tf_pending f))) \<Longrightarrow>
     tracker_inv t' \<and> watched t' = clear_leg leg (watched t) \<and> tk_retention t' = tk_retention t \<and> tk_capacity t' = tk_capacity t \<and>
     set out = {summary_of i f | i f. watched t i = Some f \<and> set (tf_pending f) = {leg}}"
proof (induction ids arbitrary: t t' out)
  case Nil
  then have none: "watched t i = Some f \<Longrightarrow> leg \<notin> set (tf_pending f)" for i f by auto
  then have "clear_leg leg (watched t) = watched t"
    by (auto simp: clear_leg_def fun_eq_iff split: option.splits)
  with Nil indices_ok_done[OF Nil.prems(2)] none show ?case by auto
next
  case (Cons i ids)
  from Cons.prems(4)[of i] obtain f where f: "watched t i = Some f" "leg \<in> set (tf_pending f)" by auto
  define t1 where "t1 = t\<lparr>tk_findings := hm_insert i (f\<lparr>tf_pending := removeAll leg (tf_pending f)\<rparr>) (tk_findings t)\<rparr>"
  have ok1: "indices_ok (\<lambda>l. l = leg) t1" unfolding t1_def by (rule indices_ok_clear[OF Cons.prems(2) f(1)])
  have w1: "watched t1 = (watched t)(i \<mapsto> f\<lparr>tf_pending := removeAll leg (tf_pending f)\<rparr>)"
    by (simp add: t1_def fun_eq_iff hm_get_insert)
  show ?case
  proof (cases "set (tf_pending f) = {leg}")
    case True
    then have e: "removeAll leg (tf_pending f) = []" by (simp add: removeAll_filter_not_eq filter_empty_conv)
    obtain r t2 where r: "remove_finding i t1 = (r, t2)" by (rule prod.exhaust)
    from remove_finding_spec[OF r] w1 have t2: "r = Some (f\<lparr>tf_pending := removeAll leg (tf_pending f)\<rparr>)"
      "watched t2 = (watched t)(i := None)" "tk_retention t2 = tk_retention t" "tk_capacity t2 = tk_capacity t"
      by (auto simp: t1_def fun_eq_iff)
    have s: "summary_of i (f\<lparr>tf_pending := removeAll leg (tf_pending f)\<rparr>) = summary_of i f" by (simp add: summary_of_def)
    obtain out2 t3 where o: "finalize_each leg ids t2 = (out2, t3)" by (rule prod.exhaust)
    from Cons.prems(1) f r t2(1) o e s have res: "out = summary_of i f # out2" "t' = t3" by (auto simp: t1_def Let_def)
    have "distinct ids" "\<And>j. j \<in> set ids \<longleftrightarrow> (\<exists>f. watched t2 j = Some f \<and> leg \<in> set (tf_pending f))"
      using Cons.prems(3,4) by (auto simp: t2(2))
    from Cons.IH[OF o remove_finding_ok[OF ok1 r] this] have ih: "tracker_inv t3"
      "watched t3 = clear_leg leg ((watched t)(i := None))" "tk_retention t3 = tk_retention t" "tk_capacity t3 = tk_capacity t"
      "set out2 = {summary_of j g |j g. j \<noteq> i \<and> watched t j = Some g \<and> set (tf_pending g) = {leg}}"
      using t2 by (auto simp del: fun_upd_apply) (auto split: if_splits)
    have "(\<exists>j g. x = summary_of j g \<and> watched t j = Some g \<and> set (tf_pending g) = {leg}) \<longleftrightarrow>
        x = summary_of i f \<or> (\<exists>j g. x = summary_of j g \<and> j \<noteq> i \<and> watched t j = Some g \<and> set (tf_pending g) = {leg})" for x
      using f True by (metis option.inject)
    with ih(5) res(1) have "set out = {summary_of j g |j g. watched t j = Some g \<and> set (tf_pending g) = {leg}}" by auto
    moreover have "clear_leg leg ((watched t)(i := None)) = clear_leg leg (watched t)"
      using f True by (simp add: clear_leg_def fun_eq_iff)
    ultimately show ?thesis using ih(1-4) res(2) by simp
  next
    case False
    with f(2) have ne: "removeAll leg (tf_pending f) \<noteq> []" by (auto simp: removeAll_filter_not_eq filter_empty_conv)
    from Cons.prems(1) f ne have o: "finalize_each leg ids t1 = (out, t')" by (simp add: t1_def Let_def)
    have "distinct ids" "\<And>j. j \<in> set ids \<longleftrightarrow> (\<exists>f. watched t1 j = Some f \<and> leg \<in> set (tf_pending f))"
      using Cons.prems(3,4) by (auto simp: w1)
    from Cons.IH[OF o ok1 this] have ih: "tracker_inv t'" "watched t' = clear_leg leg (watched t1)"
      "tk_retention t' = tk_retention t" "tk_capacity t' = tk_capacity t"
      "set out = {summary_of i f |i f. watched t1 i = Some f \<and> set (tf_pending f) = {leg}}"
      by (simp_all add: t1_def)
    have cl: "clear_leg leg (watched t) = clear_leg leg (watched t1)"
      using f False by (auto simp: w1 clear_leg_def fun_eq_iff)
    have "watched t j = Some g \<and> set (tf_pending g) = {leg} \<longleftrightarrow> watched t1 j = Some g \<and> set (tf_pending g) = {leg}" for j g
    proof (cases "j = i")
      case True
      have "set (tf_pending (f\<lparr>tf_pending := removeAll leg (tf_pending f)\<rparr>)) \<noteq> {leg}" by auto
      with True f(1) False show ?thesis unfolding w1 by (metis fun_upd_same option.inject)
    next
      case False
      then show ?thesis by (simp add: w1)
    qed
    then have out: "{summary_of j g |j g. watched t j = Some g \<and> set (tf_pending g) = {leg}} =
        {summary_of j g |j g. watched t1 j = Some g \<and> set (tf_pending g) = {leg}}" by (simp only:)
    show ?thesis unfolding cl out by (intro conjI ih)
  qed
qed

lemma retract_each_spec:
  "retract_each ids t = (out, t') \<Longrightarrow> indices_ok skip t \<Longrightarrow> distinct ids \<Longrightarrow>
     indices_ok skip t' \<and> watched t' = (\<lambda>i. if i \<in> set ids then None else watched t i) \<and>
     tk_retention t' = tk_retention t \<and> tk_capacity t' = tk_capacity t \<and>
     set out = {summary_of i f | i f. i \<in> set ids \<and> watched t i = Some f}"
proof (induction ids arbitrary: t t' out)
  case (Cons i ids)
  obtain r t1 where r: "remove_finding i t = (r, t1)" by (rule prod.exhaust)
  obtain out2 t2 where o: "retract_each ids t1 = (out2, t2)" by (rule prod.exhaust)
  note s = remove_finding_spec[OF r]
  from Cons.IH[OF o remove_finding_ok[OF Cons.prems(2) r]] Cons.prems(3)
  have ih: "indices_ok skip t2" "watched t2 = (\<lambda>i. if i \<in> set ids then None else watched t1 i)"
    "tk_retention t2 = tk_retention t1" "tk_capacity t2 = tk_capacity t1"
    "set out2 = {summary_of i f | i f. i \<in> set ids \<and> watched t1 i = Some f}" by auto
  show ?case
  proof (cases r)
    case None
    with Cons.prems(1) r o have "out = out2" "t' = t2" by simp_all
    with None ih s Cons.prems(3) show ?thesis by (auto simp: fun_eq_iff)
  next
    case (Some f)
    with Cons.prems(1) r o have res: "out = summary_of i f # out2" "t' = t2" by simp_all
    from Some s have f: "watched t i = Some f" by simp
    have "(\<exists>j g. x = summary_of j g \<and> j \<in> set (i # ids) \<and> watched t j = Some g) \<longleftrightarrow>
        x = summary_of i f \<or> (\<exists>j g. x = summary_of j g \<and> j \<in> set ids \<and> watched t1 j = Some g)" for x
      using f s Cons.prems(3) by (auto simp: fun_eq_iff)
    with ih(5) res(1) have "set out = {summary_of j g |j g. j \<in> set (i # ids) \<and> watched t j = Some g}" by auto
    with ih(1-4) res(2) s show ?thesis by (auto simp: fun_eq_iff)
  qed
qed simp

lemma waiting_iff:
  "tracker_inv t \<Longrightarrow> i \<in> set (waiting t leg) \<longleftrightarrow> (\<exists>f. watched t i = Some f \<and> leg \<in> set (tf_pending f))"
  using indices_ok_leg[of "\<lambda>_. False" t i leg] by (simp add: tracker_inv_def)

lemma on_block_finalized_spec:
  assumes inv: "tracker_inv t" and o: "on_block_finalized leg t = (out, t')"
  shows "tracker_inv t' \<and> watched t' = clear_leg leg (watched t) \<and> tk_retention t' = tk_retention t \<and> tk_capacity t' = tk_capacity t \<and>
    set out = {summary_of i f | i f. watched t i = Some f \<and> set (tf_pending f) = {leg}}"
proof (cases "hm_get (tk_by_leg t) leg")
  case None
  then have "waiting t leg = []" by (simp add: waiting_of_def)
  with waiting_iff[OF inv, of _ leg] have none: "watched t i = Some f \<Longrightarrow> leg \<notin> set (tf_pending f)" for i f by auto
  then have "clear_leg leg (watched t) = watched t" by (auto simp: clear_leg_def fun_eq_iff split: option.splits)
  moreover have "{summary_of i f | i f. watched t i = Some f \<and> set (tf_pending f) = {leg}} = {}" using none by auto
  ultimately show ?thesis using o None inv by (simp add: on_block_finalized_def)
next
  case (Some ids)
  let ?t = "t\<lparr>tk_by_leg := hm_remove leg (tk_by_leg t)\<rparr>"
  have w: "waiting t leg = ids" using Some by (simp add: waiting_of_def)
  then have "distinct ids" using indices_ok_waiting[of "\<lambda>_. False" t leg] inv by (simp add: tracker_inv_def)
  moreover have "i \<in> set ids \<longleftrightarrow> (\<exists>f. watched ?t i = Some f \<and> leg \<in> set (tf_pending f))" for i
    using waiting_iff[OF inv, of i leg] w by simp
  moreover have "finalize_each leg ids ?t = (out, t')" using o Some by (simp add: on_block_finalized_def)
  ultimately show ?thesis using finalize_each_spec[OF _ indices_ok_forget[OF inv, of leg], of ids out t'] by simp
qed

lemma on_block_reverted_spec:
  assumes inv: "tracker_inv t" and o: "on_block_reverted leg t = (out, t')"
  shows "tracker_inv t' \<and> watched t' = drop_leg leg (watched t) \<and> tk_retention t' = tk_retention t \<and> tk_capacity t' = tk_capacity t \<and>
    set out = {summary_of i f | i f. watched t i = Some f \<and> leg \<in> set (tf_pending f)}"
proof (cases "hm_get (tk_by_leg t) leg")
  case None
  then have "waiting t leg = []" by (simp add: waiting_of_def)
  with waiting_iff[OF inv, of _ leg] have none: "watched t i = Some f \<Longrightarrow> leg \<notin> set (tf_pending f)" for i f by auto
  then have "drop_leg leg (watched t) = watched t" by (auto simp: drop_leg_def fun_eq_iff split: option.splits)
  moreover have "{summary_of i f | i f. watched t i = Some f \<and> leg \<in> set (tf_pending f)} = {}" using none by auto
  ultimately show ?thesis using o None inv by (simp add: on_block_reverted_def)
next
  case (Some ids)
  let ?t = "t\<lparr>tk_by_leg := hm_remove leg (tk_by_leg t)\<rparr>"
  have w: "waiting t leg = ids" using Some by (simp add: waiting_of_def)
  then have d: "distinct ids" using indices_ok_waiting[of "\<lambda>_. False" t leg] inv by (simp add: tracker_inv_def)
  have ids: "i \<in> set ids \<longleftrightarrow> (\<exists>f. watched t i = Some f \<and> leg \<in> set (tf_pending f))" for i
    using waiting_iff[OF inv, of i leg] w by simp
  have "retract_each ids ?t = (out, t')" using o Some by (simp add: on_block_reverted_def)
  from retract_each_spec[OF this indices_ok_forget[OF inv] d]
  have r: "indices_ok (\<lambda>l. l = leg) t'" "watched t' = (\<lambda>i. if i \<in> set ids then None else watched t i)"
    "tk_retention t' = tk_retention t" "tk_capacity t' = tk_capacity t"
    "set out = {summary_of i f | i f. i \<in> set ids \<and> watched t i = Some f}" by (simp_all cong: if_cong)
  have w': "watched t' = drop_leg leg (watched t)"
  proof
    fix i
    show "watched t' i = drop_leg leg (watched t) i"
      using ids[of i] by (auto simp: r(2) drop_leg_def split: option.splits)
  qed
  have "tracker_inv t'"
    by (rule indices_ok_done[OF r(1)]) (auto simp: w' drop_leg_def split: option.splits if_splits)
  moreover have "set out = {summary_of i f | i f. watched t i = Some f \<and> leg \<in> set (tf_pending f)}"
  proof -
    have "i \<in> set ids \<and> watched t i = Some f \<longleftrightarrow> watched t i = Some f \<and> leg \<in> set (tf_pending f)" for i f
      using ids[of i] by auto
    then show ?thesis unfolding r(5) by (simp only:)
  qed
  ultimately show ?thesis using w' r(3,4) by simp
qed

section \<open>Eviction\<close>

definition young :: "int \<Rightarrow> int \<Rightarrow> (uuid \<Rightarrow> tracked_finding option) \<Rightarrow> uuid \<Rightarrow> tracked_finding option" where
  "young now retention m i = (case m i of
      None \<Rightarrow> None
    | Some f \<Rightarrow> if now - tf_recorded_at f \<le> retention then Some f else None)"

lemma ages_iff: "tracker_inv t \<Longrightarrow> (a, i) \<in> set (tk_by_age t) \<longleftrightarrow> (\<exists>f. watched t i = Some f \<and> tf_recorded_at f = a)"
  by (simp add: tracker_inv_def indices_ok_def ages_of_def)

lemma remove_finding_less:
  assumes inv: "tracker_inv t" and i: "watched t i = Some f" and r: "remove_finding i t = (r, t1)"
  shows "r = Some f \<and> tracker_inv t1 \<and> Suc (length (tk_findings t1)) = length (tk_findings t)"
proof -
  from inv have "hm_distinct (tk_findings t)" by (simp add: tracker_inv_def indices_ok_def)
  from length_hm_remove[OF this, of i] i r have "Suc (length (tk_findings t1)) = length (tk_findings t)"
    by (auto simp: remove_finding_def)
  with remove_finding_spec[OF r] remove_finding_ok[of "\<lambda>_. False" t i r t1] inv i r show ?thesis
    by (simp add: tracker_inv_def)
qed

lemma expire_loop_spec:
  "tracker_inv t \<Longrightarrow> \<exists>out t'. expire_loop now t = Some (out, t') \<and> tracker_inv t' \<and>
     tk_retention t' = tk_retention t \<and> tk_capacity t' = tk_capacity t \<and>
     length (tk_findings t') \<le> length (tk_findings t) \<and> watched t' = young now (tk_retention t) (watched t) \<and>
     (length (tk_findings t') = length (tk_findings t) \<longrightarrow> out = [])"
proof (induction "length (tk_findings t)" arbitrary: t rule: less_induct)
  case less
  show ?case
  proof (cases "tk_by_age t")
    case Nil
    with ages_iff[OF less.prems] have "watched t i = None" for i by (cases "watched t i") auto
    then have "young now (tk_retention t) (watched t) = watched t" by (auto simp: young_def fun_eq_iff)
    with Nil less.prems show ?thesis by (subst expire_loop.simps) simp
  next
    case (Cons a rest)
    obtain at_time i where a: "a = (at_time, i)" by (rule prod.exhaust)
    from Cons a ages_iff[OF less.prems, of at_time i] obtain f where f: "watched t i = Some f" "tf_recorded_at f = at_time"
      by auto
    show ?thesis
    proof (cases "now - at_time \<le> tk_retention t")
      case True
      have "now - tf_recorded_at g \<le> tk_retention t" if "watched t j = Some g" for j g
      proof -
        have "(tf_recorded_at g, j) \<in> set (tk_by_age t)" using that ages_iff[OF less.prems] by blast
        moreover have "sorted (tk_by_age t)" using less.prems by (simp add: tracker_inv_def indices_ok_def)
        ultimately have "(at_time, i) \<le> (tf_recorded_at g, j)" using Cons a by (auto simp del: less_eq_prod_simp)
        then have "at_time \<le> tf_recorded_at g" by auto
        with True show ?thesis by simp
      qed
      then have "young now (tk_retention t) (watched t) = watched t" by (auto simp: young_def fun_eq_iff split: option.splits)
      with True Cons a less.prems show ?thesis by (subst expire_loop.simps) simp
    next
      case old: False
      obtain r t1 where r: "remove_finding i t = (r, t1)" by (rule prod.exhaust)
      from remove_finding_less[OF less.prems f(1) r] have t1: "r = Some f" "tracker_inv t1"
        "Suc (length (tk_findings t1)) = length (tk_findings t)" by simp_all
      from less.hyps[OF _ t1(2)] t1(3) obtain out t' where e: "expire_loop now t1 = Some (out, t')" "tracker_inv t'"
        "tk_retention t' = tk_retention t1" "tk_capacity t' = tk_capacity t1"
        "length (tk_findings t') \<le> length (tk_findings t1)" "watched t' = young now (tk_retention t1) (watched t1)"
        by fastforce
      from remove_finding_spec[OF r] have s: "watched t1 = (watched t)(i := None)" "tk_retention t1 = tk_retention t"
        "tk_capacity t1 = tk_capacity t" by simp_all
      have "young now (tk_retention t) ((watched t)(i := None)) = young now (tk_retention t) (watched t)"
        using f old by (auto simp: young_def fun_eq_iff)
      with e s t1(3) have rest: "watched t' = young now (tk_retention t) (watched t)" "tk_retention t' = tk_retention t"
        "tk_capacity t' = tk_capacity t" "length (tk_findings t') < length (tk_findings t)" by simp_all
      have "expire_loop now t = Some (summary_of i f # out, t')"
        using Cons a old r t1(1) e(1) by (subst expire_loop.simps) simp
      with rest e(2) show ?thesis by simp
    qed
  qed
qed

lemma capacity_loop_spec:
  "tracker_inv t \<Longrightarrow> \<exists>out t'. capacity_loop t = Some (out, t') \<and> tracker_inv t' \<and>
     tk_retention t' = tk_retention t \<and> tk_capacity t' = tk_capacity t \<and>
     length (tk_findings t') = min (length (tk_findings t)) (tk_capacity t) \<and>
     (\<forall>i. watched t' i = None \<or> watched t' i = watched t i) \<and>
     (length (tk_findings t) \<le> tk_capacity t \<longrightarrow> t' = t)"
proof (induction "length (tk_findings t)" arbitrary: t rule: less_induct)
  case less
  show ?case
  proof (cases "length (tk_findings t) \<le> tk_capacity t")
    case True
    with less.prems show ?thesis by (subst capacity_loop.simps) simp
  next
    case over: False
    have "tk_by_age t \<noteq> []"
    proof
      assume "tk_by_age t = []"
      with ages_iff[OF less.prems] have "watched t i = None" for i by (cases "watched t i") auto
      then have "tk_findings t = []" by (cases "tk_findings t") (auto split: if_splits, metis option.distinct(1))
      with over show False by simp
    qed
    then obtain at_time i rest where a: "tk_by_age t = (at_time, i) # rest" by (cases "tk_by_age t") auto
    with ages_iff[OF less.prems, of at_time i] obtain f where f: "watched t i = Some f" by auto
    obtain r t1 where r: "remove_finding i t = (r, t1)" by (rule prod.exhaust)
    from remove_finding_less[OF less.prems f r] have t1: "r = Some f" "tracker_inv t1"
      "Suc (length (tk_findings t1)) = length (tk_findings t)" by simp_all
    from remove_finding_spec[OF r] have s: "watched t1 = (watched t)(i := None)" "tk_retention t1 = tk_retention t"
      "tk_capacity t1 = tk_capacity t" by simp_all
    from less.hyps[OF _ t1(2)] t1(3) obtain out t' where e: "capacity_loop t1 = Some (out, t')" "tracker_inv t'"
      "tk_retention t' = tk_retention t1" "tk_capacity t' = tk_capacity t1"
      "length (tk_findings t') = min (length (tk_findings t1)) (tk_capacity t1)"
      "\<forall>j. watched t' j = None \<or> watched t' j = watched t1 j" by fastforce
    have "watched t' j = None \<or> watched t' j = watched t j" for j
      using e(6)[rule_format, of j] s(1) by (cases "j = i") auto
    moreover have "capacity_loop t = Some (summary_of i f # out, t')"
      using over a r t1(1) e(1) by (subst capacity_loop.simps) simp
    ultimately show ?thesis using e s t1(3) over by auto
  qed
qed

lemma sweep_spec:
  assumes "tracker_inv t"
  obtains out t' where "sweep now t = Some (out, t')" "tracker_inv t'" "tk_retention t' = tk_retention t" "tk_capacity t' = tk_capacity t"
    "tk_capacity t = 0 \<or> length (tk_findings t') \<le> tk_capacity t" "length (tk_findings t') \<le> length (tk_findings t)"
    "\<And>i. watched t' i = None \<or> watched t' i = young now (tk_retention t) (watched t) i"
    "tk_capacity t = 0 \<or> length (tk_findings t) \<le> tk_capacity t \<Longrightarrow> watched t' = young now (tk_retention t) (watched t)"
proof -
  from expire_loop_spec[OF assms, of now] obtain out1 t1 where e: "expire_loop now t = Some (out1, t1)" "tracker_inv t1"
    "tk_retention t1 = tk_retention t" "tk_capacity t1 = tk_capacity t" "length (tk_findings t1) \<le> length (tk_findings t)"
    "watched t1 = young now (tk_retention t) (watched t)" by blast
  show thesis
  proof (cases "tk_capacity t = 0")
    case True
    with e that[of out1 t1] show thesis by (simp add: sweep_def)
  next
    case False
    from capacity_loop_spec[OF e(2)] obtain out2 t2 where c: "capacity_loop t1 = Some (out2, t2)" "tracker_inv t2"
      "tk_retention t2 = tk_retention t1" "tk_capacity t2 = tk_capacity t1"
      "length (tk_findings t2) = min (length (tk_findings t1)) (tk_capacity t1)"
      "\<forall>i. watched t2 i = None \<or> watched t2 i = watched t1 i"
      "length (tk_findings t1) \<le> tk_capacity t1 \<longrightarrow> t2 = t1" by blast
    have "sweep now t = Some (out1 @ out2, t2)" using e c False by (simp add: sweep_def)
    moreover have "watched t2 i = None \<or> watched t2 i = young now (tk_retention t) (watched t) i" for i
      using c(6) e(6) by simp
    ultimately show thesis using e c False by (intro that[of "out1 @ out2" t2]) auto
  qed
qed

section \<open>Runs of the tracker\<close>

fun live_run :: "finding_entry list \<Rightarrow> tracker \<Rightarrow> (finding_summary list list \<times> tracker) option" where
  "live_run [] t = Some ([], t)"
| "live_run (e # es) t = do {
     (out, t1) \<leftarrow> live_call e t;
     (outs, t2) \<leftarrow> live_run es t1;
     Some (out # outs, t2)
   }"

fun recorded_ids :: "finding_entry list \<Rightarrow> uuid list" where
  "recorded_ids [] = []"
| "recorded_ids (Recorded i b kind legs now # es) = i # recorded_ids es"
| "recorded_ids (_ # es) = recorded_ids es"

definition unwatched :: "uuid list \<Rightarrow> tracker \<Rightarrow> bool" where
  "unwatched ids t \<longleftrightarrow> (\<forall>i\<in>set ids. watched t i = None)"

definition within_capacity :: "tracker \<Rightarrow> bool" where
  "within_capacity t \<longleftrightarrow> tk_capacity t = 0 \<or> tracker_len t \<le> tk_capacity t"

lemma len_card: "hm_distinct m \<Longrightarrow> length m = card (dom (hm_get m))"
  using distinct_card[of "hm_keys m"] by (simp add: hm_distinct_def dom_map_of_conv_image_fst)

lemma len_mono:
  assumes "tracker_inv t" "tracker_inv t'" "\<And>i. watched t i = None \<Longrightarrow> watched t' i = None"
  shows "length (tk_findings t') \<le> length (tk_findings t)"
proof -
  have "dom (watched t') \<subseteq> dom (watched t)" using assms(3) by force
  then have "card (dom (watched t')) \<le> card (dom (watched t))" by (rule card_mono[OF finite_dom_map_of])
  with assms(1,2) show ?thesis by (simp add: tracker_inv_def indices_ok_def len_card)
qed

lemma clear_leg_None: "m i = None \<Longrightarrow> clear_leg leg m i = None"
  by (simp add: clear_leg_def)

lemma drop_leg_None: "m i = None \<Longrightarrow> drop_leg leg m i = None"
  by (simp add: drop_leg_def)

lemma live_call_spec:
  assumes inv: "tracker_inv t" and fresh: "unwatched (recorded_ids [e]) t"
  obtains out t' where "live_call e t = Some (out, t')" "tracker_inv t'" "tk_retention t' = tk_retention t" "tk_capacity t' = tk_capacity t"
    "within_capacity t \<Longrightarrow> within_capacity t'" "\<And>i. watched t i = None \<Longrightarrow> i \<notin> set (recorded_ids [e]) \<Longrightarrow> watched t' i = None"
proof (cases e)
  case (Recorded i b kind legs now)
  let ?t = "insert_raw i b kind legs now t"
  have inv': "tracker_inv ?t" by (rule insert_raw_inv[OF inv]) (use fresh Recorded in \<open>simp add: unwatched_def\<close>)
  obtain out t' where s: "sweep now ?t = Some (out, t')" "tracker_inv t'"
    "tk_retention t' = tk_retention t" "tk_capacity t' = tk_capacity t"
    "tk_capacity t = 0 \<or> length (tk_findings t') \<le> tk_capacity t"
    "\<And>i. watched t' i = None \<or> watched t' i = young now (tk_retention t) (watched ?t) i"
    by (rule sweep_spec[OF inv', of now]) (metis insert_raw_fields)
  have "watched t' j = None" if "watched t j = None" "j \<noteq> i" for j
    using s(6)[of j] that by (auto simp: young_def insert_raw_watched)
  with s Recorded that[of out t'] show thesis by (simp add: record_finding_def within_capacity_def tracker_len_def)
next
  case (LegFinalized c h)
  obtain out t' where o: "on_block_finalized (c, h) t = (out, t')" by (rule prod.exhaust)
  note s = on_block_finalized_spec[OF inv o]
  have "length (tk_findings t') \<le> length (tk_findings t)" using s by (intro len_mono[OF inv]) (simp_all add: clear_leg_None)
  with s LegFinalized o show thesis
    by (intro that[of out t']) (auto simp: within_capacity_def tracker_len_def clear_leg_None)
next
  case (LegReverted c h)
  obtain out t' where o: "on_block_reverted (c, h) t = (out, t')" by (rule prod.exhaust)
  note s = on_block_reverted_spec[OF inv o]
  have "length (tk_findings t') \<le> length (tk_findings t)" using s by (intro len_mono[OF inv]) (simp_all add: drop_leg_None)
  with s LegReverted o show thesis
    by (intro that[of out t']) (auto simp: within_capacity_def tracker_len_def drop_leg_None)
qed

lemma recorded_ids_Cons: "recorded_ids (e # es) = recorded_ids [e] @ recorded_ids es"
  by (cases e) simp_all

lemma live_run_total:
  "tracker_inv t \<Longrightarrow> within_capacity t \<Longrightarrow> distinct (recorded_ids es) \<Longrightarrow> unwatched (recorded_ids es) t \<Longrightarrow>
     \<exists>outs t'. live_run es t = Some (outs, t') \<and> tracker_inv t' \<and> within_capacity t' \<and> tk_capacity t' = tk_capacity t"
proof (induction es arbitrary: t)
  case (Cons e es)
  have "unwatched (recorded_ids [e]) t" using Cons.prems(4) by (simp add: unwatched_def recorded_ids_Cons[of e es])
  from live_call_spec[OF Cons.prems(1) this] obtain out t1 where c: "live_call e t = Some (out, t1)" "tracker_inv t1"
    "tk_capacity t1 = tk_capacity t" "within_capacity t1" "\<And>i. watched t i = None \<Longrightarrow> i \<notin> set (recorded_ids [e]) \<Longrightarrow> watched t1 i = None"
    using Cons.prems(2) by metis
  have "distinct (recorded_ids es)" "unwatched (recorded_ids es) t1"
    using Cons.prems(3,4) c(5) by (auto simp: recorded_ids_Cons[of e es] unwatched_def)
  from Cons.IH[OF c(2,4) this] c(1,3) show ?case by auto
qed simp

text \<open>
  C40: Every sequence of calls returns, eviction loops included, keeps the three indices in lockstep and
  the number of findings within a non-zero capacity. Finding identifiers are fresh.
\<close>

theorem tracker_calls_return:
  assumes "distinct (recorded_ids es)"
  shows "\<exists>outs t. live_run es (tracker_new retention capacity) = Some (outs, t) \<and> tracker_inv t \<and>
    (capacity = 0 \<or> tracker_len t \<le> capacity)"
proof -
  have "within_capacity (tracker_new retention capacity)" "unwatched (recorded_ids es) (tracker_new retention capacity)"
    by (simp_all add: within_capacity_def tracker_len_def tracker_new_def unwatched_def)
  from live_run_total[OF tracker_new_inv this(1) assms this(2)] show ?thesis
    by (auto simp: within_capacity_def tracker_new_def)
qed

section \<open>A finding is as final as its least final leg\<close>

definition reports :: "finding_summary list \<Rightarrow> uuid \<Rightarrow> bool" where
  "reports out i \<longleftrightarrow> (\<exists>s\<in>set out. fs_finding_id s = i)"

fun is_revert :: "finding_entry \<Rightarrow> bool" where
  "is_revert (LegReverted c h) = True"
| "is_revert _ = False"

fun is_final :: "finding_entry \<Rightarrow> bool" where
  "is_final (LegFinalized c h) = True"
| "is_final _ = False"

definition retracted_in :: "uuid \<Rightarrow> finding_entry list \<Rightarrow> finding_summary list list \<Rightarrow> bool" where
  "retracted_in i es outs \<longleftrightarrow> (\<exists>(e, out)\<in>set (zip es outs). is_revert e \<and> reports out i)"

definition finalized_in :: "uuid \<Rightarrow> finding_entry list \<Rightarrow> finding_summary list list \<Rightarrow> bool" where
  "finalized_in i es outs \<longleftrightarrow> (\<exists>(e, out)\<in>set (zip es outs). is_final e \<and> reports out i)"

text \<open>Some leg's block is reverted before it is finalized; every leg's block is finalized.\<close>

definition reverted_first :: "leg_key list \<Rightarrow> finding_entry list \<Rightarrow> bool" where
  "reverted_first legs es \<longleftrightarrow> (\<exists>us c h ws. es = us @ LegReverted c h # ws \<and> (c, h) \<in> set legs \<and> LegFinalized c h \<notin> set us)"

definition all_finalized :: "leg_key list \<Rightarrow> finding_entry list \<Rightarrow> bool" where
  "all_finalized legs es \<longleftrightarrow> (\<forall>(c, h)\<in>set legs. LegFinalized c h \<in> set es)"

definition recorded_by :: "int \<Rightarrow> finding_entry list \<Rightarrow> bool" where
  "recorded_by latest es \<longleftrightarrow> (\<forall>i b kind legs now. Recorded i b kind legs now \<in> set es \<longrightarrow> now \<le> latest)"

lemma reverted_first_Cons:
  "reverted_first legs (e # es) \<longleftrightarrow>
     (case e of Recorded i b k ls n \<Rightarrow> reverted_first legs es
      | LegFinalized c h \<Rightarrow> reverted_first (removeAll (c, h) legs) es
      | LegReverted c h \<Rightarrow> (c, h) \<in> set legs \<or> reverted_first legs es)" (is "?l \<longleftrightarrow> ?r")
proof
  assume ?l
  then obtain us c h ws where s: "e # es = us @ LegReverted c h # ws" "(c, h) \<in> set legs" "LegFinalized c h \<notin> set us"
    by (auto simp: reverted_first_def)
  show ?r
  proof (cases us)
    case Nil
    with s show ?thesis by auto
  next
    case (Cons u us')
    with s have "reverted_first legs es" "e \<noteq> LegFinalized c h" "es = us' @ LegReverted c h # ws" "LegFinalized c h \<notin> set us'"
      by (auto simp: reverted_first_def)
    with s(2) show ?thesis by (auto simp: reverted_first_def split: finding_entry.splits)
  qed
next
  assume r: ?r
  show ?l
  proof (cases "\<exists>c h. e = LegReverted c h \<and> (c, h) \<in> set legs")
    case True
    then obtain c h where "e # es = [] @ LegReverted c h # es" "(c, h) \<in> set legs" "LegFinalized c h \<notin> set []" by auto
    then show ?thesis unfolding reverted_first_def by blast
  next
    case False
    with r obtain us c h ws where "es = us @ LegReverted c h # ws" "(c, h) \<in> set legs" "LegFinalized c h \<notin> set us" "e \<noteq> LegFinalized c h"
      by (auto simp: reverted_first_def split: finding_entry.splits)
    then have "e # es = (e # us) @ LegReverted c h # ws \<and> (c, h) \<in> set legs \<and> LegFinalized c h \<notin> set (e # us)" by auto
    then show ?thesis unfolding reverted_first_def by blast
  qed
qed

lemma all_finalized_Cons:
  "all_finalized legs (e # es) \<longleftrightarrow> all_finalized (case e of LegFinalized c h \<Rightarrow> removeAll (c, h) legs | _ \<Rightarrow> legs) es"
  by (auto simp: all_finalized_def split: finding_entry.splits)

lemma in_Cons [simp]:
  "retracted_in i (e # es) (out # outs) \<longleftrightarrow> is_revert e \<and> reports out i \<or> retracted_in i es outs"
  "finalized_in i (e # es) (out # outs) \<longleftrightarrow> is_final e \<and> reports out i \<or> finalized_in i es outs"
  by (auto simp: retracted_in_def finalized_in_def)

lemma in_Nil [simp]: "\<not> retracted_in i [] outs" "\<not> finalized_in i [] outs"
  by (simp_all add: retracted_in_def finalized_in_def)

lemma reports_set:
  "set out = {summary_of j f | j f. watched t j = Some f \<and> P f} \<Longrightarrow> reports out i \<longleftrightarrow> (\<exists>f. watched t i = Some f \<and> P f)"
proof -
  assume out: "set out = {summary_of j f | j f. watched t j = Some f \<and> P f}"
  have "reports out i \<longleftrightarrow> (\<exists>j f. watched t j = Some f \<and> P f \<and> fs_finding_id (summary_of j f) = i)"
    unfolding reports_def out by blast
  then show ?thesis by (simp add: summary_of_def)
qed

lemma gone_stays_gone:
  "tracker_inv t \<Longrightarrow> live_run es t = Some (outs, t') \<Longrightarrow> distinct (recorded_ids es) \<Longrightarrow> unwatched (i # recorded_ids es) t \<Longrightarrow>
     i \<notin> set (recorded_ids es) \<Longrightarrow> \<not> retracted_in i es outs \<and> \<not> finalized_in i es outs"
proof (induction es arbitrary: t outs)
  case (Cons e es)
  have fresh: "unwatched (recorded_ids [e]) t" using Cons.prems(4) by (simp add: unwatched_def recorded_ids_Cons[of e es])
  from live_call_spec[OF Cons.prems(1) fresh] obtain out t1 where c: "live_call e t = Some (out, t1)" "tracker_inv t1"
    "\<And>i. watched t i = None \<Longrightarrow> i \<notin> set (recorded_ids [e]) \<Longrightarrow> watched t1 i = None" by metis
  from Cons.prems(2) c(1) obtain outs1 where o: "outs = out # outs1" "live_run es t1 = Some (outs1, t')"
    by (auto simp: bind_eq_Some_conv)
  have "distinct (recorded_ids es)" "unwatched (i # recorded_ids es) t1" "i \<notin> set (recorded_ids es)"
    using Cons.prems(3-5) c(3) by (auto simp: recorded_ids_Cons[of e es] unwatched_def)
  note ih = Cons.IH[OF c(2) o(2) this]
  have "watched t i = None" using Cons.prems(4) by (simp add: unwatched_def)
  then have "\<not> ((is_revert e \<or> is_final e) \<and> reports out i)"
    using c(1) on_block_finalized_spec[OF Cons.prems(1)] on_block_reverted_spec[OF Cons.prems(1)]
    by (cases e) (auto simp: reports_set[of _ t])
  with ih o(1) show ?case by auto
qed simp

lemma reverted_first_Nil [simp]: "\<not> reverted_first [] es" "\<not> reverted_first legs []"
  by (simp_all add: reverted_first_def)

lemma all_finalized_Nil [simp]: "all_finalized [] es" "all_finalized legs [] \<longleftrightarrow> legs = []"
  by (cases legs; force simp: all_finalized_def)+

lemma rest_fresh:
  assumes "distinct (recorded_ids (e # es))" "unwatched (recorded_ids (e # es)) t"
    and "\<And>i. watched t i = None \<Longrightarrow> i \<notin> set (recorded_ids [e]) \<Longrightarrow> watched t1 i = None"
  shows "distinct (recorded_ids es)" "unwatched (recorded_ids es) t1"
proof -
  from assms(1) show "distinct (recorded_ids es)" by (simp add: recorded_ids_Cons[of e es])
  have "i \<notin> set (recorded_ids [e])" "watched t i = None" if "i \<in> set (recorded_ids es)" for i
    using assms(1,2) that by (auto simp: recorded_ids_Cons[of e es] unwatched_def)
  with assms(3) show "unwatched (recorded_ids es) t1" by (simp add: unwatched_def)
qed

lemma fate:
  "tracker_inv t \<Longrightarrow> tk_capacity t = 0 \<Longrightarrow> watched t i = Some f \<Longrightarrow> tf_pending f \<noteq> [] \<Longrightarrow> live_run es t = Some (outs, t') \<Longrightarrow>
     distinct (recorded_ids es) \<Longrightarrow> unwatched (recorded_ids es) t \<Longrightarrow> recorded_by (tf_recorded_at f + tk_retention t) es \<Longrightarrow>
     (retracted_in i es outs \<longleftrightarrow> reverted_first (tf_pending f) es) \<and>
     (finalized_in i es outs \<longleftrightarrow> all_finalized (tf_pending f) es \<and> \<not> reverted_first (tf_pending f) es)"
proof (induction es arbitrary: t f outs)
  case (Cons e es)
  note inv = Cons.prems(1) and f = Cons.prems(3)
  have fresh: "unwatched (recorded_ids [e]) t" using Cons.prems(7) by (simp add: unwatched_def recorded_ids_Cons[of e es])
  from live_call_spec[OF inv fresh] obtain out t1 where c: "live_call e t = Some (out, t1)" "tracker_inv t1"
    "tk_retention t1 = tk_retention t" "tk_capacity t1 = tk_capacity t"
    "\<And>i. watched t i = None \<Longrightarrow> i \<notin> set (recorded_ids [e]) \<Longrightarrow> watched t1 i = None" by metis
  from Cons.prems(5) c(1) obtain outs1 where o: "outs = out # outs1" "live_run es t1 = Some (outs1, t')"
    by (auto simp: bind_eq_Some_conv)
  note rest = rest_fresh[OF Cons.prems(6,7) c(5)]
  have late: "recorded_by (tf_recorded_at f + tk_retention t1) es"
    using Cons.prems(8) c(3) by (auto simp: recorded_by_def)
  have i: "i \<notin> set (recorded_ids (e # es))" using Cons.prems(3,7) by (auto simp: unwatched_def)
  have gone: "\<not> retracted_in i es outs1 \<and> \<not> finalized_in i es outs1" if "watched t1 i = None"
    by (rule gone_stays_gone[OF c(2) o(2) rest(1)])
       (use that i rest(2) in \<open>auto simp: unwatched_def recorded_ids_Cons[of e es]\<close>)
  have ih: "(retracted_in i es outs1 \<longleftrightarrow> reverted_first (tf_pending g) es) \<and>
     (finalized_in i es outs1 \<longleftrightarrow> all_finalized (tf_pending g) es \<and> \<not> reverted_first (tf_pending g) es)"
    if "watched t1 i = Some g" "tf_pending g \<noteq> []" "tf_recorded_at g = tf_recorded_at f" for g
    by (rule Cons.IH[OF c(2) _ that(1,2) o(2) rest(1,2)]) (use Cons.prems(2) c(4) late that(3) in simp_all)
  show ?case
  proof (cases e)
    case (Recorded j b kind legs now)
    let ?t = "insert_raw j b kind legs now t"
    have "tracker_inv ?t" by (rule insert_raw_inv[OF inv]) (use fresh Recorded in \<open>simp add: unwatched_def\<close>)
    then have "watched t1 = young now (tk_retention t) (watched ?t)"
      by (rule sweep_spec[where now = now]) (use c(1) Recorded Cons.prems(2) in \<open>simp add: record_finding_def\<close>)
    moreover have "now \<le> tf_recorded_at f + tk_retention t"
      using Cons.prems(8) Recorded unfolding recorded_by_def by (metis list.set_intros(1))
    moreover have "j \<noteq> i" using Recorded i by auto
    ultimately have "watched t1 i = Some f" using f by (simp add: young_def insert_raw_watched)
    from ih[OF this Cons.prems(4) refl] o(1) Recorded show ?thesis
      by (simp add: reverted_first_Cons all_finalized_Cons)
  next
    case (LegFinalized ch h)
    with c(1) have "on_block_finalized (ch, h) t = (out, t1)" by simp
    note s = on_block_finalized_spec[OF inv this]
    have rep: "reports out i \<longleftrightarrow> set (tf_pending f) = {(ch, h)}" using s f reports_set[of out t "\<lambda>f. set (tf_pending f) = {(ch, h)}" i] by simp
    consider "(ch, h) \<notin> set (tf_pending f)" | "set (tf_pending f) = {(ch, h)}"
      | "(ch, h) \<in> set (tf_pending f)" "set (tf_pending f) \<noteq> {(ch, h)}" by blast
    then show ?thesis
    proof cases
      case 1
      then have "watched t1 i = Some f" using s f by (simp add: clear_leg_def)
      from ih[OF this Cons.prems(4) refl] 1 o(1) LegFinalized rep show ?thesis
        by (auto simp: reverted_first_Cons all_finalized_Cons removeAll_id)
    next
      case 2
      then have "watched t1 i = None" "removeAll (ch, h) (tf_pending f) = []"
        using s f by (simp_all add: clear_leg_def removeAll_filter_not_eq filter_empty_conv)
      with gone 2 o(1) LegFinalized rep show ?thesis by (simp add: reverted_first_Cons all_finalized_Cons)
    next
      case 3
      then have "watched t1 i = Some (f\<lparr>tf_pending := removeAll (ch, h) (tf_pending f)\<rparr>)" "removeAll (ch, h) (tf_pending f) \<noteq> []"
        using s f by (auto simp: clear_leg_def removeAll_filter_not_eq filter_empty_conv)
      with ih[of "f\<lparr>tf_pending := removeAll (ch, h) (tf_pending f)\<rparr>"] 3 o(1) LegFinalized rep show ?thesis
        by (simp add: reverted_first_Cons all_finalized_Cons)
    qed
  next
    case (LegReverted ch h)
    with c(1) have "on_block_reverted (ch, h) t = (out, t1)" by simp
    note s = on_block_reverted_spec[OF inv this]
    have rep: "reports out i \<longleftrightarrow> (ch, h) \<in> set (tf_pending f)"
      using s f reports_set[of out t "\<lambda>f. (ch, h) \<in> set (tf_pending f)" i] by simp
    show ?thesis
    proof (cases "(ch, h) \<in> set (tf_pending f)")
      case True
      then have "watched t1 i = None" using s f by (simp add: drop_leg_def)
      with gone True o(1) LegReverted rep show ?thesis by (simp add: reverted_first_Cons)
    next
      case False
      then have "watched t1 i = Some f" using s f by (simp add: drop_leg_def)
      from ih[OF this Cons.prems(4) refl] False o(1) LegReverted rep show ?thesis
        by (simp add: reverted_first_Cons all_finalized_Cons)
    qed
  qed
qed (simp add: retracted_in_def finalized_in_def)

lemma recorded_fate:
  assumes "tracker_inv t" "tk_capacity t = 0" "0 \<le> tk_retention t" "legs \<noteq> []"
    and "distinct (recorded_ids (Recorded i b kind legs now # es))" "unwatched (recorded_ids (Recorded i b kind legs now # es)) t"
    and "recorded_by (now + tk_retention t) es"
    and "live_run (Recorded i b kind legs now # es) t = Some (out # outs, t')"
  shows "(retracted_in i es outs \<longleftrightarrow> reverted_first legs es) \<and>
    (finalized_in i es outs \<longleftrightarrow> all_finalized legs es \<and> \<not> reverted_first legs es)"
proof -
  let ?t = "insert_raw i b kind legs now t"
  let ?f = "\<lparr>tf_bridge = b, tf_kind = kind, tf_pending = remdups legs, tf_recorded_at = now\<rparr>"
  have "tracker_inv ?t" by (rule insert_raw_inv[OF assms(1)]) (use assms(6) in \<open>simp add: unwatched_def\<close>)
  then obtain out1 t1 where s: "sweep now ?t = Some (out1, t1)" "tracker_inv t1" "tk_retention t1 = tk_retention t"
    "tk_capacity t1 = 0" "watched t1 = young now (tk_retention t) (watched ?t)"
    by (rule sweep_spec[where now = now]) (simp add: assms(2))
  from assms(8) s(1) have run: "live_run es t1 = Some (outs, t')" by (auto simp: record_finding_def bind_eq_Some_conv)
  have w: "watched t1 i = Some ?f" using assms(3) by (simp add: s(5) young_def insert_raw_watched)
  have "distinct (recorded_ids es)" "unwatched (recorded_ids es) t1"
    using assms(5,6) by (auto simp: unwatched_def s(5) young_def insert_raw_watched)
  from fate[OF s(2,4) w _ run this] assms(4,7) s(3)
  have "(retracted_in i es outs \<longleftrightarrow> reverted_first (remdups legs) es) \<and>
    (finalized_in i es outs \<longleftrightarrow> all_finalized (remdups legs) es \<and> \<not> reverted_first (remdups legs) es)" by simp
  moreover have "reverted_first (remdups legs) es = reverted_first legs es" by (simp add: reverted_first_def)
  moreover have "all_finalized (remdups legs) es = all_finalized legs es" by (simp add: all_finalized_def)
  ultimately show ?thesis by simp
qed

text \<open>
  C8: A finding is as final as its least final leg. Whatever else is recorded, finalized and reverted, a
  recorded finding is retracted exactly when one of its legs' blocks is reverted that was not
  finalized before, and reported fully final exactly when that never happens and every leg's block is
  finalized. The capacity is unlimited here and no later finding is recorded after the retention of
  this one, so nothing is evicted.
\<close>

theorem as_final_as_least_final_leg:
  assumes "tracker_inv t" "tk_capacity t = 0" "0 \<le> tk_retention t" "legs \<noteq> []"
    and "distinct (recorded_ids (Recorded i b kind legs now # es))" "unwatched (recorded_ids (Recorded i b kind legs now # es)) t"
    and "recorded_by (now + tk_retention t) es"
    and "live_run (Recorded i b kind legs now # es) t = Some (out # outs, t')"
  shows "(retracted_in i es outs \<longleftrightarrow> reverted_first legs es) \<and>
    (finalized_in i es outs \<longleftrightarrow> all_finalized legs es \<and> \<not> reverted_first legs es)"
  using assms by (rule recorded_fate)

section \<open>Replaying the journal\<close>

text \<open>
  A call with the identifiers recorded so far, as an event-sourced operation: an entry is journalled
  as it is. Live and replayed tracker agree on what a sweep at \<open>now\<close> leaves.
\<close>

definition journalled_call :: "uuid list \<times> tracker \<Rightarrow> finding_entry \<Rightarrow> ((uuid list \<times> tracker) \<times> finding_entry list) option" where
  "journalled_call s e = map_option (\<lambda>(out, t). ((recorded_ids [e] @ fst s, t), [e])) (live_call e (snd s))"

fun finding_ok :: "int \<Rightarrow> uuid list \<times> tracker \<Rightarrow> finding_entry \<Rightarrow> bool" where
  "finding_ok latest (ids, t) (Recorded i b kind legs now) \<longleftrightarrow> i \<notin> set ids \<and> now \<le> latest"
| "finding_ok latest (ids, t) _ \<longleftrightarrow> True"

definition finding_agrees :: "int \<Rightarrow> uuid list \<times> tracker \<Rightarrow> tracker \<Rightarrow> bool" where
  "finding_agrees now s r \<longleftrightarrow> tracker_inv (snd s) \<and> tracker_inv r \<and> tk_capacity (snd s) = 0 \<and> tk_capacity r = 0 \<and>
     tk_retention (snd s) = tk_retention r \<and>
     (\<forall>i. i \<notin> set (fst s) \<longrightarrow> watched (snd s) i = None \<and> watched r i = None) \<and>
     young now (tk_retention r) (watched (snd s)) = young now (tk_retention r) (watched r)"

lemma young_clear: "young now r (clear_leg leg m) = clear_leg leg (young now r m)"
  by (auto simp: young_def clear_leg_def fun_eq_iff split: option.splits)

lemma young_drop: "young now r (drop_leg leg m) = drop_leg leg (young now r m)"
  by (auto simp: young_def drop_leg_def fun_eq_iff split: option.splits)

lemma young_upd: "young now r (m(i \<mapsto> f)) = (young now r m)(i := if now - tf_recorded_at f \<le> r then Some f else None)"
  by (auto simp: young_def fun_eq_iff)

lemma young_young: "s \<le> now \<Longrightarrow> young now r (young s r m) = young now r m"
  by (auto simp: young_def fun_eq_iff split: option.splits)

lemma journalled_call_agrees:
  assumes ag: "finding_agrees now s r" and ok: "finding_ok now s e"
  shows "\<exists>s' es. journalled_call s e = Some (s', es) \<and> finding_agrees now s' (fold apply_finding_entry es r)"
proof -
  obtain ids t where s: "s = (ids, t)" by (rule prod.exhaust)
  from ag s have inv: "tracker_inv t" "tracker_inv r" and cap: "tk_capacity t = 0" "tk_capacity r = 0"
    and ret: "tk_retention t = tk_retention r" and ids: "\<And>i. i \<notin> set ids \<Longrightarrow> watched t i = None \<and> watched r i = None"
    and y: "young now (tk_retention r) (watched t) = young now (tk_retention r) (watched r)"
    by (simp_all add: finding_agrees_def)
  show ?thesis
  proof (cases e)
    case (Recorded i b kind legs at_time)
    let ?t = "insert_raw i b kind legs at_time t" and ?r = "insert_raw i b kind legs at_time r"
    let ?f = "\<lparr>tf_bridge = b, tf_kind = kind, tf_pending = remdups legs, tf_recorded_at = at_time\<rparr>"
    from ok s Recorded have new: "i \<notin> set ids" "at_time \<le> now" by simp_all
    from insert_raw_inv[OF inv(1)] insert_raw_inv[OF inv(2)] ids[OF new(1)]
    have inv': "tracker_inv ?t" "tracker_inv ?r" by simp_all
    from inv'(1) obtain out t' where sw: "sweep at_time ?t = Some (out, t')" "tracker_inv t'" "tk_retention t' = tk_retention r"
      "tk_capacity t' = 0" "watched t' = young at_time (tk_retention r) (watched ?t)"
      by (rule sweep_spec[where now = at_time]) (simp add: cap ret)
    have "young now (tk_retention r) (watched t') = young now (tk_retention r) (watched ?r)"
    proof -
      have "young now (tk_retention r) (watched t') = young now (tk_retention r) ((watched t)(i \<mapsto> ?f))"
        by (simp only: sw(5) young_young[OF new(2)] insert_raw_watched)
      also have "\<dots> = young now (tk_retention r) ((watched r)(i \<mapsto> ?f))" by (simp only: young_upd y)
      finally show ?thesis by (simp only: insert_raw_watched)
    qed
    moreover have "watched t' j = None \<and> watched ?r j = None" if "j \<notin> set (i # ids)" for j
      using ids[of j] that by (simp add: sw(5) young_def insert_raw_watched)
    ultimately show ?thesis
      using sw inv'(2) cap Recorded s by (simp add: journalled_call_def record_finding_def finding_agrees_def)
  next
    case (LegFinalized c h)
    obtain out t' where o: "on_block_finalized (c, h) t = (out, t')" by (rule prod.exhaust)
    obtain out2 r' where o2: "on_block_finalized (c, h) r = (out2, r')" by (rule prod.exhaust)
    from on_block_finalized_spec[OF inv(1) o] on_block_finalized_spec[OF inv(2) o2] ids y cap ret LegFinalized s o o2 show ?thesis
      by (auto simp: journalled_call_def finding_agrees_def young_clear clear_leg_None)
  next
    case (LegReverted c h)
    obtain out t' where o: "on_block_reverted (c, h) t = (out, t')" by (rule prod.exhaust)
    obtain out2 r' where o2: "on_block_reverted (c, h) r = (out2, r')" by (rule prod.exhaust)
    from on_block_reverted_spec[OF inv(1) o] on_block_reverted_spec[OF inv(2) o2] ids y cap ret LegReverted s o o2 show ?thesis
      by (auto simp: journalled_call_def finding_agrees_def young_drop drop_leg_None)
  qed
qed

interpretation finding_log: event_sourced journalled_call apply_finding_entry "finding_agrees now" "finding_ok now" for now
  by unfold_locales (rule journalled_call_agrees)

lemma run_live_journalled:
  "live_run es t = Some (outs, t') \<Longrightarrow> run_live journalled_call (ids, t) es = Some ((rev (recorded_ids es) @ ids, t'), es)"
proof (induction es arbitrary: ids t outs)
  case (Cons e es)
  from Cons.prems obtain out t1 outs1 where 1: "live_call e t = Some (out, t1)" "live_run es t1 = Some (outs1, t')"
    by (auto simp: bind_eq_Some_conv)
  have "rev (recorded_ids [e]) = recorded_ids [e]" by (cases e) simp_all
  with 1 Cons.IH[OF 1(2), of "recorded_ids [e] @ ids"] show ?case
    by (simp add: journalled_call_def recorded_ids_Cons[of e es])
qed simp

lemma run_ok_journalled:
  "distinct (recorded_ids es) \<Longrightarrow> set (recorded_ids es) \<inter> set ids = {} \<Longrightarrow> recorded_by now es \<Longrightarrow>
     run_ok journalled_call (finding_ok now) (ids, t) es"
proof (induction es arbitrary: ids t)
  case (Cons e es)
  have "finding_ok now (ids, t) e" using Cons.prems(2,3) by (cases e) (auto simp: recorded_by_def)
  moreover have "recorded_by now es" using Cons.prems(3) by (auto simp: recorded_by_def)
  moreover have "distinct (recorded_ids es)" "set (recorded_ids es) \<inter> set (recorded_ids [e] @ ids) = {}"
    using Cons.prems(1,2) by (auto simp: recorded_ids_Cons[of e es])
  ultimately show ?case
    using Cons.IH[of "recorded_ids [e] @ ids"] by (auto simp: journalled_call_def split: option.splits)
qed simp

lemma run_retention:
  "live_run es t = Some (outs, t') \<Longrightarrow> tracker_inv t \<Longrightarrow> distinct (recorded_ids es) \<Longrightarrow> unwatched (recorded_ids es) t \<Longrightarrow>
     tk_retention t' = tk_retention t"
proof (induction es arbitrary: t outs)
  case (Cons e es)
  have "unwatched (recorded_ids [e]) t" using Cons.prems(4) by (simp add: unwatched_def recorded_ids_Cons[of e es])
  from live_call_spec[OF Cons.prems(2) this] obtain out t1 where c: "live_call e t = Some (out, t1)" "tracker_inv t1"
    "tk_retention t1 = tk_retention t" "\<And>i. watched t i = None \<Longrightarrow> i \<notin> set (recorded_ids [e]) \<Longrightarrow> watched t1 i = None" by metis
  from Cons.prems(1) c(1) obtain outs1 where o: "live_run es t1 = Some (outs1, t')" by (auto simp: bind_eq_Some_conv)
  from Cons.IH[OF o c(2) rest_fresh[OF Cons.prems(3,4) c(4)]] c(3) show ?case by simp
qed simp


lemmas tracker_eval = record_finding_def evict_now_def sweep_def insert_raw_def Let_def link_leg_def unlink_leg_def
  remove_finding_def on_block_finalized_def on_block_reverted_def tracker_new_def expire_loop.simps capacity_loop.simps
  insort_insert_key_def tracker_len_def

text \<open>
  With a capacity bound the replay is not the live state. A finding the live tracker evicted for want
  of room is back after a restart when a later finding has been finalized meanwhile: evictions are not
  journalled, and the single eviction at the end of the replay finds room for it.
\<close>

theorem evicted_finding_returns_on_replay:
  "\<exists>es outs t t'. distinct (recorded_ids es) \<and> recorded_by 2 es \<and>
     live_run es (tracker_new 100 1) = Some (outs, t) \<and> tracker_len t = 0 \<and>
     finding_replay 100 1 2 es = Some t' \<and> tracker_len t' = 1"
proof -
  let ?es = "[Recorded 1 ''usdc'' BridgeMev [(1, 10)] 0, Recorded 2 ''usdc'' BridgeMev [(1, 20)] 1, LegFinalized 1 20]"
  have "distinct (recorded_ids ?es)" "recorded_by 2 ?es" by (auto simp: recorded_by_def)
  moreover have "\<exists>outs t. live_run ?es (tracker_new 100 1) = Some (outs, t) \<and> tracker_len t = 0"
    by (simp add: tracker_eval summary_of_def)
  moreover have "\<exists>t'. finding_replay 100 1 2 ?es = Some t' \<and> tracker_len t' = 1"
    by (simp add: finding_replay_def tracker_eval summary_of_def)
  ultimately show ?thesis by blast
qed

section \<open>The actor and the tracker together\<close>

definition tracked_of :: "actor_out list \<Rightarrow> finding_entry list" where
  "tracked_of outs = List.map_filter (\<lambda>x. case x of Tracked i b kind legs t \<Rightarrow> Some (Recorded i b kind legs t) | _ \<Rightarrow> None) outs"

lemma tracked_of_append: "tracked_of (xs @ ys) = tracked_of xs @ tracked_of ys"
  unfolding tracked_of_def
proof (induction xs)
  case (Cons x xs)
  then show ?case by (cases x) (simp_all add: map_filter_simps)
qed (simp add: map_filter_simps)

lemma live_run_append:
  "live_run (es @ fs) t = do { (o1, t1) \<leftarrow> live_run es t; (o2, t2) \<leftarrow> live_run fs t1; Some (o1 @ o2, t2) }"
  by (induction es arbitrary: t) (auto simp: bind_eq_Some_conv split: Option.bind_splits)

lemma recorded_ids_append: "recorded_ids (es @ fs) = recorded_ids es @ recorded_ids fs"
proof (induction es)
  case (Cons e es)
  then show ?case by (cases e) simp_all
qed simp

lemma watched_ids:
  "live_run es t = Some (outs, t') \<Longrightarrow> tracker_inv t \<Longrightarrow> distinct (recorded_ids es) \<Longrightarrow> unwatched (recorded_ids es) t \<Longrightarrow>
     watched t i = None \<Longrightarrow> i \<notin> set (recorded_ids es) \<Longrightarrow> watched t' i = None"
proof (induction es arbitrary: t outs)
  case (Cons e es)
  have "unwatched (recorded_ids [e]) t" using Cons.prems(4) by (simp add: unwatched_def recorded_ids_Cons[of e es])
  from live_call_spec[OF Cons.prems(2) this] obtain out t1 where c: "live_call e t = Some (out, t1)" "tracker_inv t1"
    "\<And>i. watched t i = None \<Longrightarrow> i \<notin> set (recorded_ids [e]) \<Longrightarrow> watched t1 i = None" by metis
  from Cons.prems(1) c(1) obtain outs1 where o: "live_run es t1 = Some (outs1, t')" by (auto simp: bind_eq_Some_conv)
  from Cons.prems(6) have i: "i \<notin> set (recorded_ids [e])" "i \<notin> set (recorded_ids es)" by (simp_all add: recorded_ids_Cons[of e es])
  from Cons.IH[OF o c(2) rest_fresh[OF Cons.prems(3,4) c(3)] c(3)[OF Cons.prems(5) i(1)] i(2)] show ?case .
qed simp


text \<open>
  C16: The actor does not hear of reversals. A leg whose block is reverted while it waits in the buffer
  still completes a finding, which is published citing the reverted block; the reversal came before
  the finding was recorded, so nothing retracts the finding unless the other leg's block goes too.
\<close>

theorem orphaned_leg_is_published_and_stays:
  assumes "cl_key a = cl_key d" "cl_chain a \<noteq> cl_chain d" "is_complementary (cl_kind a) (cl_kind d)"
    and "li_leg x = a" "li_leg y = d" "li_delivered y"
    and legs: "legs = [leg_key_of (bm_deposit_leg (build_bridge_mev (li_finding_id y) d a)),
      leg_key_of (bm_fill_leg (build_bridge_mev (li_finding_id y) d a))]"
    and run: "live_run (LegReverted (cl_chain a) (br_hash (cl_block a)) # Recorded (li_finding_id y) br BridgeMev legs (li_tracked_at y) # es)
      (tracker_new retention 0) = Some (o1 # o2 # outs, t')"
    and "0 \<le> retention" "distinct (li_finding_id y # recorded_ids es)" "recorded_by (li_tracked_at y + retention) es"
    and once: "\<forall>leg\<in>set legs. LegReverted (fst leg) (snd leg) \<notin> set es"
  shows "(cl_chain a, br_hash (cl_block a)) \<in> set legs \<and>
    (\<exists>a' ch. actor_run (actor_new t0 br window n) [x, y] = Some (a', [Appended (Buffered a), Appended (Removed br (cl_tx a)),
       Tracked (li_finding_id y) br BridgeMev legs (li_tracked_at y), Published ch (BridgeFinding (build_bridge_mev (li_finding_id y) d a))])) \<and>
    \<not> retracted_in (li_finding_id y) es outs"
proof (intro conjI)
  show "(cl_chain a, br_hash (cl_block a)) \<in> set legs"
    by (auto simp: legs build_bridge_mev_def Let_def leg_key_of_def leg_ref_of_def)
  have i: "bm_finding_id (build_bridge_mev (li_finding_id y) d a) = li_finding_id y"
    by (simp add: build_bridge_mev_def Let_def split: prod.splits)
  show "\<exists>a' ch. actor_run (actor_new t0 br window n) [x, y] = Some (a', [Appended (Buffered a), Appended (Removed br (cl_tx a)),
       Tracked (li_finding_id y) br BridgeMev legs (li_tracked_at y), Published ch (BridgeFinding (build_bridge_mev (li_finding_id y) d a))])"
    using assms(1-6) i by (cases "cl_kind a"; cases "cl_kind d") (simp_all add: actor_eval legs)
  from run have "o1 = [] \<and> live_run (Recorded (li_finding_id y) br BridgeMev legs (li_tracked_at y) # es) (tracker_new retention 0) = Some (o2 # outs, t')"
    by (auto simp: on_block_reverted_def tracker_new_def bind_eq_Some_conv)
  with recorded_fate[OF tracker_new_inv, of retention 0 legs "li_finding_id y" br BridgeMev "li_tracked_at y" es o2 outs t']
  have "retracted_in (li_finding_id y) es outs \<longleftrightarrow> reverted_first legs es"
    using assms(9-11) by (auto simp: tracker_new_def unwatched_def legs)
  moreover have "\<not> reverted_first legs es" using once by (force simp: reverted_first_def)
  ultimately show "\<not> retracted_in (li_finding_id y) es outs" by simp
qed

section \<open>Concrete runs\<close>

definition ex_legs :: "leg_key list" where "ex_legs = [(1, 10), (10, 20)]"

theorem tracker_calls_return_witness:
  "\<exists>outs t. live_run [Recorded 1 ''usdc'' BridgeMev ex_legs 0, Recorded 2 ''usdc'' BridgeMev ex_legs 5, LegReverted 1 10]
     (tracker_new 100 1) = Some (outs, t) \<and> tracker_inv t \<and> (1 = (0::nat) \<or> tracker_len t \<le> 1)"
  by (rule tracker_calls_return) simp

theorem as_final_as_least_final_leg_witness:
  "\<exists>out outs t'. live_run (Recorded 1 ''usdc'' BridgeMev ex_legs 0 # [LegFinalized 1 10, LegReverted 10 20]) (tracker_new 100 0)
      = Some (out # outs, t') \<and> retracted_in 1 [LegFinalized 1 10, LegReverted 10 20] outs"
proof -
  let ?e = "Recorded 1 ''usdc'' BridgeMev ex_legs 0" and ?es = "[LegFinalized 1 10, LegReverted 10 20]"
  have fresh: "distinct (recorded_ids (?e # ?es))" "unwatched (recorded_ids (?e # ?es)) (tracker_new 100 0)" "recorded_by (0 + tk_retention (tracker_new 100 0)) ?es"
    by (auto simp: unwatched_def tracker_new_def recorded_by_def)
  have "within_capacity (tracker_new 100 0)" by (simp add: within_capacity_def tracker_new_def)
  from live_run_total[OF tracker_new_inv this fresh(1,2)] obtain os t' where os: "live_run (?e # ?es) (tracker_new 100 0) = Some (os, t')" by blast
  then obtain out outs where "os = out # outs" by (auto simp: bind_eq_Some_conv simp del: live_call.simps)
  with os have run: "live_run (?e # ?es) (tracker_new 100 0) = Some (out # outs, t')" by simp
  have "reverted_first ex_legs ?es" by (simp add: reverted_first_Cons ex_legs_def)
  with as_final_as_least_final_leg[OF tracker_new_inv _ _ _ fresh run] run show ?thesis by (auto simp: tracker_new_def ex_legs_def)
qed



theorem orphaned_leg_is_published_and_stays_witness:
  "\<exists>a' ch legs outs. actor_run (actor_new 0 ''usdc'' 600 2) [ex_input ex_deposit, ex_input ex_fill] =
      Some (a', [Appended (Buffered ex_deposit), Appended (Removed ''usdc'' (cl_tx ex_deposit)), Tracked 1 ''usdc'' BridgeMev legs 20,
        Published ch (BridgeFinding (build_bridge_mev 1 ex_fill ex_deposit))]) \<and>
     (cl_chain ex_deposit, br_hash (cl_block ex_deposit)) \<in> set legs \<and> \<not> retracted_in 1 [LegFinalized 10 0] outs"
proof -
  let ?legs = "[leg_key_of (bm_deposit_leg (build_bridge_mev 1 ex_fill ex_deposit)), leg_key_of (bm_fill_leg (build_bridge_mev 1 ex_fill ex_deposit))]"
  let ?es = "[LegFinalized 10 0]"
  let ?all = "LegReverted (cl_chain ex_deposit) (br_hash (cl_block ex_deposit)) # Recorded 1 ''usdc'' BridgeMev ?legs 20 # ?es"
  have f: "within_capacity (tracker_new 100 0)" "distinct (recorded_ids ?all)" "unwatched (recorded_ids ?all) (tracker_new 100 0)"
    by (simp_all add: within_capacity_def unwatched_def tracker_new_def)
  from live_run_total[OF tracker_new_inv f] obtain os t where os: "live_run ?all (tracker_new 100 0) = Some (os, t)" by blast
  then obtain o1 o2 outs where "os = o1 # o2 # outs" by (auto simp: bind_eq_Some_conv simp del: live_call.simps)
  with os have run: "live_run ?all (tracker_new 100 0) = Some (o1 # o2 # outs, t)" by simp
  have li: "li_leg (ex_input ex_deposit) = ex_deposit" "li_leg (ex_input ex_fill) = ex_fill" "li_delivered (ex_input ex_fill)"
    "li_finding_id (ex_input ex_fill) = 1" "li_tracked_at (ex_input ex_fill) = 20"
    by (simp_all add: ex_input_def ex_fill_def ex_leg_def)
  have k: "cl_key ex_deposit = cl_key ex_fill" "cl_chain ex_deposit \<noteq> cl_chain ex_fill" "is_complementary (cl_kind ex_deposit) (cl_kind ex_fill)"
    by (simp_all add: ex_deposit_def ex_fill_def ex_leg_def)
  have once: "\<forall>leg\<in>set ?legs. LegReverted (fst leg) (snd leg) \<notin> set ?es" by simp
  have late: "distinct (li_finding_id (ex_input ex_fill) # recorded_ids ?es)" "recorded_by (li_tracked_at (ex_input ex_fill) + 100) ?es"
    by (simp_all add: recorded_by_def)
  from orphaned_leg_is_published_and_stays[OF k li(1-3), of ?legs "''usdc''" ?es 100 o1 o2 outs t 0 600 2,
      OF _ _ _ late once] run show ?thesis
    unfolding li by (metis zero_le_numeral)
qed

end

