(* ===== verification/Spec2Isabelle.thy ===== *)
theory Spec2Isabelle
  imports Block_Tree Cross_Block_State Bounded_Map Resilience Sandwich_Detector Arb_Detector
    Flashloan_Detector Liquidation_Detector Rugpull_Detector Poisoning_Detector Emit Wash_Trading_Detector
    Detection_Reorg Ingestion_Pipeline Scheduler Rule_Consumer Finding_Tracker
begin

text \<open>
  A verification development of MEVWatch, a streaming detector of MEV and fraud on EVM chains. All
  paths below are under \<open>src/crates/\<close>.

  The program and its parts.

  A chain source delivers headers to \<open>ingestion\<close>, which keeps a fork-choice tree, back-fills gaps and
  appends \<open>BlockReverted\<close>, \<open>BlockCanonicalized\<close> and \<open>BlockFinalized\<close> events to a log. The scheduler of
  \<open>detection\<close> reads decoded blocks and those events, runs a roster of per-transaction and per-block
  detectors, rewinds the cross-block ones over a reorg, and publishes what they find before it commits
  its position. The rule engine \<open>rule-engine\<close> correlates findings into alerts by user rules, some of them
  temporal state machines whose state is stored and rewound. The cross-chain correlator
  \<open>cross-chain-correlator\<close> turns findings into candidate legs, joins legs of different chains, and retracts
  a published finding when a block of one of its legs is reverted. \<open>resilience\<close> and \<open>bounded-map\<close> are used
  by all of them.

  The theories, from the bottom.

  \<^item> \<open>Prelude\<close>: results, hash maps as association lists, list and option lemmas. \<open>F64\<close>: binary64
    numbers as the rationals they denote, with the rounding of IEEE 754. \<open>Chain_Types\<close>: block references and the
    identifiers of \<open>events/src/primitives.rs\<close>.
  \<^item> \<open>Block_Tree\<close>: \<open>ingestion/src/tree.rs\<close>; the record \<open>block_tree\<close> is the struct \<open>BlockTree\<close>, \<open>add_block\<close>,
    \<open>finalize\<close>, \<open>reorg_to\<close>, \<open>canonical_iter\<close> its methods. \<open>Ingestion_Pipeline\<close>: \<open>ingestion/src/pipeline.rs\<close> over it.
  \<^item> \<open>Cross_Block_State\<close>, \<open>Detection_Reorg\<close>: \<open>detector-api/src/cross_block_state.rs\<close> and \<open>detection/src/reorg.rs\<close>,
    the versioned snapshots of a cross-block detector and the roster that applies and reverts blocks.
  \<^item> \<open>Detector_Api\<close>, \<open>Sem_Ver\<close>, \<open>Token_Flow\<close>, \<open>Measured\<close>, \<open>Model_Registry\<close>, \<open>Emit\<close>, \<open>Builtin_Roster\<close>: the detector
    interface, build identity, registries and flags, the mapping of evidence to events, and the boot.
  \<^item> \<open>Sandwich_Detector\<close>, \<open>Arb_Detector\<close>, \<open>Flashloan_Detector\<close>, \<open>Liquidation_Detector\<close>, \<open>Rugpull_Detector\<close>,
    \<open>Poisoning_Detector\<close>, \<open>Wash_Trading_Detector\<close>: one detector crate each, the whole detect path.
  \<^item> \<open>Scheduler\<close>: \<open>detection/src/scheduler.rs\<close>, from a record to the events published and the position committed.
  \<^item> \<open>Bounded_Map\<close>, \<open>Resilience\<close>: the FIFO map, the circuit breaker and the retry backoff.
  \<^item> \<open>Rule_Model\<close>, \<open>Temporal_Rules\<close>, \<open>Temporal_Pool\<close>, \<open>Rule_Enrich\<close>, \<open>Rule_Consumer\<close>: \<open>rule-engine\<close>: documents and
    their compilation, the temporal machines, the pool of workers with its state store, enrichment, and
    the consumer that correlates, evaluates, emits and rewinds.
  \<^item> \<open>Event_Sourcing\<close>, \<open>Leg_Buffer\<close>, \<open>Leg_Join\<close>, \<open>Finding_Tracker\<close>: \<open>cross-chain-correlator\<close>: an interface of
    event-sourced components, the candidate-leg buffer, the join with its actor, changelog, router and
    chain consumer, and the finality tracker with its changelog and consumer.

  How code becomes definitions.

  A struct is a record, an enum a datatype, a method a function from the old state to the answer and
  the new state. Fixed-width integers are words and wrap or saturate where the code does; an amount of
  256 bits is a word of that width. A \<open>Result\<close> is a sum with the error on the left, a panic (\<open>expect\<close>,
  an index out of range) is \<open>None\<close> and is proved impossible where the code claims so. A hash map is an
  association list; where the code iterates one, properties speak of sets or do not depend on the order.
  Time is read from the inputs. A loop whose end is not structural (the walks over parent pointers, the
  back-fill of missing headers, the eviction loops) is a partial function whose value is \<open>None\<close> when it
  does not end, and that it ends is proved from the invariant; no fuel is used anywhere. A consumer's
  endless loop runs over the finite list of inputs it received before shutdown.
  Concurrency appears as the order of the inputs: the scheduler, the pool and the actor each handle one
  message at a time, and the pool's theorem quantifies over every interleaving of the workers' mailboxes.

  Interfaces.

  Locales state what one part relies on from another: \<open>rewindable\<close> (the trait \<open>Rewindable\<close>, interpreted by the
  snapshot stack and by a detector's slot), \<open>detector_plugin\<close> (what emission relies on, interpreted by six
  detectors), \<open>cross_block_detector\<close> (interpreted by the wash-trading detector), \<open>machine_cache\<close> (interpreted by
  the worker's cache) and \<open>event_sourced\<close> (interpreted by the leg changelog and the finding changelog).

  What is shown.

  \<^item> Chain state: every reachable fork-choice tree is well formed and bounded by the finalization depth;
    a reorg lists exactly the orphaned and the new blocks; the log alone determines the canonical chain;
    ingestion of a head terminates and acknowledges only what was published.
  \<^item> Reorgs: reverting a branch restores the snapshots; a roster that has seen a reorg is in the state of
    one that saw only the canonical chain; a rewound temporal machine is the one before the block.
  \<^item> Detectors: each finding is one (soundness), and for most of them the finding is reported exactly then.
  \<^item> Rules: a fire has its evidence within the window; the pool of workers refines one machine per rule
    and subject whatever the interleaving; a record is committed only after its effects are in place, and
    a failed record changes nothing.
  \<^item> Cross-chain: the indexed join is a reference join over the legs; replaying the changelog rebuilds the
    buffer; a finding is tracked before it is published, is retracted exactly when a leg is reverted that
    was not final, and is released exactly when every leg is final; the eviction loops end.
  \<^item> Behaviour that contradicts the documentation or the intent of the code is stated as a theorem of the
    theory concerned, with the input that shows it.

  Not modelled.

  Serialisation, hashing, hexadecimal coding, URL and address parsing, clocks, random numbers, Kafka,
  RabbitMQ, Redis, Postgres, HTTP and the EVM are libraries or services: their answers are parameters or
  inputs. Metrics, logging and process wiring are left out. The inference crate drives an ONNX runtime;
  the simulation workers replay through a third-party EVM; the stores, servers, copilot and offline tools
  are SQL, HTTP and prompts around data that other parts compute. The conversion of a 256-bit integer to
  binary64 and the precision of \<open>powi\<close> are not fixed by Rust and are fields of the parameter \<open>float_env\<close>.
\<close>

end
